(* ===== verification/Http_Prelude.thy ===== *)
theory Http_Prelude
  imports Main "HOL-Library.Word"
begin

text \<open>
  Shared vocabulary of the development.

  \<^item> Octets are values of \<open>char\<close>: like \<open>unsigned char\<close> it has exactly 256 values,
    and \<open>byte c\<close> is the number the code compares against.
  \<^item> A \<open>string_view\<close>, or the readable range of an \<open>asio::const_buffer\<close>, is the
    list of its octets. Sizes and indices (\<open>std::size_t\<close>) are natural numbers: every one of
    them is bounded by the size of a buffer in memory, so none of the code's size
    computations wraps around.
  \<^item> What C++ leaves undefined or turns into a failed assertion is a value of \<open>fault\<close>.
    A step of a reader that may run into one returns an \<open>outcome\<close>.
  \<^item> The scanning loops of the code and the list lemmas about them.
\<close>

section \<open>Octets and views\<close>

type_synonym octets = "char list"

abbreviation byte :: "char \<Rightarrow> nat" where
  "byte c \<equiv> of_char c"

lemma char_eq_byte: "c = d \<longleftrightarrow> byte c = byte d"
  by simp

type_synonym u64 = "64 word"

text \<open>The case-insensitive comparison the readers call, \<open>boost::algorithm::iequals\<close>, is
  library code: the definitions that use it take it as an argument of this type.\<close>

type_synonym iequals = "octets \<Rightarrow> octets \<Rightarrow> bool"

section \<open>Faults and outcomes\<close>

text \<open>
  \<open>Out_of_bounds\<close>: an access outside the range a view or a buffer covers.
  \<open>Assertion\<close>: a failed \<open>assert\<close>. \<open>Unreachable\<close>: control reached a
  \<open>BOOST_HTTP_DETAIL_UNREACHABLE\<close>.
\<close>

datatype fault = Out_of_bounds | Assertion | Unreachable

text \<open>How one pass through the \<open>switch\<close> of a reader's \<open>next()\<close> ends: it returns,
  it runs \<open>return next();\<close>, or it faults.\<close>

datatype 'r outcome = Return 'r | Tail_next 'r | Fault fault

definition guarded :: "fault + 'a \<Rightarrow> ('a \<Rightarrow> 'r outcome) \<Rightarrow> 'r outcome" where
  "guarded x f = (case x of Inl e \<Rightarrow> Fault e | Inr a \<Rightarrow> f a)"

lemma guarded_simps [simp]:
  "guarded (Inl e) f = Fault e"
  "guarded (Inr a) f = f a"
  by (simp_all add: guarded_def)

section \<open>Reading a buffer\<close>

definition byte_at :: "octets \<Rightarrow> nat \<Rightarrow> fault + char" where
  "byte_at buf i = (if i < length buf then Inr (buf ! i) else Inl Out_of_bounds)"

lemma byte_at_ok [simp]: "i < length buf \<Longrightarrow> byte_at buf i = Inr (buf ! i)"
  by (simp add: byte_at_def)

text \<open>The loop \<open>for ( ; i != buf.size() ; ++i) if (!p(buf[i])) break;\<close>: the index where it
  stops. An \<open>i\<close> already past the end makes it run off the buffer.\<close>

fun match_loop :: "(char \<Rightarrow> bool) \<Rightarrow> octets \<Rightarrow> nat" where
  "match_loop p [] = 0"
| "match_loop p (c # cs) = (if \<not> p c then 0 else Suc (match_loop p cs))"

definition scan_from :: "(char \<Rightarrow> bool) \<Rightarrow> octets \<Rightarrow> nat \<Rightarrow> fault + nat" where
  "scan_from p buf i =
     (if length buf < i then Inl Out_of_bounds else Inr (i + match_loop p (drop i buf)))"

section \<open>Lemmas on the scanning loops\<close>

named_theorems scan_simps \<open>rewrite rules for the scanning loops\<close>

lemma match_loop_takeWhile: "match_loop p xs = length (takeWhile p xs)"
  by (induction xs) auto

lemma match_loop_le: "match_loop p xs \<le> length xs"
  by (simp add: match_loop_takeWhile length_takeWhile_le)

lemma match_loop_full: "match_loop p xs = length xs \<longleftrightarrow> (\<forall>c \<in> set xs. p c)"
  by (induction xs) auto

lemma match_loop_zero: "match_loop p xs = 0 \<longleftrightarrow> (xs = [] \<or> \<not> p (hd xs))"
  by (cases xs) auto

lemma match_loop_prefix: "\<forall>c \<in> set (take (match_loop p xs) xs). p c"
  by (simp add: match_loop_takeWhile takeWhile_eq_take [symmetric]) (meson set_takeWhileD)

lemma list_all_match_loop [simp]: "list_all p (take (match_loop p xs) xs)"
  using match_loop_prefix by (auto simp: list_all_iff)

lemma match_loop_stop: "match_loop p xs < length xs \<Longrightarrow> \<not> p (xs ! match_loop p xs)"
  by (simp add: match_loop_takeWhile nth_length_takeWhile)

lemma match_loop_append [scan_simps]:
  "\<forall>c \<in> set xs. p c \<Longrightarrow> match_loop p (xs @ ys) = length xs + match_loop p ys"
  by (induction xs) auto

lemma match_loop_append_stop [scan_simps]:
  "match_loop p xs < length xs \<Longrightarrow> match_loop p (xs @ ys) = match_loop p xs"
  by (induction xs) (auto split: if_splits)

lemma match_loop_unique:
  "n < length xs \<Longrightarrow> (\<forall>c \<in> set (take n xs). p c) \<Longrightarrow> \<not> p (xs ! n) \<Longrightarrow> match_loop p xs = n"
proof (induction xs arbitrary: n)
  case Nil
  then show ?case by simp
next
  case (Cons x xs)
  then show ?case by (cases n) auto
qed

lemma match_loop_mono:
  "(\<And>c. p c \<Longrightarrow> q c) \<Longrightarrow> match_loop p xs \<le> match_loop q xs"
  by (induction xs) auto

text \<open>Resuming a scan behind octets that were already accepted gives the same stop index.\<close>

lemma scan_resume:
  assumes "n \<le> length xs" and "\<forall>c \<in> set (take n xs). p c"
  shows "n + match_loop p (drop n xs) = match_loop p xs"
proof -
  have "match_loop p (take n xs @ drop n xs) = length (take n xs) + match_loop p (drop n xs)"
    by (rule match_loop_append) (rule assms(2))
  with assms(1) show ?thesis by simp
qed

lemma scan_from_bounds:
  "scan_from p buf i = Inr j \<Longrightarrow> i \<le> j \<and> j \<le> length buf"
  using match_loop_le [of p "drop i buf"]
  by (auto simp: scan_from_def split: if_splits)

lemma scan_from_ok:
  "i \<le> length buf \<Longrightarrow> scan_from p buf i = Inr (i + match_loop p (drop i buf))"
  by (simp add: scan_from_def)

end
