(* ===== verification/Token.thy ===== *)
theory Token
  imports Http_Prelude
begin

text \<open>
  The token vocabulary (\<open>token.hpp\<close>, \<open>token.ipp\<close>): the codes the readers report, the
  coarser symbols and categories, and the conversions between them. The enumerators of the
  three \<open>value\<close> enumerations carry the name of their structure as a prefix.
\<close>

datatype code =
    code_error_insufficient_data
  | code_error_set_method
  | code_error_use_another_connection
  | code_error_invalid_data
  | code_error_no_host
  | code_error_invalid_content_length
  | code_error_content_length_overflow
  | code_error_invalid_transfer_encoding
  | code_error_chunk_size_overflow
  | code_skip
  | code_method
  | code_request_target
  | code_version
  | code_status_code
  | code_reason_phrase
  | code_field_name
  | code_field_value
  | code_end_of_headers
  | code_chunk_ext
  | code_body_chunk
  | code_end_of_body
  | code_trailer_name
  | code_trailer_value
  | code_end_of_message

datatype symbol =
    symbol_error
  | symbol_skip
  | symbol_method
  | symbol_request_target
  | symbol_version
  | symbol_status_code
  | symbol_reason_phrase
  | symbol_field_name
  | symbol_field_value
  | symbol_end_of_headers
  | symbol_chunk_ext
  | symbol_body_chunk
  | symbol_end_of_body
  | symbol_trailer_name
  | symbol_trailer_value
  | symbol_end_of_message

datatype category = category_status | category_data | category_structural

fun symbol_convert :: "code \<Rightarrow> symbol" where
  "symbol_convert code_error_insufficient_data = symbol_error"
| "symbol_convert code_error_set_method = symbol_error"
| "symbol_convert code_error_use_another_connection = symbol_error"
| "symbol_convert code_error_invalid_data = symbol_error"
| "symbol_convert code_error_no_host = symbol_error"
| "symbol_convert code_error_invalid_content_length = symbol_error"
| "symbol_convert code_error_content_length_overflow = symbol_error"
| "symbol_convert code_error_invalid_transfer_encoding = symbol_error"
| "symbol_convert code_error_chunk_size_overflow = symbol_error"
| "symbol_convert code_skip = symbol_skip"
| "symbol_convert code_method = symbol_method"
| "symbol_convert code_request_target = symbol_request_target"
| "symbol_convert code_version = symbol_version"
| "symbol_convert code_status_code = symbol_status_code"
| "symbol_convert code_reason_phrase = symbol_reason_phrase"
| "symbol_convert code_field_name = symbol_field_name"
| "symbol_convert code_field_value = symbol_field_value"
| "symbol_convert code_end_of_headers = symbol_end_of_headers"
| "symbol_convert code_chunk_ext = symbol_chunk_ext"
| "symbol_convert code_body_chunk = symbol_body_chunk"
| "symbol_convert code_end_of_body = symbol_end_of_body"
| "symbol_convert code_trailer_name = symbol_trailer_name"
| "symbol_convert code_trailer_value = symbol_trailer_value"
| "symbol_convert code_end_of_message = symbol_end_of_message"

definition category_convert_code :: "code \<Rightarrow> category" where
  "category_convert_code v =
     (case v of
        code_error_insufficient_data \<Rightarrow> category_status
      | code_error_set_method \<Rightarrow> category_status
      | code_error_use_another_connection \<Rightarrow> category_status
      | code_error_invalid_data \<Rightarrow> category_status
      | code_error_no_host \<Rightarrow> category_status
      | code_error_invalid_content_length \<Rightarrow> category_status
      | code_error_content_length_overflow \<Rightarrow> category_status
      | code_error_invalid_transfer_encoding \<Rightarrow> category_status
      | code_error_chunk_size_overflow \<Rightarrow> category_status
      | code_skip \<Rightarrow> category_status
      | code_method \<Rightarrow> category_data
      | code_request_target \<Rightarrow> category_data
      | code_version \<Rightarrow> category_data
      | code_status_code \<Rightarrow> category_data
      | code_reason_phrase \<Rightarrow> category_data
      | code_field_name \<Rightarrow> category_data
      | code_field_value \<Rightarrow> category_data
      | code_chunk_ext \<Rightarrow> category_data
      | code_body_chunk \<Rightarrow> category_data
      | code_trailer_name \<Rightarrow> category_data
      | code_trailer_value \<Rightarrow> category_data
      | code_end_of_headers \<Rightarrow> category_structural
      | code_end_of_body \<Rightarrow> category_structural
      | code_end_of_message \<Rightarrow> category_structural)"

definition category_convert_symbol :: "symbol \<Rightarrow> category" where
  "category_convert_symbol v =
     (case v of
        symbol_error \<Rightarrow> category_status
      | symbol_skip \<Rightarrow> category_status
      | symbol_method \<Rightarrow> category_data
      | symbol_request_target \<Rightarrow> category_data
      | symbol_version \<Rightarrow> category_data
      | symbol_status_code \<Rightarrow> category_data
      | symbol_reason_phrase \<Rightarrow> category_data
      | symbol_field_name \<Rightarrow> category_data
      | symbol_field_value \<Rightarrow> category_data
      | symbol_chunk_ext \<Rightarrow> category_data
      | symbol_body_chunk \<Rightarrow> category_data
      | symbol_trailer_name \<Rightarrow> category_data
      | symbol_trailer_value \<Rightarrow> category_data
      | symbol_end_of_headers \<Rightarrow> category_structural
      | symbol_end_of_body \<Rightarrow> category_structural
      | symbol_end_of_message \<Rightarrow> category_structural)"

section \<open>Classes of codes\<close>

text \<open>An error is final when it is not a mere request for more data.\<close>

definition final_error :: "code \<Rightarrow> bool" where
  "final_error c \<longleftrightarrow> symbol_convert c = symbol_error \<and> c \<noteq> code_error_insufficient_data"

lemma final_error_cases:
  "final_error c \<longleftrightarrow>
     c \<in> {code_error_set_method, code_error_use_another_connection, code_error_invalid_data,
          code_error_no_host, code_error_invalid_content_length,
          code_error_content_length_overflow, code_error_invalid_transfer_encoding,
          code_error_chunk_size_overflow}"
  by (cases c) (simp_all add: final_error_def)

lemma final_error_simps [simp]:
  "\<not> final_error code_error_insufficient_data"
  "final_error code_error_set_method"
  "final_error code_error_use_another_connection"
  "final_error code_error_invalid_data"
  "final_error code_error_no_host"
  "final_error code_error_invalid_content_length"
  "final_error code_error_content_length_overflow"
  "final_error code_error_invalid_transfer_encoding"
  "final_error code_error_chunk_size_overflow"
  "\<not> final_error code_skip"
  "\<not> final_error code_method"
  "\<not> final_error code_request_target"
  "\<not> final_error code_version"
  "\<not> final_error code_status_code"
  "\<not> final_error code_reason_phrase"
  "\<not> final_error code_field_name"
  "\<not> final_error code_field_value"
  "\<not> final_error code_end_of_headers"
  "\<not> final_error code_chunk_ext"
  "\<not> final_error code_body_chunk"
  "\<not> final_error code_end_of_body"
  "\<not> final_error code_trailer_name"
  "\<not> final_error code_trailer_value"
  "\<not> final_error code_end_of_message"
  by (simp_all add: final_error_cases)

end
