(* ===== verification/Abnf.thy ===== *)
theory Abnf
  imports Http_Prelude
begin

text \<open>
  The character classes. The readers have their own (\<open>reader/detail/abnf.hpp\<close>,
  \<open>reader/detail/common.hpp\<close>), the syntax components another set
  (\<open>syntax/detail/*.hpp\<close> and the \<open>detail\<close> namespaces of \<open>syntax/*.ipp\<close>); the
  names of the second set start with \<open>syn_\<close>. The lemmas show that both sets agree and how
  the classes are related.
\<close>

section \<open>Classes of the readers\<close>

definition isalpha :: "char \<Rightarrow> bool" where
  "isalpha c \<longleftrightarrow> (byte c \<ge> 0x41 \<and> byte c \<le> 0x5A) \<or> (byte c \<ge> 0x61 \<and> byte c \<le> 0x7A)"

definition isdigit :: "char \<Rightarrow> bool" where
  "isdigit c \<longleftrightarrow> byte c \<ge> 0x30 \<and> byte c \<le> 0x39"

definition isalnum :: "char \<Rightarrow> bool" where
  "isalnum c \<longleftrightarrow> isalpha c \<or> isdigit c"

definition is_tchar :: "char \<Rightarrow> bool" where
  "is_tchar c \<longleftrightarrow>
     (if c \<in> {CHR ''!'', CHR ''#'', CHR ''$'', CHR ''%'', CHR ''&'', CHR 0x27, CHR ''*'',
              CHR ''+'', CHR ''-'', CHR ''.'', CHR ''^'', CHR ''_'', CHR 0x60, CHR ''|'',
              CHR ''~''}
      then True else isalnum c)"

definition is_sp :: "char \<Rightarrow> bool" where
  "is_sp c \<longleftrightarrow> c = CHR 0x20"

definition is_vchar :: "char \<Rightarrow> bool" where
  "is_vchar c \<longleftrightarrow> byte c \<ge> 0x21 \<and> byte c \<le> 0x7E"

definition is_obs_text :: "char \<Rightarrow> bool" where
  "is_obs_text c \<longleftrightarrow> byte c \<ge> 0x80"

definition is_ows :: "char \<Rightarrow> bool" where
  "is_ows c \<longleftrightarrow> c \<in> {CHR 0x20, CHR 0x09}"

definition is_chunk_ext_char :: "char \<Rightarrow> bool" where
  "is_chunk_ext_char c \<longleftrightarrow>
     (if c \<in> {CHR '';'', CHR ''='', CHR 0x22, CHR 0x09, CHR '' '', CHR ''!'', CHR 0x5C}
      then True
      else is_tchar c \<or> (byte c \<ge> 0x23 \<and> byte c \<le> 0x5B)
           \<or> (byte c \<ge> 0x5D \<and> byte c \<le> 0x7E) \<or> is_obs_text c \<or> is_vchar c)"

definition is_request_target_char :: "char \<Rightarrow> bool" where
  "is_request_target_char c \<longleftrightarrow>
     (if c \<in> {CHR ''?'', CHR ''/'', CHR ''-'', CHR ''.'', CHR ''_'', CHR ''~'', CHR ''%'',
              CHR ''!'', CHR ''$'', CHR ''&'', CHR 0x27, CHR ''('', CHR '')'', CHR ''*'',
              CHR ''+'', CHR '','', CHR '';'', CHR ''='', CHR '':'', CHR ''@''}
      then True else isalnum c)"

section \<open>Classes of the syntax components\<close>

definition syn_is_digit :: "char \<Rightarrow> bool" where
  "syn_is_digit c \<longleftrightarrow> byte c \<ge> 0x30 \<and> byte c \<le> 0x39"

definition syn_is_obs_text :: "char \<Rightarrow> bool" where
  "syn_is_obs_text c \<longleftrightarrow> byte c \<ge> 0x80 \<and> byte c \<le> 0xFF"

definition syn_is_ows :: "char \<Rightarrow> bool" where
  "syn_is_ows c \<longleftrightarrow> c \<in> {CHR 0x20, CHR 0x09}"

definition syn_is_vchar :: "char \<Rightarrow> bool" where
  "syn_is_vchar c \<longleftrightarrow> byte c \<ge> 0x21 \<and> byte c \<le> 0x7E"

text \<open>In \<open>syntax/field_name.ipp\<close> the unqualified \<open>isalnum\<close> is the function of the C
  library (the readers' \<open>isalnum\<close> lives in another namespace); in the ``C'' locale it
  accepts the ASCII letters and digits.\<close>

definition c_isalnum :: "char \<Rightarrow> bool" where
  "c_isalnum c \<longleftrightarrow>
     (byte (CHR ''0'') \<le> byte c \<and> byte c \<le> byte (CHR ''9''))
     \<or> (byte (CHR ''A'') \<le> byte c \<and> byte c \<le> byte (CHR ''Z''))
     \<or> (byte (CHR ''a'') \<le> byte c \<and> byte c \<le> byte (CHR ''z''))"

definition syn_is_tchar :: "char \<Rightarrow> bool" where
  "syn_is_tchar c \<longleftrightarrow>
     (if c \<in> {CHR ''!'', CHR ''#'', CHR ''$'', CHR ''%'', CHR ''&'', CHR 0x27, CHR ''*'',
              CHR ''+'', CHR ''-'', CHR ''.'', CHR ''^'', CHR ''_'', CHR 0x60, CHR ''|'',
              CHR ''~''}
      then True else c_isalnum c)"

definition is_nonnull_field_value_char :: "char \<Rightarrow> bool" where
  "is_nonnull_field_value_char c \<longleftrightarrow> syn_is_vchar c \<or> syn_is_obs_text c"

definition is_field_value_char :: "char \<Rightarrow> bool" where
  "is_field_value_char c \<longleftrightarrow> is_nonnull_field_value_char c \<or> syn_is_ows c"

definition is_reason_phrase_char :: "char \<Rightarrow> bool" where
  "is_reason_phrase_char c \<longleftrightarrow> syn_is_ows c \<or> syn_is_vchar c \<or> syn_is_obs_text c"

definition is_hexdigit :: "char \<Rightarrow> bool" where
  "is_hexdigit c \<longleftrightarrow>
     c \<in> set ''0123456789ABCDEFabcdef''"

section \<open>Facts about the classes\<close>

named_theorems class_defs \<open>definitions of the character classes\<close>

lemmas reader_class_defs [class_defs] =
  isalpha_def isdigit_def isalnum_def is_tchar_def is_sp_def is_vchar_def is_obs_text_def
  is_ows_def is_chunk_ext_char_def is_request_target_char_def

lemmas syntax_class_defs [class_defs] =
  syn_is_digit_def syn_is_obs_text_def syn_is_ows_def syn_is_vchar_def c_isalnum_def
  syn_is_tchar_def is_nonnull_field_value_char_def is_field_value_char_def
  is_reason_phrase_char_def is_hexdigit_def

lemma byte_bound: "byte c \<le> 0xFF"
  using nat_of_char_less_256 [of c] by linarith

lemma syn_is_tchar_eq: "syn_is_tchar = is_tchar"
  by (rule ext) (auto simp: class_defs)

lemma syn_is_ows_eq: "syn_is_ows = is_ows"
  by (rule ext) (simp add: class_defs)

lemma syn_is_vchar_eq: "syn_is_vchar = is_vchar"
  by (rule ext) (simp add: class_defs)

lemma syn_is_obs_text_eq: "syn_is_obs_text = is_obs_text"
  by (rule ext) (simp add: class_defs byte_bound)

lemma syn_is_digit_eq: "syn_is_digit = isdigit"
  by (rule ext) (simp add: class_defs)

lemma tchar_not_ows: "is_tchar c \<Longrightarrow> \<not> is_ows c"
  by (auto simp: class_defs)

lemma tchar_vchar: "is_tchar c \<Longrightarrow> is_vchar c"
  by (auto simp: class_defs split: if_splits)

lemma delimiters_not_tchar [simp]:
  "\<not> is_tchar (CHR 0x20)" "\<not> is_tchar (CHR 0x0D)" "\<not> is_tchar (CHR 0x0A)"
  "\<not> is_tchar (CHR '':'')"
  by (simp_all add: class_defs)

lemma delimiters_not_target [simp]:
  "\<not> is_request_target_char (CHR 0x20)" "\<not> is_request_target_char (CHR 0x0D)"
  "\<not> is_request_target_char (CHR 0x0A)"
  by (simp_all add: class_defs)

lemma delimiters_not_field_value [simp]:
  "\<not> is_field_value_char (CHR 0x0D)" "\<not> is_field_value_char (CHR 0x0A)"
  by (simp_all add: class_defs)

lemma delimiters_not_reason_phrase [simp]:
  "\<not> is_reason_phrase_char (CHR 0x0D)" "\<not> is_reason_phrase_char (CHR 0x0A)"
  by (simp_all add: class_defs)

lemma delimiters_not_chunk_ext [simp]:
  "\<not> is_chunk_ext_char (CHR 0x0D)" "\<not> is_chunk_ext_char (CHR 0x0A)"
  by (simp_all add: class_defs)

lemma delimiters_not_hexdigit [simp]:
  "\<not> is_hexdigit (CHR 0x0D)" "\<not> is_hexdigit (CHR 0x0A)" "\<not> is_hexdigit (CHR '';'')"
  by (simp_all add: class_defs)

lemma delimiters_not_ows [simp]: "\<not> is_ows (CHR 0x0D)" "\<not> is_ows (CHR 0x0A)"
  by (simp_all add: class_defs)

text \<open>The field value class is every octet but the control characters other than the
  horizontal tab; the reason phrase class is the same class.\<close>

lemma is_field_value_char_iff:
  "is_field_value_char c \<longleftrightarrow> c = CHR 0x09 \<or> (byte c \<ge> 0x20 \<and> byte c \<noteq> 0x7F)"
proof -
  have "(c = CHR 0x20) = (byte c = 0x20)"
    using of_char_eq_iff [of c "CHR 0x20", where 'a = nat] by simp
  then show ?thesis using byte_bound [of c] by (auto simp: class_defs)
qed

lemma is_reason_phrase_char_eq: "is_reason_phrase_char = is_field_value_char"
  by (rule ext) (auto simp: is_reason_phrase_char_def is_field_value_char_def
        is_nonnull_field_value_char_def)

lemma ows_field_value: "is_ows c \<Longrightarrow> is_field_value_char c"
  by (simp add: is_field_value_char_def syn_is_ows_eq)

end
