(* ===== verification/Syntax_Match.thy ===== *)
theory Syntax_Match
  imports Abnf
begin

text \<open>
  The matchers of \<open>syntax/\<close>: \<open>field_name\<close>, \<open>left_trimmed_field_value\<close>, \<open>ows\<close>,
  \<open>reason_phrase\<close>, the \<open>match\<close> of \<open>chunk_size\<close>, the two line terminators of
  \<open>crlf\<close>, and \<open>status_code\<close>. Five of them promise the same thing, the longest prefix
  of octets of a class; the locale \<open>longest_prefix\<close> states that contract and is interpreted
  for each of them.
\<close>

section \<open>Matchers of a longest prefix\<close>

definition field_name_match :: "octets \<Rightarrow> nat" where
  "field_name_match view = match_loop syn_is_tchar view"

definition field_value_match :: "octets \<Rightarrow> nat" where
  "field_value_match view = match_loop is_field_value_char view"

definition ows_match :: "octets \<Rightarrow> nat" where
  "ows_match view = match_loop syn_is_ows view"

definition reason_phrase_match :: "octets \<Rightarrow> nat" where
  "reason_phrase_match view = match_loop is_reason_phrase_char view"

definition chunk_size_match :: "octets \<Rightarrow> nat" where
  "chunk_size_match view = match_loop is_hexdigit view"

section \<open>Line terminators\<close>

definition strict_crlf_match :: "octets \<Rightarrow> nat" where
  "strict_crlf_match view =
     (let size = 2 in
      if length view < size then 0
      else if view ! 0 \<noteq> CHR 0x0D \<or> view ! 1 \<noteq> CHR 0x0A then 0
      else 2)"

datatype liberal_crlf_result =
  crlf_crlf | crlf_lf | crlf_insufficient_data | crlf_invalid_data

definition liberal_crlf_match :: "octets \<Rightarrow> liberal_crlf_result" where
  "liberal_crlf_match view =
     (if length view \<ge> 1 \<and> view ! 0 = CHR 0x0A then crlf_lf
      else if length view \<ge> 1 \<and> view ! 0 \<noteq> CHR 0x0D then crlf_invalid_data
      else if length view \<ge> 2
           then (if view ! 1 = CHR 0x0A then crlf_crlf else crlf_invalid_data)
      else crlf_insufficient_data)"

section \<open>Status codes\<close>

definition status_code_match :: "octets \<Rightarrow> nat" where
  "status_code_match view =
     (let size = 3 in
      if length view < size then 0
      else if \<not> list_all syn_is_digit (take size view) then 0
      else size)"

text \<open>\<open>decode\<close> computes in \<open>int\<close> and returns a \<open>uint_least16_t\<close>.\<close>

definition status_code_decode :: "octets \<Rightarrow> fault + 16 word" where
  "status_code_decode view =
     (if length view \<noteq> 3 then Inl Assertion
      else Inr (word_of_int
        ((int (byte (view ! 0)) - int (byte (CHR ''0''))) * 100
         + (int (byte (view ! 1)) - int (byte (CHR ''0''))) * 10
         + int (byte (view ! 2)) - int (byte (CHR ''0'')))))"

section \<open>The longest-prefix contract\<close>

locale longest_prefix =
  fixes matches :: "octets \<Rightarrow> nat"
    and cls :: "char \<Rightarrow> bool"
  assumes bounded: "matches v \<le> length v"
    and sound: "c \<in> set (take (matches v) v) \<Longrightarrow> cls c"
    and maximal: "matches v < length v \<Longrightarrow> \<not> cls (v ! matches v)"
begin

lemma eq_match_loop: "matches v = match_loop cls v"
proof (cases "matches v < length v")
  case True
  then show ?thesis
    using sound maximal by (intro match_loop_unique [symmetric]) auto
next
  case False
  with bounded [of v] have "matches v = length v" by simp
  then show ?thesis
    using sound [of _ v] by (simp add: match_loop_full [THEN iffD2])
qed

lemma delimited: "(\<forall>c \<in> set tok. cls c) \<Longrightarrow> \<not> cls d \<Longrightarrow> matches (tok @ d # rest) = length tok"
  by (simp add: eq_match_loop match_loop_append)

lemma exhausted_iff: "matches v = length v \<longleftrightarrow> (\<forall>c \<in> set v. cls c)"
  by (simp add: eq_match_loop match_loop_full)

lemma zero_iff: "v \<noteq> [] \<Longrightarrow> matches v = 0 \<longleftrightarrow> \<not> cls (hd v)"
  by (simp add: eq_match_loop match_loop_zero)

lemma more_data: "matches v < length v \<Longrightarrow> matches (v @ w) = matches v"
  by (simp add: eq_match_loop match_loop_append_stop)

lemma zero_more_data: "v \<noteq> [] \<Longrightarrow> matches v = 0 \<Longrightarrow> matches (v @ w) = 0"
  using more_data [of v w] by (cases v) auto

end

lemma match_loop_longest_prefix: "longest_prefix (match_loop p) p"
  by unfold_locales
    (use match_loop_le match_loop_prefix match_loop_stop in \<open>blast+\<close>)

interpretation field_name: longest_prefix field_name_match is_tchar
  unfolding field_name_match_def [abs_def] syn_is_tchar_eq by (rule match_loop_longest_prefix)

interpretation field_value: longest_prefix field_value_match is_field_value_char
  unfolding field_value_match_def [abs_def] by (rule match_loop_longest_prefix)

interpretation ows: longest_prefix ows_match is_ows
  unfolding ows_match_def [abs_def] syn_is_ows_eq by (rule match_loop_longest_prefix)

interpretation reason_phrase: longest_prefix reason_phrase_match is_reason_phrase_char
  unfolding reason_phrase_match_def [abs_def] by (rule match_loop_longest_prefix)

interpretation chunk_size: longest_prefix chunk_size_match is_hexdigit
  unfolding chunk_size_match_def [abs_def] by (rule match_loop_longest_prefix)

section \<open>Facts about the other matchers\<close>

lemma strict_crlf_match_cases: "strict_crlf_match v = 0 \<or> (strict_crlf_match v = 2 \<and> 2 \<le> length v)"
  by (simp add: strict_crlf_match_def Let_def)

lemma strict_crlf_match_iff:
  "strict_crlf_match v \<noteq> 0 \<longleftrightarrow> (\<exists>rest. v = CHR 0x0D # CHR 0x0A # rest)"
proof (cases v)
  case (Cons a v')
  then show ?thesis by (cases v') (auto simp: strict_crlf_match_def Let_def)
qed (simp add: strict_crlf_match_def)

lemma strict_crlf_match_append:
  "2 \<le> length v \<Longrightarrow> strict_crlf_match (v @ w) = strict_crlf_match v"
  by (auto simp: strict_crlf_match_def Let_def nth_append)

lemma liberal_crlf_match_append:
  "liberal_crlf_match v \<noteq> crlf_insufficient_data \<Longrightarrow>
   liberal_crlf_match (v @ w) = liberal_crlf_match v"
  by (auto simp: liberal_crlf_match_def nth_append split: if_splits)

lemma liberal_crlf_match_size:
  "liberal_crlf_match v = crlf_crlf \<Longrightarrow> 2 \<le> length v"
  "liberal_crlf_match v = crlf_lf \<Longrightarrow> 1 \<le> length v"
  by (auto simp: liberal_crlf_match_def split: if_splits)

lemma liberal_crlf_match_iff:
  "liberal_crlf_match v = crlf_crlf \<longleftrightarrow> (\<exists>rest. v = CHR 0x0D # CHR 0x0A # rest)"
  "liberal_crlf_match v = crlf_lf \<longleftrightarrow> (\<exists>rest. v = CHR 0x0A # rest)"
  "liberal_crlf_match v = crlf_insufficient_data \<longleftrightarrow> v = [] \<or> v = [CHR 0x0D]"
proof -
  consider "v = []" | a where "v = [a]" | a b w where "v = a # b # w"
    by (metis neq_Nil_conv)
  note * = this
  show "liberal_crlf_match v = crlf_crlf \<longleftrightarrow> (\<exists>rest. v = CHR 0x0D # CHR 0x0A # rest)"
    by (cases rule: *) (auto simp: liberal_crlf_match_def)
  show "liberal_crlf_match v = crlf_lf \<longleftrightarrow> (\<exists>rest. v = CHR 0x0A # rest)"
    by (cases rule: *) (auto simp: liberal_crlf_match_def)
  show "liberal_crlf_match v = crlf_insufficient_data \<longleftrightarrow> v = [] \<or> v = [CHR 0x0D]"
    by (cases rule: *) (auto simp: liberal_crlf_match_def)
qed

lemma status_code_match_cases: "status_code_match v = 0 \<or> (status_code_match v = 3 \<and> 3 \<le> length v)"
  by (simp add: status_code_match_def Let_def)

lemma status_code_match_iff:
  "status_code_match v \<noteq> 0 \<longleftrightarrow>
     (\<exists>a b c rest. v = a # b # c # rest \<and> isdigit a \<and> isdigit b \<and> isdigit c)"
proof -
  consider "length v < 3" | a b c w where "v = a # b # c # w"
    by (metis (no_types, lifting) One_nat_def Suc_le_length_iff leI numeral_3_eq_3)
  then show ?thesis
    by cases (auto simp: status_code_match_def Let_def syn_is_digit_eq)
qed

lemma status_code_match_append:
  "3 \<le> length v \<Longrightarrow> status_code_match (v @ w) = status_code_match v"
  by (simp add: status_code_match_def Let_def)

end
