(* ===== verification/Number_Decode.thy ===== *)
theory Number_Decode
  imports Abnf
begin

text \<open>
  The numeric decoders \<open>syntax::content_length\<close> (decimal) and \<open>syntax::chunk_size\<close>
  (hexadecimal). Both are templates over the unsigned target type, here a word of any length.
  Their loops run from the least significant digit, keep the weight of the current digit in a
  word of the target type and check every multiplication and addition before doing it. The
  locale \<open>positional\<close> states what the two loops have in common; its lemmas relate the loop
  to the value of the digit string and are used for both.
\<close>

section \<open>The decoders\<close>

datatype decode_result = decode_invalid | decode_ok | decode_overflow

text \<open>\<open>while (in.size() && in[0] == '0') in.remove_prefix(1);\<close>\<close>

fun skip_zeros :: "octets \<Rightarrow> octets" where
  "skip_zeros [] = []"
| "skip_zeros (c # cs) = (if c = CHR ''0'' then skip_zeros cs else c # cs)"

text \<open>The \<open>switch\<close> on \<open>in[i]\<close> of each loop; \<open>None\<close> is its \<open>default\<close> label.\<close>

definition content_length_digit :: "char \<Rightarrow> nat option" where
  "content_length_digit c =
     (if c \<in> set ''0123456789''
      then Some (byte c - byte (CHR ''0''))
      else None)"

definition chunk_size_digit :: "char \<Rightarrow> nat option" where
  "chunk_size_digit c =
     (if c \<in> set ''0123456789''
      then Some (byte c - byte (CHR ''0''))
      else if c \<in> set ''aAbBcCdDeEfF''
      then Some (10 + or (byte c) 0x20 - byte (CHR ''a''))
      else None)"

text \<open>The \<open>for\<close> loops: the list holds \<open>in[i], in[i - 1], \<dots>, in[0]\<close>;
  \<open>- 1\<close> is \<open>numeric_limits<Target>::max()\<close>.\<close>

fun content_length_loop ::
  "octets \<Rightarrow> 'a::len word \<Rightarrow> 'a word \<Rightarrow> decode_result \<times> 'a word" where
  "content_length_loop [] digit out = (decode_ok, out)"
| "content_length_loop (c # cs) digit out =
     (case content_length_digit c of
        None \<Rightarrow> (decode_invalid, out)
      | Some d \<Rightarrow>
          let value = of_nat d in
          if (- 1) div digit < value then (decode_overflow, out)
          else let value = value * digit in
          if (- 1) - value < out then (decode_overflow, out)
          else let out = out + value in
          if cs = [] then (decode_ok, out)
          else if (- 1) div 10 < digit then (decode_overflow, out)
          else content_length_loop cs (digit * 10) out)"

fun chunk_size_loop ::
  "octets \<Rightarrow> 'a::len word \<Rightarrow> 'a word \<Rightarrow> decode_result \<times> 'a word" where
  "chunk_size_loop [] digit out = (decode_ok, out)"
| "chunk_size_loop (c # cs) digit out =
     (case chunk_size_digit c of
        None \<Rightarrow> (decode_invalid, out)
      | Some d \<Rightarrow>
          let value = of_nat d in
          if (- 1) div digit < value then (decode_overflow, out)
          else let value = value * digit in
          if (- 1) - value < out then (decode_overflow, out)
          else let out = out + value in
          if cs = [] then (decode_ok, out)
          else if (- 1) div 16 < digit then (decode_overflow, out)
          else chunk_size_loop cs (digit * 16) out)"

text \<open>\<open>decode(in, out)\<close>: the result and the new value of \<open>out\<close>, which keeps its old
  value only when the input is empty.\<close>

definition content_length_decode ::
  "octets \<Rightarrow> 'a::len word \<Rightarrow> decode_result \<times> 'a word" where
  "content_length_decode inp out =
     (if inp = [] then (decode_invalid, out)
      else let digits = skip_zeros inp in
        if digits = [] then (decode_ok, 0)
        else content_length_loop (rev digits) 1 0)"

definition chunk_size_decode ::
  "octets \<Rightarrow> 'a::len word \<Rightarrow> decode_result \<times> 'a word" where
  "chunk_size_decode inp out =
     (if inp = [] then (decode_invalid, out)
      else let digits = skip_zeros inp in
        if digits = [] then (decode_ok, 0)
        else chunk_size_loop (rev digits) 1 0)"

section \<open>The value of a digit string\<close>

text \<open>The reference: digits read left to right, most significant first.\<close>

fun numeral_value :: "nat \<Rightarrow> (char \<Rightarrow> nat option) \<Rightarrow> nat \<Rightarrow> octets \<Rightarrow> nat option" where
  "numeral_value radix dig acc [] = Some acc"
| "numeral_value radix dig acc (c # cs) =
     (case dig c of None \<Rightarrow> None | Some d \<Rightarrow> numeral_value radix dig (radix * acc + d) cs)"

definition decimal_value :: "octets \<Rightarrow> nat option" where
  "decimal_value s = (if s = [] then None else numeral_value 10 content_length_digit 0 s)"

definition hexadecimal_value :: "octets \<Rightarrow> nat option" where
  "hexadecimal_value s = (if s = [] then None else numeral_value 16 chunk_size_digit 0 s)"

text \<open>The same value from the least significant digit, the order of the loops.\<close>

fun little_value :: "nat \<Rightarrow> (char \<Rightarrow> nat option) \<Rightarrow> octets \<Rightarrow> nat" where
  "little_value radix dig [] = 0"
| "little_value radix dig (c # cs) = the (dig c) + radix * little_value radix dig cs"

lemma little_value_append:
  "little_value radix dig (xs @ ys) =
   little_value radix dig xs + radix ^ length xs * little_value radix dig ys"
  by (induction xs) (simp_all add: algebra_simps)

lemma numeral_value_little:
  "numeral_value radix dig acc s =
     (if \<forall>c \<in> set s. dig c \<noteq> None
      then Some (acc * radix ^ length s + little_value radix dig (rev s)) else None)"
proof (induction s arbitrary: acc)
  case (Cons c s)
  then show ?case by (auto simp: little_value_append algebra_simps split: option.splits)
qed simp

section \<open>What the two loops have in common\<close>

locale positional =
  fixes radix :: nat
    and dig :: "char \<Rightarrow> nat option"
    and lp :: "octets \<Rightarrow> 'a::len word \<Rightarrow> 'a word \<Rightarrow> decode_result \<times> 'a word"
  assumes radix_gt: "1 < radix"
    and radix_fits: "radix < 2 ^ LENGTH('a)"
    and dig_less: "dig c = Some d \<Longrightarrow> d < radix"
    and dig_zero: "dig c = Some 0 \<Longrightarrow> c = CHR ''0''"
    and zero_dig: "dig (CHR ''0'') = Some 0"
    and lp_unfold: "lp (c # cs) digit out =
     (case dig c of
        None \<Rightarrow> (decode_invalid, out)
      | Some d \<Rightarrow>
          let value = of_nat d in
          if (- 1) div digit < value then (decode_overflow, out)
          else let value = value * digit in
          if (- 1) - value < out then (decode_overflow, out)
          else let out = out + value in
          if cs = [] then (decode_ok, out)
          else if (- 1) div of_nat radix < digit then (decode_overflow, out)
          else lp cs (digit * of_nat radix) out)"
begin

lemma unat_radix: "unat (of_nat radix :: 'a word) = radix"
  using radix_fits by (simp add: unat_of_nat)

lemma unat_digit: "dig c = Some d \<Longrightarrow> unat (of_nat d :: 'a word) = d"
  using radix_fits dig_less [of c d] by (simp add: unat_of_nat)

lemma unat_max: "unat (- 1 :: 'a word) = 2 ^ LENGTH('a) - 1"
  by (simp add: unat_eq_nat_uint unsigned_minus_1_eq_mask mask_eq_exp_minus_1 nat_diff_distrib
      nat_power_eq)

text \<open>The overflow checks, read on natural numbers.\<close>

lemma mul_check:
  fixes a b :: "'a word"
  assumes "0 < unat b"
  shows "(- 1) div b < a \<longleftrightarrow> 2 ^ LENGTH('a) \<le> unat a * unat b"
proof -
  have "(- 1) div b < a \<longleftrightarrow> (2 ^ LENGTH('a) - 1) div unat b < unat a"
    by (simp add: word_less_nat_alt unat_div unat_max)
  also have "\<dots> \<longleftrightarrow> 2 ^ LENGTH('a) - 1 < unat a * unat b"
    by (rule div_less_iff_less_mult) (rule assms)
  finally show ?thesis using zero_less_power [of "2 :: nat" "LENGTH('a)"] by arith
qed

lemma add_check:
  fixes a b :: "'a word"
  shows "(- 1) - a < b \<longleftrightarrow> 2 ^ LENGTH('a) \<le> unat b + unat a"
proof -
  have "unat (- 1 - a) = 2 ^ LENGTH('a) - 1 - unat a"
    using unat_sub [of a "- 1"] by (simp add: unat_max)
  then show ?thesis
    using unsigned_less [of a, where 'a = nat] unfolding word_less_nat_alt by arith
qed

lemma unat_mul: "unat (a :: 'a word) * unat b < 2 ^ LENGTH('a) \<Longrightarrow> unat (a * b) = unat a * unat b"
  by (simp add: unat_mult_lem [THEN iffD1])

lemma unat_add: "unat (a :: 'a word) + unat b < 2 ^ LENGTH('a) \<Longrightarrow> unat (a + b) = unat a + unat b"
  by (simp add: unat_add_lem [THEN iffD1])

lemma lp_step:
  assumes "0 < unat digit" and "dig c = Some d"
  shows "lp (c # cs) digit out =
     (if 2 ^ LENGTH('a) \<le> unat out + d * unat digit then (decode_overflow, out)
      else if cs = [] then (decode_ok, out + of_nat d * digit)
      else if 2 ^ LENGTH('a) \<le> unat digit * radix then (decode_overflow, out + of_nat d * digit)
      else lp cs (digit * of_nat radix) (out + of_nat d * digit))"
proof (cases "d * unat digit < 2 ^ LENGTH('a)")
  case True
  then have "unat (of_nat d * digit) = d * unat digit"
    using unat_mul [of "of_nat d" digit] unat_digit [OF assms(2)] by simp
  then have add: "(- 1) - of_nat d * digit < out \<longleftrightarrow> 2 ^ LENGTH('a) \<le> unat out + d * unat digit"
    by (simp add: add_check)
  have mul: "\<not> (- 1) div digit < of_nat d"
    using True unat_digit [OF assms(2)] by (simp add: mul_check [OF assms(1)])
  have "0 < unat (of_nat radix :: 'a word)" using unat_radix radix_gt by simp
  then have weight: "(- 1) div of_nat radix < digit \<longleftrightarrow> 2 ^ LENGTH('a) \<le> unat digit * radix"
    by (simp only: mul_check unat_radix)
  show ?thesis by (simp add: lp_unfold assms(2) Let_def add mul weight)
next
  case False
  with assms show ?thesis
    by (simp add: lp_unfold mul_check unat_digit Let_def)
qed

lemma little_pos:
  "cs \<noteq> [] \<Longrightarrow> \<forall>c \<in> set cs. dig c \<noteq> None \<Longrightarrow> dig (last cs) \<noteq> Some 0 \<Longrightarrow>
   0 < little_value radix dig cs"
proof (induction cs)
  case (Cons c cs)
  then show ?case using radix_gt by (cases "cs = []") auto
qed simp

lemma lp_correct:
  "cs \<noteq> [] \<Longrightarrow> \<forall>c \<in> set cs. dig c \<noteq> None \<Longrightarrow> dig (last cs) \<noteq> Some 0 \<Longrightarrow> 0 < unat digit \<Longrightarrow>
   (if unat out + unat digit * little_value radix dig cs < 2 ^ LENGTH('a)
    then fst (lp cs digit out) = decode_ok \<and>
         unat (snd (lp cs digit out)) = unat out + unat digit * little_value radix dig cs
    else fst (lp cs digit out) = decode_overflow)"
proof (induction cs arbitrary: digit out)
  case Nil
  then show ?case by simp
next
  case (Cons c cs)
  then obtain d where d: "dig c = Some d" by auto
  let ?M = "2 ^ LENGTH('a) :: nat" and ?L = "little_value radix dig cs"
  let ?out = "out + of_nat d * digit" and ?digit = "digit * of_nat radix"
  note step = lp_step [OF Cons.prems(4) d, of cs out]
  have total: "unat out + unat digit * little_value radix dig (c # cs)
      = unat out + d * unat digit + unat digit * radix * ?L"
    using d by (simp add: algebra_simps)
  consider (ovf) "?M \<le> unat out + d * unat digit"
    | (last) "unat out + d * unat digit < ?M" "cs = []"
    | (weight) "unat out + d * unat digit < ?M" "cs \<noteq> []" "?M \<le> unat digit * radix"
    | (more) "unat out + d * unat digit < ?M" "cs \<noteq> []" "unat digit * radix < ?M"
    by linarith
  then show ?case
  proof cases
    case ovf
    then show ?thesis using step total by simp
  next
    case last
    then show ?thesis
      using step total unat_add [of out "of_nat d * digit"] unat_mul [of "of_nat d" digit]
        unat_digit [OF d] by (simp add: d mult.commute)
  next
    case weight
    with Cons.prems have "1 \<le> ?L" using little_pos [of cs] by simp
    then have "unat digit * radix * 1 \<le> unat digit * radix * ?L" by (rule mult_le_mono2)
    with weight have "\<not> unat out + d * unat digit + unat digit * radix * ?L < ?M" by linarith
    with weight show ?thesis unfolding total using step by simp
  next
    case more
    have out: "unat ?out = unat out + d * unat digit"
      using more unat_add [of out "of_nat d * digit"] unat_mul [of "of_nat d" digit]
        unat_digit [OF d] by simp
    have digit: "unat ?digit = unat digit * radix"
      using more unat_mul [of digit "of_nat radix"] unat_radix by simp
    then have "0 < unat ?digit" using Cons.prems(4) radix_gt by simp
    then show ?thesis
      using Cons.IH [of ?digit ?out] Cons.prems more step total out digit by simp
  qed
qed

lemma lp_ok_digits: "fst (lp cs digit out) = decode_ok \<Longrightarrow> cs \<noteq> [] \<Longrightarrow> \<forall>c \<in> set cs. dig c \<noteq> None"
proof (induction cs arbitrary: digit out)
  case (Cons c cs)
  show ?case
  proof (cases "cs = []")
    case True
    with Cons.prems show ?thesis by (auto simp: lp_unfold Let_def split: option.splits)
  next
    case False
    with Cons show ?thesis
      by (auto simp: lp_unfold Let_def split: option.splits if_splits)
  qed
qed simp

lemma skip_zeros_hd: "skip_zeros s \<noteq> [] \<Longrightarrow> hd (skip_zeros s) \<noteq> CHR ''0''"
  by (induction s) auto

lemma skip_zeros_digits: "(\<forall>c \<in> set (skip_zeros s). dig c \<noteq> None) \<longleftrightarrow> (\<forall>c \<in> set s. dig c \<noteq> None)"
  by (induction s) (auto simp: zero_dig)

lemma numeral_value_skip_zeros: "numeral_value radix dig 0 (skip_zeros s) = numeral_value radix dig 0 s"
  by (induction s) (auto simp: zero_dig)

theorem decode_correct:
  defines "res s \<equiv> if skip_zeros s = [] then (decode_ok, 0) else lp (rev (skip_zeros s)) 1 0"
  shows "case numeral_value radix dig 0 s of
      None \<Rightarrow> fst (res s) \<noteq> decode_ok
    | Some n \<Rightarrow> if n < 2 ^ LENGTH('a) then res s = (decode_ok, of_nat n)
                else fst (res s) = decode_overflow"
proof (cases "skip_zeros s = []")
  case True
  then have "numeral_value radix dig 0 s = Some 0" using numeral_value_skip_zeros [of s] by simp
  with True show ?thesis by (simp add: res_def)
next
  case False
  let ?ds = "rev (skip_zeros s)"
  have lead: "dig (last ?ds) \<noteq> Some 0"
    using False dig_zero skip_zeros_hd [of s] by (auto simp: last_rev)
  show ?thesis
  proof (cases "\<forall>c \<in> set s. dig c \<noteq> None")
    case True
    then have val: "numeral_value radix dig 0 s = Some (little_value radix dig ?ds)"
      using numeral_value_skip_zeros [of s] skip_zeros_digits [of s]
      by (simp add: numeral_value_little)
    show ?thesis
      using lp_correct [of ?ds 1 0] False lead True skip_zeros_digits [of s]
      by (auto simp: res_def val prod_eq_iff word_unat_eq_iff unat_of_nat split: if_splits)
  next
    case bad: False
    then have "numeral_value radix dig 0 s = None" by (simp add: numeral_value_little)
    moreover have "fst (res s) \<noteq> decode_ok"
      using lp_ok_digits [of ?ds 1 0] False bad skip_zeros_digits [of s] by (auto simp: res_def)
    ultimately show ?thesis by simp
  qed
qed

end

section \<open>The decoders are positional\<close>

lemma content_length_digit_iff: "content_length_digit c \<noteq> None \<longleftrightarrow> isdigit c"
proof -
  have "content_length_digit c \<noteq> None \<longleftrightarrow> byte c \<in> {48, 49, 50, 51, 52, 53, 54, 55, 56, 57}"
    by (simp add: content_length_digit_def char_eq_byte)
  also have "\<dots> \<longleftrightarrow> 48 \<le> byte c \<and> byte c \<le> 57" by (simp, arith)
  finally show ?thesis by (simp add: isdigit_def)
qed

lemma chunk_size_digit_iff: "chunk_size_digit c \<noteq> None \<longleftrightarrow> is_hexdigit c"
  by (simp add: chunk_size_digit_def is_hexdigit_def)

lemma content_length_digit_bounds:
  "content_length_digit c = Some d \<Longrightarrow> d < 10"
  "content_length_digit c = Some 0 \<Longrightarrow> c = CHR ''0''"
  by (auto simp: content_length_digit_def split: if_splits)

lemma chunk_size_digit_bounds:
  "chunk_size_digit c = Some d \<Longrightarrow> d < 16"
  "chunk_size_digit c = Some 0 \<Longrightarrow> c = CHR ''0''"
proof -
  let ?hex = "''0123456789ABCDEFabcdef''"
  have bounds: "list_all (\<lambda>c. the (chunk_size_digit c) < 16) ?hex" by code_simp
  have zero: "list_all (\<lambda>c. chunk_size_digit c = Some 0 \<longrightarrow> c = CHR ''0'') ?hex" by code_simp
  have hex: "c \<in> set ?hex" if "chunk_size_digit c = Some n" for n
    using that chunk_size_digit_iff [of c] by (auto simp: is_hexdigit_def)
  show "chunk_size_digit c = Some d \<Longrightarrow> d < 16"
    using bounds hex [of d] by (auto simp only: list_all_iff option.sel dest!: bspec)
  show "chunk_size_digit c = Some 0 \<Longrightarrow> c = CHR ''0''"
    using zero hex [of 0] by (auto simp only: list_all_iff dest!: bspec)
qed

lemma content_length_positional:
  assumes "8 \<le> LENGTH('a::len)"
  shows "positional 10 content_length_digit
           (content_length_loop :: octets \<Rightarrow> 'a word \<Rightarrow> 'a word \<Rightarrow> decode_result \<times> 'a word)"
proof (unfold_locales, goal_cases)
  case 2
  show ?case using power_increasing [OF assms, of "2 :: nat"] by simp
next
  case 5
  show ?case by (simp add: content_length_digit_def)
next
  case (6 c cs digit out)
  show ?case by (simp only: content_length_loop.simps(2) of_nat_numeral)
qed (simp_all add: content_length_digit_bounds)

lemma chunk_size_positional:
  assumes "8 \<le> LENGTH('a::len)"
  shows "positional 16 chunk_size_digit
           (chunk_size_loop :: octets \<Rightarrow> 'a word \<Rightarrow> 'a word \<Rightarrow> decode_result \<times> 'a word)"
proof (unfold_locales, goal_cases)
  case 2
  show ?case using power_increasing [OF assms, of "2 :: nat"] by simp
next
  case 5
  show ?case by (simp add: chunk_size_digit_def)
next
  case (6 c cs digit out)
  show ?case by (simp only: chunk_size_loop.simps(2) of_nat_numeral)
qed (simp_all add: chunk_size_digit_bounds)

text \<open>The readers decode into a \<open>uint_least64_t\<close>.\<close>

interpretation decimal: positional 10 content_length_digit
  "content_length_loop :: octets \<Rightarrow> u64 \<Rightarrow> u64 \<Rightarrow> decode_result \<times> u64"
  by (rule content_length_positional) simp

interpretation hexadecimal: positional 16 chunk_size_digit
  "chunk_size_loop :: octets \<Rightarrow> u64 \<Rightarrow> u64 \<Rightarrow> decode_result \<times> u64"
  by (rule chunk_size_positional) simp

end
