(* ===== verification/Header_Value.thy ===== *)
theory Header_Value
  imports Abnf
begin

text \<open>
  Field values: \<open>decode_field_value\<close> (\<open>reader/detail/common.hpp\<close>) strips trailing white
  space, \<open>header_value_any_of\<close> (\<open>algorithm/header/header_value_any_of.hpp\<close>) visits the
  elements of a comma-separated list, and \<open>decode_transfer_encoding\<close>
  (\<open>reader/detail/transfer_encoding.hpp\<close>) uses it to find the role of the chunked coding.
  The lemmas compare the two loops with a plain description: split at the commas, trim, drop
  what is empty.
\<close>

section \<open>decode\_field\_value\<close>

text \<open>
  \<open>for (std::size_t i = in.size() - 1 ; i > 0 ; --i)\<close> looks at
  \<open>in[size - 1], \<dots>, in[1]\<close>. On an empty view \<open>in.size() - 1\<close> wraps around to the
  largest \<open>size_t\<close>, the condition holds and \<open>v[i]\<close> lies outside the view.
\<close>

definition decode_field_value :: "octets \<Rightarrow> fault + octets" where
  "decode_field_value inp =
     (if inp = [] then Inl Out_of_bounds
      else let ending_ows = match_loop is_ows (rev (tl inp))
        in Inr (take (length inp - ending_ows) inp))"

text \<open>
  What the same loop does where \<open>v[i]\<close> is the octet at the address \<open>v + i\<close> modulo the size of
  the address space, as on the machines the tests of the library run on: \<open>before\<close> are the octets of
  the array in front of the view, and the largest indices lead back into them. \<open>shorten\<close> is
  \<open>string_view::remove_suffix\<close>, which is not part of the repository.
\<close>

definition flat_byte :: "octets \<Rightarrow> octets \<Rightarrow> 64 word \<Rightarrow> fault + char" where
  "flat_byte before v i =
     (if unat i < length v then Inr (v ! unat i)
      else if unat (- i) \<le> length before then Inr (before ! (length before - unat (- i)))
      else Inl Out_of_bounds)"

function flat_ending_ows :: "octets \<Rightarrow> octets \<Rightarrow> 64 word \<Rightarrow> nat \<Rightarrow> fault + nat" where
  "flat_ending_ows before v i ending_ows =
     (if i = 0 then Inr ending_ows
      else case flat_byte before v i of
          Inl f \<Rightarrow> Inl f
        | Inr c \<Rightarrow> if \<not> is_ows c then Inr ending_ows
                   else flat_ending_ows before v (i - 1) (Suc ending_ows))"
  by auto
termination
  by (relation "measure (\<lambda>(before, v, i, n). unat i)") (auto simp: unat_minus_one unat_gt_0)

declare flat_ending_ows.simps [simp del]

definition decode_field_value_flat ::
  "(nat \<Rightarrow> octets \<Rightarrow> octets) \<Rightarrow> octets \<Rightarrow> octets \<Rightarrow> fault + octets" where
  "decode_field_value_flat shorten before inp =
     map_sum id (\<lambda>n. shorten n inp) (flat_ending_ows before inp (of_nat (length inp) - 1) 0)"

lemma flat_ending_ows_inside:
  assumes "m < length v" and "length v < 2 ^ 64"
  shows "flat_ending_ows before v (of_nat m) n = Inr (n + match_loop is_ows (rev (take m (tl v))))"
  using assms
proof (induction m arbitrary: n)
  case 0
  then show ?case by (simp add: flat_ending_ows.simps)
next
  case (Suc m)
  have m: "unat (of_nat (Suc m) :: 64 word) = Suc m"
    using Suc.prems by (simp only: unat_of_nat) (simp add: mod_less)
  have last: "take (Suc m) (tl v) = take m (tl v) @ [v ! Suc m]"
    using Suc.prems(1) by (cases v) (simp_all add: take_Suc_conv_app_nth)
  have "of_nat (Suc m) - 1 = (of_nat m :: 64 word)" by simp
  moreover have "of_nat (Suc m) \<noteq> (0 :: 64 word)" using m by (metis Zero_not_Suc unat_0)
  ultimately show ?case
    using Suc.IH [of "Suc n"] Suc.prems m unfolding last
    by (subst flat_ending_ows.simps) (simp add: flat_byte_def del: of_nat_Suc)
qed

text \<open>On an empty view the loop goes back to the last octet that is no white space.\<close>

lemma flat_ending_ows_empty:
  assumes "k < length before" and "length before < 2 ^ 64" and "\<exists>c \<in> set (take (length before - k) before). \<not> is_ows c"
  shows "\<exists>m. flat_ending_ows before [] (- of_nat (Suc k)) n = Inr m"
  using assms
proof (induction "length before - k" arbitrary: k n)
  case (Suc l)
  let ?i = "- of_nat (Suc k) :: 64 word" and ?c = "before ! (length before - Suc k)"
  have k: "unat (- ?i) = Suc k" using Suc.prems by (simp del: of_nat_Suc add: unat_of_nat)
  then have i: "?i \<noteq> 0" by (metis Zero_not_Suc neg_equal_0_iff_equal unat_0)
  have byte: "flat_byte before [] ?i = Inr ?c" using k Suc.prems(1) by (simp add: flat_byte_def del: of_nat_Suc)
  show ?case
  proof (cases "is_ows ?c")
    case False
    with i byte show ?thesis by (subst flat_ending_ows.simps) simp
  next
    case True
    have "take (length before - k) before = take (length before - Suc k) before @ [?c]"
      using Suc.prems(1) by (simp add: Suc_diff_Suc [symmetric] take_Suc_conv_app_nth)
    with True Suc.prems(3) have more: "\<exists>c \<in> set (take (length before - Suc k) before). \<not> is_ows c" by auto
    then have "Suc k < length before" by (cases "Suc k < length before") auto
    from Suc.hyps(1) [OF _ this Suc.prems(2) more] Suc.hyps(2) obtain m where
      "flat_ending_ows before [] (- of_nat (Suc (Suc k))) (Suc n) = Inr m" by (metis Suc_diff_Suc Suc.prems(1) Suc_inject)
    moreover have "?i - 1 = - of_nat (Suc (Suc k))" by simp
    ultimately show ?thesis using i byte True by (subst flat_ending_ows.simps) simp
  qed
qed simp

section \<open>header\_value\_any\_of\<close>

definition isspace :: "char \<Rightarrow> bool" where
  "isspace c \<longleftrightarrow> c = CHR '' '' \<or> c = CHR 0x09"

text \<open>
  The predicate of the caller may keep state of its own (the one of
  \<open>decode_transfer_encoding\<close> does), so it is a state-passing function. \<open>comma\<close> is the
  part of the value from the iterator of that name to the end, \<open>next_comma\<close> the part
  from the next comma on.
\<close>

function header_value_any_of ::
  "octets \<Rightarrow> (octets \<Rightarrow> 's \<Rightarrow> bool \<times> 's) \<Rightarrow> 's \<Rightarrow> bool \<times> 's" where
  "header_value_any_of comma p st =
     (let element = takeWhile (\<lambda>c. c \<noteq> CHR '','') comma;
          next_comma = dropWhile (\<lambda>c. c \<noteq> CHR '','') comma;
          value_begin = dropWhile isspace element;
          value = rev (dropWhile isspace (rev value_begin));
          (stop, st) = (if value_begin \<noteq> [] \<and> value \<noteq> [] then p value st else (False, st))
      in if stop then (True, st)
         else let comma = (if next_comma \<noteq> [] then tl next_comma else next_comma)
           in if comma \<noteq> [] then header_value_any_of comma p st else (False, st))"
  by pat_completeness auto
termination
proof (relation "measure (\<lambda>(comma, p, st). length comma)", goal_cases)
  case (2 comma p st)
  note comma' = 2(7)
  have "length (dropWhile (\<lambda>c. c \<noteq> CHR '','') comma) \<le> length comma"
    by (rule length_dropWhile_le)
  with 2 show ?case by (cases "dropWhile (\<lambda>c. c \<noteq> CHR '','') comma") auto
qed simp

declare header_value_any_of.simps [simp del]

section \<open>decode\_transfer\_encoding\<close>

datatype decode_transfer_encoding_result = CHUNKED_NOT_FOUND | CHUNKED_AT_END | CHUNKED_INVALID

record te_state =
  te_count :: nat
  te_res :: decode_transfer_encoding_result

definition te_initial :: te_state where
  "te_initial = \<lparr>te_count = 0, te_res = CHUNKED_NOT_FOUND\<rparr>"

text \<open>The call operator of \<open>decode_transfer_encoding_p\<close>: \<open>True\<close> is
  \<open>STOP_ITER\<close>, \<open>False\<close> is \<open>PROC_ITER\<close>.\<close>

definition decode_transfer_encoding_p :: "iequals \<Rightarrow> octets \<Rightarrow> te_state \<Rightarrow> bool \<times> te_state" where
  "decode_transfer_encoding_p ieq v s =
     (if \<not> ieq v ''chunked'' then
        (if te_count s = 1 then (True, s\<lparr>te_res := CHUNKED_INVALID\<rparr>) else (False, s))
      else let s = s\<lparr>te_count := te_count s + 1\<rparr> in
        if te_count s = 2 then (True, s\<lparr>te_res := CHUNKED_INVALID\<rparr>)
        else (False, s\<lparr>te_res := CHUNKED_AT_END\<rparr>))"

definition decode_transfer_encoding :: "iequals \<Rightarrow> octets \<Rightarrow> decode_transfer_encoding_result" where
  "decode_transfer_encoding ieq field =
     te_res (snd (header_value_any_of field (decode_transfer_encoding_p ieq) te_initial))"

section \<open>Reference description of a list-valued field\<close>

fun split_at_commas :: "octets \<Rightarrow> octets list" where
  "split_at_commas [] = [[]]"
| "split_at_commas (c # cs) =
     (if c = CHR '','' then [] # split_at_commas cs
      else case split_at_commas cs of [] \<Rightarrow> [[c]] | e # es \<Rightarrow> (c # e) # es)"

definition trim :: "octets \<Rightarrow> octets" where
  "trim e = rev (dropWhile isspace (rev (dropWhile isspace e)))"

definition list_elements :: "octets \<Rightarrow> octets list" where
  "list_elements v = filter (\<lambda>e. e \<noteq> []) (map trim (split_at_commas v))"

text \<open>Visit the elements in order and stop at the first one the predicate accepts.\<close>

fun visit_until :: "(octets \<Rightarrow> 's \<Rightarrow> bool \<times> 's) \<Rightarrow> octets list \<Rightarrow> 's \<Rightarrow> bool \<times> 's" where
  "visit_until p [] st = (False, st)"
| "visit_until p (e # es) st =
     (case p e st of (True, st') \<Rightarrow> (True, st') | (False, st') \<Rightarrow> visit_until p es st')"

text \<open>The role of the chunked coding in a list of codings: absent, the last and only one, or
  neither, where \<open>chunked\<close> tells the elements equal to \<open>"chunked"\<close>.\<close>

definition chunked_role :: "bool list \<Rightarrow> decode_transfer_encoding_result" where
  "chunked_role chunked =
     (if True \<notin> set chunked then CHUNKED_NOT_FOUND
      else if last chunked \<and> True \<notin> set (butlast chunked) then CHUNKED_AT_END
      else CHUNKED_INVALID)"

section \<open>Lemmas\<close>

lemma isspace_is_ows: "isspace = is_ows"
  by (rule ext) (auto simp: isspace_def is_ows_def)

lemma split_at_commas_unfold:
  "split_at_commas v =
     takeWhile (\<lambda>c. c \<noteq> CHR '','') v #
     (case dropWhile (\<lambda>c. c \<noteq> CHR '','') v of [] \<Rightarrow> [] | _ # rest \<Rightarrow> split_at_commas rest)"
  by (induction v) (auto split: list.splits)

lemma tl_eq: "tl xs = (if xs \<noteq> [] then tl xs else xs)"
  by simp

lemma list_elements_Nil [simp]: "list_elements [] = []"
  by (simp add: list_elements_def trim_def)

lemma list_elements_unfold:
  "list_elements v =
     (let e = trim (takeWhile (\<lambda>c. c \<noteq> CHR '','') v) in if e \<noteq> [] then [e] else []) @
     list_elements (tl (dropWhile (\<lambda>c. c \<noteq> CHR '','') v))"
proof (cases "dropWhile (\<lambda>c. c \<noteq> CHR '','') v")
  case Nil
  then show ?thesis
    by (simp add: list_elements_def split_at_commas_unfold [of v] Let_def trim_def
        del: dropWhile_eq_Nil_conv)
next
  case (Cons c rest)
  then show ?thesis
    by (simp add: list_elements_def split_at_commas_unfold [of v] Let_def)
qed

lemma header_value_any_of_elements:
  "header_value_any_of v p st = visit_until p (list_elements v) st"
proof (induction v p st rule: header_value_any_of.induct)
  case (1 comma p st)
  let ?e = "takeWhile (\<lambda>c. c \<noteq> CHR '','') comma"
  let ?next = "dropWhile (\<lambda>c. c \<noteq> CHR '','') comma"
  let ?val = "rev (dropWhile isspace (rev (dropWhile isspace ?e)))"
  obtain stop st' where visit:
    "(if dropWhile isspace ?e \<noteq> [] \<and> ?val \<noteq> [] then p ?val st else (False, st)) = (stop, st')"
    by force
  have IH: "header_value_any_of (tl ?next) p st' = visit_until p (list_elements (tl ?next)) st'"
    if "\<not> stop" "tl ?next \<noteq> []"
    using "1" [OF refl refl refl refl visit [symmetric] refl, of "tl ?next"] that
      tl_eq [of ?next] by blast
  have loop: "header_value_any_of comma p st =
      (if stop then (True, st') else if tl ?next \<noteq> [] then header_value_any_of (tl ?next) p st'
       else (False, st'))"
    by (simp only: header_value_any_of.simps [of comma p st] Let_def visit prod.case
        tl_eq [of ?next, symmetric])
  have elements: "list_elements comma = (if ?val \<noteq> [] then [?val] else []) @ list_elements (tl ?next)"
    by (subst list_elements_unfold [of comma]) (simp only: Let_def trim_def)
  have "(if ?val \<noteq> [] then p ?val st else (False, st)) = (stop, st')"
    using visit by (cases "dropWhile isspace ?e = []") (simp_all del: dropWhile_eq_Nil_conv)
  then have "visit_until p (list_elements comma) st =
      (if stop then (True, st') else visit_until p (list_elements (tl ?next)) st')"
    unfolding elements by (cases "?val = []"; cases stop) (simp_all only: if_True if_False
        append_Nil append_Cons visit_until.simps not_True_eq_False not_False_eq_True prod.inject
        simp_thms prod.case bool.case)
  with loop IH show ?case by auto
qed

lemma visit_transfer_encoding:
  "te_res (snd (visit_until (decode_transfer_encoding_p ieq) es
       \<lparr>te_count = n, te_res = (if n = 0 then CHUNKED_NOT_FOUND else CHUNKED_AT_END)\<rparr>)) =
     (if n = 0 then chunked_role (map (\<lambda>e. ieq e ''chunked'') es)
      else if es = [] then CHUNKED_AT_END else CHUNKED_INVALID)"
  if "n \<le> 1" for n
  using that
proof (induction es arbitrary: n)
  case Nil
  then show ?case by (simp add: chunked_role_def)
next
  case (Cons e es)
  from Cons.prems consider "n = 0" | "n = 1" by linarith
  then show ?case
  proof cases
    case 1
    then show ?thesis
      using Cons.IH [of 0] Cons.IH [of 1]
      by (auto simp: decode_transfer_encoding_p_def Let_def chunked_role_def)
  next
    case 2
    then show ?thesis by (simp add: decode_transfer_encoding_p_def Let_def)
  qed
qed

end
