(* ===== verification/Syntax_Props.thy ===== *)
theory Syntax_Props
  imports Token Syntax_Match Number_Decode Header_Value
begin

text \<open>
  The properties of the components the readers are built from: the token vocabulary, the
  character classes, the matchers, the numeric decoders and the decoders of field values.
\<close>

section \<open>Numbers\<close>

text \<open>C17: \<open>content_length::decode\<close>, for every unsigned target type of at least eight
  bits, agrees with the decimal value of the input: a number that fits the type is stored, one
  that does not is reported as an overflow and never stored wrapped around, and an input that is
  not a number is refused.\<close>

theorem content_length_decode_correct:
  fixes out :: "'a::len word"
  assumes "8 \<le> LENGTH('a)"
  shows "case decimal_value s of
      None \<Rightarrow> fst (content_length_decode s out) \<noteq> decode_ok
    | Some n \<Rightarrow> if n < 2 ^ LENGTH('a) then content_length_decode s out = (decode_ok, of_nat n)
                else fst (content_length_decode s out) = decode_overflow"
proof (cases "s = []")
  case True
  then show ?thesis by (simp add: content_length_decode_def decimal_value_def)
next
  case False
  then have "content_length_decode s out =
      (if skip_zeros s = [] then (decode_ok, 0) else content_length_loop (rev (skip_zeros s)) 1 0)"
    and "decimal_value s = numeral_value 10 content_length_digit 0 s"
    by (simp_all add: content_length_decode_def decimal_value_def)
  with positional.decode_correct [OF content_length_positional [OF assms], of s]
  show ?thesis by (simp only:)
qed

theorem content_length_decode_correct_witness:
  "8 \<le> LENGTH(64) \<and> content_length_decode ''00120'' (7 :: u64) = (decode_ok, 120) \<and>
   fst (content_length_decode ''18446744073709551616'' (7 :: u64)) = decode_overflow"
proof -
  have "decimal_value ''00120'' = Some 120"
    "decimal_value ''18446744073709551616'' = Some 18446744073709551616"
    by (simp_all add: decimal_value_def content_length_digit_def)
  then show ?thesis
    using content_length_decode_correct [of "''00120''" "7 :: u64"]
      content_length_decode_correct [of "''18446744073709551616''" "7 :: u64"] by simp
qed

text \<open>C18: \<open>chunk_size::decode\<close> agrees with the hexadecimal value of the input in the
  same way, with digits of either case.\<close>

theorem chunk_size_decode_correct:
  fixes out :: "'a::len word"
  assumes "8 \<le> LENGTH('a)"
  shows "case hexadecimal_value s of
      None \<Rightarrow> fst (chunk_size_decode s out) \<noteq> decode_ok
    | Some n \<Rightarrow> if n < 2 ^ LENGTH('a) then chunk_size_decode s out = (decode_ok, of_nat n)
                else fst (chunk_size_decode s out) = decode_overflow"
proof (cases "s = []")
  case True
  then show ?thesis by (simp add: chunk_size_decode_def hexadecimal_value_def)
next
  case False
  then have "chunk_size_decode s out =
      (if skip_zeros s = [] then (decode_ok, 0) else chunk_size_loop (rev (skip_zeros s)) 1 0)"
    and "hexadecimal_value s = numeral_value 16 chunk_size_digit 0 s"
    by (simp_all add: chunk_size_decode_def hexadecimal_value_def)
  with positional.decode_correct [OF chunk_size_positional [OF assms], of s]
  show ?thesis by (simp only:)
qed

theorem chunk_size_decode_correct_witness:
  "8 \<le> LENGTH(64) \<and> chunk_size_decode ''1aF'' (7 :: u64) = (decode_ok, 431) \<and>
   fst (chunk_size_decode ''10000000000000000'' (7 :: u64)) = decode_overflow"
proof -
  have "hexadecimal_value ''1aF'' = Some 431"
    "hexadecimal_value ''10000000000000000'' = Some 18446744073709551616"
    by (simp_all add: hexadecimal_value_def chunk_size_digit_def)
  then show ?thesis
    using chunk_size_decode_correct [of "''1aF''" "7 :: u64"]
      chunk_size_decode_correct [of "''10000000000000000''" "7 :: u64"] by simp
qed

lemma status_digits:
  "isdigit c \<Longrightarrow> content_length_digit c = Some (byte c - 48) \<and> 48 \<le> byte c \<and> byte c \<le> 57"
proof -
  assume c: "isdigit c"
  have "n \<in> {48, 49, 50, 51, 52, 53, 54, 55, 56, 57}" if "48 \<le> n" "n \<le> 57" for n :: nat
    using that unfolding insert_iff empty_iff by presburger
  with c have "byte c \<in> {48, 49, 50, 51, 52, 53, 54, 55, 56, 57}" by (simp only: isdigit_def)
  then have "c \<in> set ''0123456789''"
    unfolding list.set insert_iff empty_iff char_eq_byte by auto
  with c show ?thesis by (simp add: content_length_digit_def isdigit_def)
qed

lemma status_code_decode_digits:
  assumes "isdigit a" and "isdigit b" and "isdigit c"
  shows "\<exists>n < 1000. decimal_value [a, b, c] = Some n \<and> status_code_decode [a, b, c] = Inr (of_nat n)"
proof -
  let ?n = "100 * (byte a - 48) + 10 * (byte b - 48) + (byte c - 48)"
  note digits = assms [THEN status_digits]
  have "decimal_value [a, b, c] = Some ?n"
    using digits by (simp add: decimal_value_def) arith
  moreover have "status_code_decode [a, b, c] = Inr (of_nat ?n)"
    using digits by (simp add: status_code_decode_def algebra_simps of_nat_diff)
  moreover have "?n < 1000" using digits by linarith
  ultimately show ?thesis by blast
qed

text \<open>C37: three octets accepted by \<open>status_code::match\<close> are decoded by
  \<open>status_code::decode\<close> to their decimal value, a number below 1000 that the 16-bit result
  holds.\<close>

theorem status_code_decode_correct:
  assumes "status_code_match v = 3"
  shows "\<exists>n < 1000. decimal_value (take 3 v) = Some n \<and> status_code_decode (take 3 v) = Inr (of_nat n)"
proof -
  obtain a b c w where v: "v = a # b # c # w" and d: "isdigit a" "isdigit b" "isdigit c"
    using assms status_code_match_iff [of v] by auto
  from status_code_decode_digits [OF d] show ?thesis by (simp add: v)
qed

theorem status_code_decode_correct_witness:
  "status_code_match ''404 Not Found'' = 3 \<and> status_code_decode ''404'' = Inr 404"
proof -
  have "status_code_match ''404 Not Found'' = 3" "decimal_value ''404'' = Some 404" by code_simp+
  then show ?thesis using status_code_decode_correct [of "''404 Not Found''"] by auto
qed

section \<open>Field values\<close>

text \<open>C20: \<open>header_value_any_of\<close> visits exactly the non-empty elements of the
  comma-separated list, trimmed, in order, until the predicate accepts one.\<close>

theorem header_value_any_of_correct:
  "header_value_any_of v p st = visit_until p (list_elements v) st"
  by (rule header_value_any_of_elements)

text \<open>C19: \<open>decode_transfer_encoding\<close> finds out whether the chunked coding is absent, is
  the last coding and occurs once, or is misplaced.\<close>

theorem decode_transfer_encoding_correct:
  "decode_transfer_encoding ieq field =
   chunked_role (map (\<lambda>e. ieq e ''chunked'') (list_elements field))"
  using visit_transfer_encoding [of 0 ieq "list_elements field"]
  by (simp add: decode_transfer_encoding_def header_value_any_of_elements te_initial_def)






section \<open>Matchers and vocabulary\<close>

text \<open>\<open>left_trimmed_field_value::match\<close> stops at the first control character other
  than a horizontal tab, and \<open>reason_phrase::match\<close> at the same place.\<close>

theorem field_value_match_longest:
  "field_value_match v = length (takeWhile (\<lambda>c. c = CHR 0x09 \<or> 0x20 \<le> byte c \<and> byte c \<noteq> 0x7F) v) \<and>
   reason_phrase_match v = field_value_match v"
  by (simp add: field_value.eq_match_loop reason_phrase.eq_match_loop match_loop_takeWhile
      is_reason_phrase_char_eq is_field_value_char_iff [abs_def])

text \<open>The liberal line terminator is \<open>CR LF\<close> or \<open>LF\<close>; the answer is that
  data are missing exactly for the proper prefixes of \<open>CR LF\<close>; and the strict one accepts
  exactly \<open>CR LF\<close>.\<close>

theorem crlf_match_correct:
  "(liberal_crlf_match v = crlf_crlf) = (take 2 v = [CHR 0x0D, CHR 0x0A]) \<and>
   (liberal_crlf_match v = crlf_lf) = (take 1 v = [CHR 0x0A]) \<and>
   (liberal_crlf_match v = crlf_insufficient_data) = (v \<in> {[], [CHR 0x0D]}) \<and>
   strict_crlf_match v = (if take 2 v = [CHR 0x0D, CHR 0x0A] then 2 else 0)"
proof -
  consider "v = []" | a where "v = [a]" | a b w where "v = a # b # w"
    by (metis neq_Nil_conv)
  then show ?thesis
    by cases (auto simp: liberal_crlf_match_def strict_crlf_match_def)
qed

text \<open>The character classes the syntax components declare for themselves are those of
  the readers.\<close>

theorem character_classes_agree:
  "syn_is_tchar = is_tchar \<and> syn_is_ows = is_ows \<and> syn_is_vchar = is_vchar \<and>
   syn_is_obs_text = is_obs_text \<and> syn_is_digit = isdigit \<and> c_isalnum = isalnum"
  using syn_is_tchar_eq syn_is_ows_eq syn_is_vchar_eq syn_is_obs_text_eq syn_is_digit_eq
  by (auto simp: c_isalnum_def isalnum_def isalpha_def isdigit_def fun_eq_iff)

text \<open>The category of a code is the category of its symbol.\<close>

theorem category_of_symbol:
  "category_convert_symbol (symbol_convert c) = category_convert_code c"
  by (cases c) (simp_all add: category_convert_symbol_def category_convert_code_def)

end
