(* ===== verification/Reader_Common.thy ===== *)
theory Reader_Common
  imports Token Syntax_Match Number_Decode Header_Value
begin

text \<open>
  What the two reader classes share. Both classes declare the members \<open>body_size\<close>,
  \<open>code_\<close>, \<open>idx\<close>, \<open>token_size_\<close> and \<open>ibuffer\<close> with the same meaning; here
  they are the fields of \<open>reader_data\<close>, which the records of the two classes extend. The
  operations on these fields alone, the comparison loop for the fixed part of a start line and
  the lemmas about them follow.
\<close>

record reader_data =
  body_size :: u64
  cur_code :: code
  idx :: nat
  token_size :: nat
  ibuffer :: octets

text \<open>\<open>ibuffer + idx\<close>, as a view.\<close>

definition rest :: "'x reader_data_scheme \<Rightarrow> octets" where
  "rest r = drop (idx r) (ibuffer r)"

text \<open>The view of \<open>token_size_\<close> octets from \<open>idx\<close> on, which every \<open>value<T>()\<close>
  builds.\<close>

definition token_view :: "'x reader_data_scheme \<Rightarrow> fault + octets" where
  "token_view r =
     (if idx r + token_size r \<le> length (ibuffer r)
      then Inr (take (token_size r) (drop (idx r) (ibuffer r))) else Inl Out_of_bounds)"

text \<open>The start of every \<open>next()\<close>: a complete token is consumed.\<close>

definition consume :: "'x reader_data_scheme \<Rightarrow> 'x reader_data_scheme" where
  "consume r =
     (if cur_code r \<noteq> code_error_insufficient_data
      then r\<lparr>idx := idx r + token_size r, token_size := 0,
             cur_code := code_error_insufficient_data\<rparr>
      else r)"

text \<open>\<open>for ( ; i != count ; ++i) if (ibuffer[i] != skip[i - idx]) \<dots>\<close>: whether every
  compared octet was the expected one.\<close>

function static_scan :: "octets \<Rightarrow> octets \<Rightarrow> nat \<Rightarrow> nat \<Rightarrow> nat \<Rightarrow> fault + bool" where
  "static_scan skp buf start i count =
     (if i = count then Inr True
      else if length buf \<le> i \<or> length skp \<le> i - start then Inl Out_of_bounds
      else if buf ! i \<noteq> skp ! (i - start) then Inr False
      else static_scan skp buf start (Suc i) count)"
  by pat_completeness auto
termination
  by (relation "measure (\<lambda>(skp, buf, start, i, count). length buf - i)") auto

declare static_scan.simps [simp del]

section \<open>Lemmas\<close>

lemma consume_idle [simp]: "cur_code r = code_error_insufficient_data \<Longrightarrow> consume r = r"
  by (simp add: consume_def)

lemma consume_fields [simp]:
  "cur_code (consume r) = code_error_insufficient_data"
  "ibuffer (consume r) = ibuffer r"
  "body_size (consume r) = body_size r"
  by (simp_all add: consume_def)

lemma consume_end [simp]:
  "idx (consume r) + token_size (consume r) = idx r + token_size r"
  by (simp add: consume_def)

lemma consume_idx_le: "idx (consume r) \<le> idx r + token_size r"
  by (simp add: consume_def)

lemma rest_length [simp]: "length (rest r) = length (ibuffer r) - idx r"
  by (simp add: rest_def)

lemma token_view_ok [simp]:
  "idx r + token_size r \<le> length (ibuffer r) \<Longrightarrow>
   token_view r = Inr (take (token_size r) (drop (idx r) (ibuffer r)))"
  by (simp add: token_view_def)

text \<open>In range the loop decides whether the compared parts are equal.\<close>

lemma static_scan_range:
  assumes "start \<le> i" and "i \<le> count" and "count \<le> length buf" and "count \<le> start + length skp"
  shows "static_scan skp buf start i count =
         Inr (take (count - i) (drop i buf) = take (count - i) (drop (i - start) skp))"
  using assms
proof (induction skp buf start i count rule: static_scan.induct)
  case (1 skp buf start i count)
  show ?case
  proof (cases "i = count")
    case True
    then show ?thesis by (simp add: static_scan.simps [of skp buf start count count])
  next
    case False
    with 1 have i: "i < length buf" "i - start < length skp" "i < count" by linarith+
    have d: "drop i buf = buf ! i # drop (Suc i) buf"
      "drop (i - start) skp = skp ! (i - start) # drop (Suc i - start) skp"
      using i 1(2) by (simp_all add: Cons_nth_drop_Suc [symmetric] Suc_diff_le)
    show ?thesis
      using 1 i False
      by (simp add: static_scan.simps [of skp buf start i count] d take_Cons' del: take_all_iff)
  qed
qed

text \<open>With the octets of the partial token already accepted, the scans that resume behind them
  give what a scan of the whole rest gives.\<close>

definition token_prefix :: "'x reader_data_scheme \<Rightarrow> octets" where
  "token_prefix r = take (token_size r) (rest r)"

definition in_range :: "'x reader_data_scheme \<Rightarrow> bool" where
  "in_range r \<longleftrightarrow> idx r + token_size r \<le> length (ibuffer r)"

lemma scan_token:
  assumes "in_range r" and "list_all p (token_prefix r)"
  shows "scan_from p (ibuffer r) (idx r + token_size r) = Inr (idx r + match_loop p (rest r))"
proof -
  have "token_size r + match_loop p (drop (token_size r) (rest r)) = match_loop p (rest r)"
    using assms by (intro scan_resume) (auto simp: in_range_def token_prefix_def list_all_iff)
  then show ?thesis
    using assms(1) by (simp add: in_range_def rest_def add.commute scan_from_ok)
qed

lemma static_token:
  assumes "in_range r" and "token_size r \<le> length skp"
    and "token_prefix r = take (token_size r) skp"
  shows "static_scan skp (ibuffer r) (idx r) (idx r + token_size r)
           (min (length (ibuffer r)) (idx r + length skp)) =
         Inr (take (length skp) (rest r) = take (length (rest r)) skp)"
proof -
  let ?t = "token_size r" and ?b = "rest r"
  let ?n = "min (length ?b) (length skp)"
  have le: "?t \<le> ?n" using assms(1,2) by (simp add: in_range_def)
  have count: "min (length (ibuffer r)) (idx r + length skp) = idx r + ?n"
    using assms(1) by (simp add: in_range_def)
  have "static_scan skp (ibuffer r) (idx r) (idx r + ?t) (idx r + ?n) =
      Inr (take (?n - ?t) (drop ?t ?b) = take (?n - ?t) (drop ?t skp))"
    using assms le by (subst static_scan_range) (auto simp: rest_def in_range_def add.commute)
  moreover have "(take (?n - ?t) (drop ?t ?b) = take (?n - ?t) (drop ?t skp)) \<longleftrightarrow>
      take ?n ?b = take ?n skp"
  proof -
    have split: "take ?n xs = take ?t xs @ take (?n - ?t) (drop ?t xs)" for xs :: octets
      using le take_add [of ?t "?n - ?t" xs] by simp
    have "take ?t ?b = take ?t skp" using assms(3) by (simp only: token_prefix_def)
    then show ?thesis by (simp only: split [of ?b] split [of skp] same_append_eq)
  qed
  moreover have "take ?n ?b = take ?n skp \<longleftrightarrow> take (length skp) ?b = take (length ?b) skp"
    by (cases "length ?b \<le> length skp") (simp_all add: min_def)
  ultimately show ?thesis by (simp add: count)
qed

section \<open>Simplification of the shared operations\<close>

named_theorems reader_simps \<open>views and ranges after an update\<close>

lemma rest_updates [simp]:
  "rest (r\<lparr>token_size := n\<rparr>) = rest r"
  "rest (r\<lparr>cur_code := c\<rparr>) = rest r"
  "rest (r\<lparr>body_size := b\<rparr>) = rest r"
  by (simp_all add: rest_def)

lemma token_prefix_size [simp]: "token_prefix (r\<lparr>token_size := n\<rparr>) = take n (rest r)"
  by (simp add: token_prefix_def)

lemma match_loop_rest_full [reader_simps]:
  "match_loop p (rest r) = length (ibuffer r) - idx r \<longleftrightarrow> list_all p (rest r)"
  using match_loop_full [of p "rest r"] by (simp add: list_all_iff)

lemma guarded_Return:
  "guarded x f = Return r' \<longleftrightarrow> (\<exists>a. x = Inr a \<and> f a = Return r')"
  by (cases x) auto

lemma guarded_Tail_next:
  "guarded x f = Tail_next r' \<longleftrightarrow> (\<exists>a. x = Inr a \<and> f a = Tail_next r')"
  by (cases x) auto

lemma guarded_Fault:
  "guarded x f = Fault e \<longleftrightarrow> x = Inl e \<or> (\<exists>a. x = Inr a \<and> f a = Fault e)"
  by (cases x) auto

lemmas guarded_iffs [reader_simps] = guarded_Return guarded_Tail_next guarded_Fault

text \<open>A property of every way a pass through the \<open>switch\<close> goes on.\<close>

definition outcome_all :: "('r \<Rightarrow> bool) \<Rightarrow> 'r outcome \<Rightarrow> bool" where
  "outcome_all P x = (case x of Return r \<Rightarrow> P r | Tail_next r \<Rightarrow> P r | Fault _ \<Rightarrow> True)"

lemma outcome_all_simps [simp]:
  "outcome_all P (Return r) = P r"
  "outcome_all P (Tail_next r) = P r"
  "outcome_all P (Fault f) = True"
  by (simp_all add: outcome_all_def)

lemma outcome_all_guarded [simp]:
  "outcome_all P (guarded x f) \<longleftrightarrow> (\<forall>a. x = Inr a \<longrightarrow> outcome_all P (f a))"
  by (cases x) simp_all

lemma outcome_allD:
  "outcome_all P x \<Longrightarrow> x = Return r \<or> x = Tail_next r \<Longrightarrow> P r"
  by auto

text \<open>Every matcher stays inside the rest of the buffer.\<close>

lemma match_loop_rest_le: "match_loop p (rest r) \<le> length (ibuffer r) - idx r"
  using match_loop_le [of p "rest r"] by simp

lemma matcher_bounds:
  "field_name_match (rest r) \<le> length (ibuffer r) - idx r"
  "field_value_match (rest r) \<le> length (ibuffer r) - idx r"
  "reason_phrase_match (rest r) \<le> length (ibuffer r) - idx r"
  "ows_match (rest r) \<le> length (ibuffer r) - idx r"
  "chunk_size_match (rest r) \<le> length (ibuffer r) - idx r"
  using field_name.bounded [of "rest r"]
    field_value.bounded [of "rest r"] reason_phrase.bounded [of "rest r"]
    ows.bounded [of "rest r"] chunk_size.bounded [of "rest r"] by simp_all

lemma crlf_bounds:
  "liberal_crlf_match (rest r) = crlf_crlf \<Longrightarrow> idx r + 2 \<le> length (ibuffer r)"
  "liberal_crlf_match (rest r) = crlf_lf \<Longrightarrow> idx r + 1 \<le> length (ibuffer r)"
  using liberal_crlf_match_size [of "rest r"] by simp_all

lemma strict_crlf_cases: "strict_crlf_match v \<noteq> 0 \<Longrightarrow> strict_crlf_match v = 2"
  using strict_crlf_match_cases [of v] by simp

section \<open>New buffers\<close>

text \<open>The contract of \<open>set_buffer\<close>: the new buffer still starts with the current token.\<close>

definition keeps_token :: "octets \<Rightarrow> 'x reader_data_scheme \<Rightarrow> bool" where
  "keeps_token buf r \<longleftrightarrow> token_size r \<le> length buf \<and> take (token_size r) buf = token_prefix r"

lemma rest_advance: "drop (idx r + n) (ibuffer r) = drop n (rest r)"
  by (simp add: rest_def add.commute)

lemma rest_consume:
  "rest (consume r) =
     (if cur_code r = code_error_insufficient_data then rest r else drop (token_size r) (rest r))"
  by (simp add: consume_def rest_advance [symmetric]) (simp add: rest_def)

lemma rest_more: "in_range r \<Longrightarrow> rest (r\<lparr>ibuffer := ibuffer r @ d\<rparr>) = rest r @ d"
  by (simp add: rest_def in_range_def)

lemma token_prefix_more:
  "in_range r \<Longrightarrow> token_prefix (r\<lparr>ibuffer := ibuffer r @ d\<rparr>) = token_prefix r"
  using rest_length [of r] by (simp add: token_prefix_def rest_more) (simp add: in_range_def, linarith)

lemma consume_more: "consume (r\<lparr>ibuffer := b\<rparr>) = consume r\<lparr>ibuffer := b\<rparr>"
  by (simp add: consume_def)

end
