(* ===== verification/Request.thy ===== *)
theory Request
  imports Reader_Common
begin

text \<open>
  The request reader, \<open>class request\<close> (\<open>reader/request.hpp\<close>, \<open>reader/request.ipp\<close>):
  its members, its states and one definition per case of the \<open>switch\<close> in \<open>next()\<close>,
  composed by \<open>rq_switch\<close> and \<open>rq_next\<close> the way the code composes them.
\<close>

section \<open>State\<close>

datatype rq_state =
    RQ_ERRORED
  | RQ_EXPECT_METHOD
  | RQ_EXPECT_SP_AFTER_METHOD
  | RQ_EXPECT_REQUEST_TARGET
  | RQ_EXPECT_STATIC_STR_AFTER_TARGET
  | RQ_EXPECT_VERSION
  | RQ_EXPECT_CRLF_AFTER_VERSION
  | RQ_EXPECT_FIELD_NAME
  | RQ_EXPECT_COLON
  | RQ_EXPECT_OWS_AFTER_COLON
  | RQ_EXPECT_FIELD_VALUE
  | RQ_EXPECT_CRLF_AFTER_FIELD_VALUE
  | RQ_EXPECT_CRLF_AFTER_HEADERS
  | RQ_EXPECT_BODY
  | RQ_EXPECT_END_OF_BODY
  | RQ_EXPECT_END_OF_MESSAGE
  | RQ_EXPECT_CHUNK_SIZE
  | RQ_EXPECT_CHUNK_EXT
  | RQ_EXPECT_CRLF_AFTER_CHUNK_EXT
  | RQ_EXPECT_CHUNK_DATA
  | RQ_EXPECT_CRLF_AFTER_CHUNK_DATA
  | RQ_EXPECT_TRAILER_NAME
  | RQ_EXPECT_TRAILER_COLON
  | RQ_EXPECT_OWS_AFTER_TRAILER_COLON
  | RQ_EXPECT_TRAILER_VALUE
  | RQ_EXPECT_CRLF_AFTER_TRAILER_VALUE
  | RQ_EXPECT_CRLF_AFTER_TRAILERS

datatype rq_version_flag =
    RQ_HTTP_1_0
  | RQ_NOT_HTTP_1_0_AND_HOST_NOT_READ
  | RQ_NOT_HTTP_1_0_AND_HOST_READ

datatype rq_body_type =
    RQ_NO_BODY
  | RQ_CONTENT_LENGTH_READ
  | RQ_CHUNKED_ENCODING_READ
  | RQ_RANDOM_ENCODING_READ
  | RQ_READING_CONTENT_LENGTH
  | RQ_READING_ENCODING

record request = reader_data +
  version :: rq_version_flag
  body_type :: rq_body_type
  state :: rq_state

text \<open>The constructor leaves \<open>version\<close> and \<open>body_size\<close> uninitialised: their
  indeterminate values are arguments here.\<close>

definition rq_new :: "rq_version_flag \<Rightarrow> u64 \<Rightarrow> request" where
  "rq_new v n =
     \<lparr>body_size = n, cur_code = code_error_insufficient_data, idx = 0, token_size = 0,
      ibuffer = [], version = v, body_type = RQ_NO_BODY, state = RQ_EXPECT_METHOD\<rparr>"

definition rq_reset :: "request \<Rightarrow> request" where
  "rq_reset r = r\<lparr>body_type := RQ_NO_BODY, state := RQ_EXPECT_METHOD,
     cur_code := code_error_insufficient_data, idx := 0, token_size := 0, ibuffer := []\<rparr>"

section \<open>Inspecting the current token\<close>

definition rq_symbol :: "request \<Rightarrow> symbol" where
  "rq_symbol r = symbol_convert (cur_code r)"

definition rq_category :: "request \<Rightarrow> category" where
  "rq_category r = category_convert_code (cur_code r)"

definition rq_value_method :: "request \<Rightarrow> fault + octets" where
  "rq_value_method r = (if cur_code r \<noteq> code_method then Inl Assertion else token_view r)"

definition rq_value_request_target :: "request \<Rightarrow> fault + octets" where
  "rq_value_request_target r =
     (if cur_code r \<noteq> code_request_target then Inl Assertion else token_view r)"

definition rq_value_version :: "request \<Rightarrow> fault + int" where
  "rq_value_version r =
     (if cur_code r \<noteq> code_version then Inl Assertion
      else map_sum id (\<lambda>c. int (byte c) - int (byte (CHR ''0''))) (byte_at (ibuffer r) (idx r)))"

definition rq_value_field_name :: "request \<Rightarrow> fault + octets" where
  "rq_value_field_name r =
     (if \<not> (cur_code r = code_field_name \<or> cur_code r = code_trailer_name)
      then Inl Assertion else token_view r)"

definition rq_value_field_value :: "request \<Rightarrow> fault + octets" where
  "rq_value_field_value r =
     (if \<not> (cur_code r = code_field_value \<or> cur_code r = code_trailer_value)
      then Inl Assertion else case_sum Inl decode_field_value (token_view r))"

definition rq_value_chunk_ext :: "request \<Rightarrow> fault + u64 \<times> octets" where
  "rq_value_chunk_ext r =
     (if cur_code r \<noteq> code_chunk_ext then Inl Assertion
      else map_sum id (Pair (body_size r)) (token_view r))"

definition rq_value_body_chunk :: "request \<Rightarrow> fault + octets" where
  "rq_value_body_chunk r =
     (if cur_code r \<noteq> code_body_chunk then Inl Assertion
      else Inr (take (token_size r) (rest r)))"

definition rq_value_trailer_name :: "request \<Rightarrow> fault + octets" where
  "rq_value_trailer_name r =
     (if cur_code r \<noteq> code_trailer_name then Inl Assertion else token_view r)"

definition rq_value_trailer_value :: "request \<Rightarrow> fault + octets" where
  "rq_value_trailer_value r =
     (if cur_code r \<noteq> code_trailer_value then Inl Assertion
      else case_sum Inl decode_field_value (token_view r))"

definition rq_expected_token :: "request \<Rightarrow> code" where
  "rq_expected_token r =
     (case state r of
        RQ_ERRORED \<Rightarrow> cur_code r
      | RQ_EXPECT_METHOD \<Rightarrow> code_method
      | RQ_EXPECT_SP_AFTER_METHOD \<Rightarrow> code_skip
      | RQ_EXPECT_STATIC_STR_AFTER_TARGET \<Rightarrow> code_skip
      | RQ_EXPECT_CRLF_AFTER_VERSION \<Rightarrow> code_skip
      | RQ_EXPECT_COLON \<Rightarrow> code_skip
      | RQ_EXPECT_CRLF_AFTER_HEADERS \<Rightarrow> code_skip
      | RQ_EXPECT_OWS_AFTER_COLON \<Rightarrow> code_skip
      | RQ_EXPECT_CRLF_AFTER_FIELD_VALUE \<Rightarrow> code_skip
      | RQ_EXPECT_CHUNK_SIZE \<Rightarrow> code_skip
      | RQ_EXPECT_CRLF_AFTER_CHUNK_EXT \<Rightarrow> code_skip
      | RQ_EXPECT_CRLF_AFTER_CHUNK_DATA \<Rightarrow> code_skip
      | RQ_EXPECT_TRAILER_COLON \<Rightarrow> code_skip
      | RQ_EXPECT_OWS_AFTER_TRAILER_COLON \<Rightarrow> code_skip
      | RQ_EXPECT_CRLF_AFTER_TRAILER_VALUE \<Rightarrow> code_skip
      | RQ_EXPECT_CRLF_AFTER_TRAILERS \<Rightarrow> code_skip
      | RQ_EXPECT_REQUEST_TARGET \<Rightarrow> code_request_target
      | RQ_EXPECT_VERSION \<Rightarrow> code_version
      | RQ_EXPECT_FIELD_NAME \<Rightarrow> code_field_name
      | RQ_EXPECT_FIELD_VALUE \<Rightarrow> code_field_value
      | RQ_EXPECT_CHUNK_EXT \<Rightarrow> code_chunk_ext
      | RQ_EXPECT_BODY \<Rightarrow> code_body_chunk
      | RQ_EXPECT_CHUNK_DATA \<Rightarrow> code_body_chunk
      | RQ_EXPECT_TRAILER_NAME \<Rightarrow> code_trailer_name
      | RQ_EXPECT_TRAILER_VALUE \<Rightarrow> code_trailer_value
      | RQ_EXPECT_END_OF_BODY \<Rightarrow> code_end_of_body
      | RQ_EXPECT_END_OF_MESSAGE \<Rightarrow> code_end_of_message)"

definition rq_parsed_count :: "request \<Rightarrow> nat" where
  "rq_parsed_count r = idx r"

section \<open>The cases of next()\<close>

text \<open>The two recurring endings: an error, and a complete token.\<close>

definition rq_fail :: "code \<Rightarrow> request \<Rightarrow> request" where
  "rq_fail c r = r\<lparr>state := RQ_ERRORED, cur_code := c\<rparr>"

definition rq_token :: "rq_state \<Rightarrow> code \<Rightarrow> nat \<Rightarrow> request \<Rightarrow> request" where
  "rq_token s c n r = r\<lparr>state := s, cur_code := c, token_size := n\<rparr>"

definition rq_method :: "request \<Rightarrow> request outcome" where
  "rq_method r =
     guarded (scan_from is_tchar (ibuffer r) (idx r + token_size r)) (\<lambda>i.
       if i \<noteq> length (ibuffer r) then
         (if i \<noteq> idx r
          then Return (rq_token RQ_EXPECT_SP_AFTER_METHOD code_method (i - idx r) r)
          else Return (rq_fail code_error_invalid_data r))
       else Return (r\<lparr>token_size := i - idx r\<rparr>))"

definition rq_sp_after_method :: "request \<Rightarrow> request outcome" where
  "rq_sp_after_method r =
     guarded (byte_at (ibuffer r) (idx r)) (\<lambda>c.
       if is_sp c then Return (rq_token RQ_EXPECT_REQUEST_TARGET code_skip 1 r)
       else Return (rq_fail code_error_invalid_data r))"

definition rq_request_target :: "request \<Rightarrow> request outcome" where
  "rq_request_target r =
     guarded (scan_from is_request_target_char (ibuffer r) (idx r + token_size r)) (\<lambda>i.
       if i \<noteq> length (ibuffer r) then
         (if i \<noteq> idx r
          then Return (rq_token RQ_EXPECT_STATIC_STR_AFTER_TARGET code_request_target (i - idx r) r)
          else Return (rq_fail code_error_invalid_data r))
       else Return (r\<lparr>token_size := length (ibuffer r) - idx r\<rparr>))"

definition rq_static_str :: octets where
  "rq_static_str = '' HTTP/1.''"

definition rq_static_str_after_target :: "request \<Rightarrow> request outcome" where
  "rq_static_str_after_target r =
     (let count = min (length (ibuffer r)) (idx r + length rq_static_str) in
      guarded (static_scan rq_static_str (ibuffer r) (idx r) (idx r + token_size r) count) (\<lambda>equal.
        if \<not> equal then Return (rq_fail code_error_invalid_data r)
        else let r = r\<lparr>token_size := count - idx r\<rparr> in
          if token_size r = length rq_static_str
          then Return (r\<lparr>state := RQ_EXPECT_VERSION, cur_code := code_skip\<rparr>)
          else Return r))"

definition rq_version :: "request \<Rightarrow> request outcome" where
  "rq_version r =
     guarded (byte_at (ibuffer r) (idx r)) (\<lambda>c.
       if byte c < byte (CHR ''0'') \<or> byte c > byte (CHR ''9'')
       then Return (rq_fail code_error_invalid_data r)
       else let r = rq_token RQ_EXPECT_CRLF_AFTER_VERSION code_version 1 r in
         guarded (rq_value_version r) (\<lambda>v.
           Return (r\<lparr>version := (if v = 0 then RQ_HTTP_1_0
                                else RQ_NOT_HTTP_1_0_AND_HOST_NOT_READ)\<rparr>)))"

definition rq_crlf_after_version :: "request \<Rightarrow> request outcome" where
  "rq_crlf_after_version r =
     (case liberal_crlf_match (rest r) of
        crlf_crlf \<Rightarrow> Return (rq_token RQ_EXPECT_FIELD_NAME code_skip 2 r)
      | crlf_lf \<Rightarrow> Return (rq_token RQ_EXPECT_FIELD_NAME code_skip 1 r)
      | crlf_insufficient_data \<Rightarrow> Return r
      | crlf_invalid_data \<Rightarrow> Return (rq_fail code_error_invalid_data r))"

text \<open>What a complete field name does to the framing state.\<close>

definition rq_known_field :: "iequals \<Rightarrow> octets \<Rightarrow> request \<Rightarrow> request outcome" where
  "rq_known_field ieq field r =
     (if ieq field ''Host'' then
        (case version r of
           RQ_HTTP_1_0 \<Rightarrow> Return r
         | RQ_NOT_HTTP_1_0_AND_HOST_NOT_READ \<Rightarrow>
             Return (r\<lparr>version := RQ_NOT_HTTP_1_0_AND_HOST_READ\<rparr>)
         | RQ_NOT_HTTP_1_0_AND_HOST_READ \<Rightarrow> Return (rq_fail code_error_no_host r))
      else if ieq field ''Transfer-Encoding'' then
        (case body_type r of
           RQ_CONTENT_LENGTH_READ \<Rightarrow> Return (r\<lparr>body_type := RQ_READING_ENCODING\<rparr>)
         | RQ_NO_BODY \<Rightarrow> Return (r\<lparr>body_type := RQ_READING_ENCODING\<rparr>)
         | RQ_RANDOM_ENCODING_READ \<Rightarrow> Return (r\<lparr>body_type := RQ_READING_ENCODING\<rparr>)
         | RQ_CHUNKED_ENCODING_READ \<Rightarrow> Return (rq_fail code_error_invalid_transfer_encoding r)
         | _ \<Rightarrow> Fault Unreachable)
      else if ieq field ''Content-Length'' then
        (case body_type r of
           RQ_NO_BODY \<Rightarrow> Return (r\<lparr>body_type := RQ_READING_CONTENT_LENGTH\<rparr>)
         | RQ_CONTENT_LENGTH_READ \<Rightarrow> Return (rq_fail code_error_invalid_content_length r)
         | RQ_CHUNKED_ENCODING_READ \<Rightarrow> Return r
         | RQ_RANDOM_ENCODING_READ \<Rightarrow> Return r
         | _ \<Rightarrow> Fault Unreachable)
      else Return r)"

definition rq_field_name :: "iequals \<Rightarrow> request \<Rightarrow> request outcome" where
  "rq_field_name ieq r =
     (let nmatched = field_name_match (rest r) in
      if nmatched = 0 then Tail_next (r\<lparr>state := RQ_EXPECT_CRLF_AFTER_HEADERS\<rparr>)
      else if nmatched = length (rest r) then Return r
      else let r = rq_token RQ_EXPECT_COLON code_field_name nmatched r in
        guarded (rq_value_field_name r) (\<lambda>field. rq_known_field ieq field r))"

definition rq_colon :: "request \<Rightarrow> request outcome" where
  "rq_colon r =
     guarded (byte_at (ibuffer r) (idx r)) (\<lambda>c.
       if c \<noteq> CHR '':'' then Return (rq_fail code_error_invalid_data r)
       else guarded (scan_from is_ows (ibuffer r) (idx r + 1)) (\<lambda>i.
         Return (rq_token (if i \<noteq> length (ibuffer r) then RQ_EXPECT_FIELD_VALUE
                           else RQ_EXPECT_OWS_AFTER_COLON) code_skip (i - idx r) r)))"

definition rq_ows_after_colon :: "request \<Rightarrow> request outcome" where
  "rq_ows_after_colon r =
     (let nmatched = ows_match (rest r) in
      if nmatched = 0 then Tail_next (r\<lparr>state := RQ_EXPECT_FIELD_VALUE\<rparr>)
      else Return (r\<lparr>cur_code := code_skip, token_size := nmatched\<rparr>))"

text \<open>What a complete field value does to the framing state.\<close>

definition rq_framing_value :: "iequals \<Rightarrow> octets \<Rightarrow> request \<Rightarrow> request" where
  "rq_framing_value ieq field r =
     (case body_type r of
        RQ_READING_CONTENT_LENGTH \<Rightarrow>
          let (res, out) = content_length_decode field (body_size r);
              r = r\<lparr>body_type := RQ_CONTENT_LENGTH_READ, body_size := out\<rparr>
          in (case res of
                decode_invalid \<Rightarrow> rq_fail code_error_invalid_content_length r
              | decode_overflow \<Rightarrow> rq_fail code_error_content_length_overflow r
              | decode_ok \<Rightarrow> r)
      | RQ_READING_ENCODING \<Rightarrow>
          (case decode_transfer_encoding ieq field of
             CHUNKED_INVALID \<Rightarrow> rq_fail code_error_invalid_transfer_encoding r
           | CHUNKED_NOT_FOUND \<Rightarrow> r\<lparr>body_type := RQ_RANDOM_ENCODING_READ\<rparr>
           | CHUNKED_AT_END \<Rightarrow> r\<lparr>body_type := RQ_CHUNKED_ENCODING_READ\<rparr>)
      | _ \<Rightarrow> r)"

definition rq_field_value :: "iequals \<Rightarrow> request \<Rightarrow> request outcome" where
  "rq_field_value ieq r =
     (let nmatched = field_value_match (rest r) in
      if nmatched = length (rest r) then Return r
      else let r = rq_token RQ_EXPECT_CRLF_AFTER_FIELD_VALUE code_field_value nmatched r in
        guarded (rq_value_field_value r) (\<lambda>field. Return (rq_framing_value ieq field r)))"

definition rq_crlf_after_field_value :: "request \<Rightarrow> request outcome" where
  "rq_crlf_after_field_value r =
     (case liberal_crlf_match (rest r) of
        crlf_crlf \<Rightarrow> Return (rq_token RQ_EXPECT_FIELD_NAME code_skip 2 r)
      | crlf_lf \<Rightarrow> Return (rq_token RQ_EXPECT_FIELD_NAME code_skip 1 r)
      | crlf_insufficient_data \<Rightarrow> Return r
      | crlf_invalid_data \<Rightarrow> Return (rq_fail code_error_invalid_data r))"

text \<open>The end of the header section, once its line terminator of \<open>n\<close> octets is there.\<close>

definition rq_end_of_headers :: "nat \<Rightarrow> request \<Rightarrow> request outcome" where
  "rq_end_of_headers n r0 =
     (let r = r0\<lparr>token_size := n\<rparr> in
      if version r = RQ_NOT_HTTP_1_0_AND_HOST_NOT_READ then Return (rq_fail code_error_no_host r)
      else case body_type r of
          RQ_RANDOM_ENCODING_READ \<Rightarrow> Return (rq_fail code_error_invalid_transfer_encoding r)
        | RQ_NO_BODY \<Rightarrow>
            Return (r\<lparr>state := RQ_EXPECT_END_OF_BODY, cur_code := code_end_of_headers\<rparr>)
        | RQ_CHUNKED_ENCODING_READ \<Rightarrow>
            Return (r\<lparr>state := RQ_EXPECT_CHUNK_SIZE, cur_code := code_end_of_headers\<rparr>)
        | RQ_CONTENT_LENGTH_READ \<Rightarrow>
            Return (r\<lparr>state := (if body_size r = 0 then RQ_EXPECT_END_OF_BODY else RQ_EXPECT_BODY),
                      cur_code := code_end_of_headers\<rparr>)
        | _ \<Rightarrow> Fault Unreachable)"

definition rq_crlf_after_headers :: "request \<Rightarrow> request outcome" where
  "rq_crlf_after_headers r =
     (case liberal_crlf_match (rest r) of
        crlf_crlf \<Rightarrow> rq_end_of_headers 2 r
      | crlf_lf \<Rightarrow> rq_end_of_headers 1 r
      | crlf_insufficient_data \<Rightarrow> Return r
      | crlf_invalid_data \<Rightarrow> Return (rq_fail code_error_invalid_data r))"

definition rq_body :: "request \<Rightarrow> request outcome" where
  "rq_body r =
     (let n = min (length (rest r)) (unat (body_size r));
          r = r\<lparr>cur_code := code_body_chunk, token_size := n, body_size := body_size r - of_nat n\<rparr>
      in if body_size r = 0 then Return (r\<lparr>state := RQ_EXPECT_END_OF_BODY\<rparr>) else Return r)"

definition rq_chunk_size :: "request \<Rightarrow> request outcome" where
  "rq_chunk_size r =
     (let nmatched = chunk_size_match (rest r) in
      if nmatched = 0 then Return (rq_fail code_error_invalid_data r)
      else if nmatched = length (rest r) then Return r
      else let (res, out) = chunk_size_decode (take nmatched (rest r)) (body_size r);
               r = r\<lparr>body_size := out\<rparr>
        in (case res of
              decode_invalid \<Rightarrow> Return (rq_fail code_error_invalid_data r)
            | decode_overflow \<Rightarrow> Return (rq_fail code_error_chunk_size_overflow r)
            | decode_ok \<Rightarrow> Return (rq_token RQ_EXPECT_CHUNK_EXT code_skip nmatched r)))"

definition rq_chunk_ext :: "request \<Rightarrow> request outcome" where
  "rq_chunk_ext r =
     guarded (scan_from is_chunk_ext_char (ibuffer r) (idx r + token_size r)) (\<lambda>i.
       if i \<noteq> length (ibuffer r) then
         (if ibuffer r ! i \<noteq> CHR 0x0D then Return (rq_fail code_error_invalid_data r)
          else let r = r\<lparr>state := RQ_EXPECT_CRLF_AFTER_CHUNK_EXT, token_size := i - idx r\<rparr> in
            if token_size r = 0 then Tail_next r
            else Return (r\<lparr>cur_code := code_chunk_ext\<rparr>))
       else Return (r\<lparr>token_size := i - idx r\<rparr>))"

definition rq_crlf_after_chunk_ext :: "request \<Rightarrow> request outcome" where
  "rq_crlf_after_chunk_ext r =
     (if length (rest r) < 2 then Return r
      else let nmatched = strict_crlf_match (rest r) in
        if nmatched = 0 then Return (rq_fail code_error_invalid_data r)
        else if body_size r \<noteq> 0
        then Return (rq_token RQ_EXPECT_CHUNK_DATA code_skip nmatched r)
        else Return (rq_token RQ_EXPECT_TRAILER_NAME code_end_of_body nmatched r))"

definition rq_chunk_data :: "request \<Rightarrow> request outcome" where
  "rq_chunk_data r =
     (let n = min (length (rest r)) (unat (body_size r));
          r = r\<lparr>cur_code := code_body_chunk, token_size := n, body_size := body_size r - of_nat n\<rparr>
      in if body_size r = 0 then Return (r\<lparr>state := RQ_EXPECT_CRLF_AFTER_CHUNK_DATA\<rparr>)
         else Return r)"

definition rq_crlf_after_chunk_data :: "request \<Rightarrow> request outcome" where
  "rq_crlf_after_chunk_data r =
     (if length (rest r) < 2 then Return r
      else let nmatched = strict_crlf_match (rest r) in
        if nmatched = 0 then Return (rq_fail code_error_invalid_data r)
        else Return (rq_token RQ_EXPECT_CHUNK_SIZE code_skip nmatched r))"

definition rq_trailer_name :: "request \<Rightarrow> request outcome" where
  "rq_trailer_name r =
     (let nmatched = field_name_match (rest r) in
      if nmatched = 0 then Tail_next (r\<lparr>state := RQ_EXPECT_CRLF_AFTER_TRAILERS\<rparr>)
      else if nmatched = length (rest r) then Return r
      else Return (rq_token RQ_EXPECT_TRAILER_COLON code_trailer_name nmatched r))"

definition rq_trailer_colon :: "request \<Rightarrow> request outcome" where
  "rq_trailer_colon r =
     guarded (byte_at (ibuffer r) (idx r)) (\<lambda>c.
       if c \<noteq> CHR '':'' then Return (rq_fail code_error_invalid_data r)
       else guarded (scan_from is_ows (ibuffer r) (idx r + 1)) (\<lambda>i.
         Return (rq_token (if i \<noteq> length (ibuffer r) then RQ_EXPECT_TRAILER_VALUE
                           else RQ_EXPECT_OWS_AFTER_TRAILER_COLON) code_skip (i - idx r) r)))"

definition rq_ows_after_trailer_colon :: "request \<Rightarrow> request outcome" where
  "rq_ows_after_trailer_colon r =
     (let nmatched = ows_match (rest r) in
      if nmatched = 0 then Tail_next (r\<lparr>state := RQ_EXPECT_TRAILER_VALUE\<rparr>)
      else Return (r\<lparr>cur_code := code_skip, token_size := nmatched\<rparr>))"

definition rq_trailer_value :: "request \<Rightarrow> request outcome" where
  "rq_trailer_value r =
     (let nmatched = field_value_match (rest r) in
      if nmatched = length (rest r) then Return r
      else Return (rq_token RQ_EXPECT_CRLF_AFTER_TRAILER_VALUE code_trailer_value nmatched r))"

definition rq_crlf_after_trailer_value :: "request \<Rightarrow> request outcome" where
  "rq_crlf_after_trailer_value r =
     (if length (rest r) < 2 then Return r
      else let nmatched = strict_crlf_match (rest r) in
        if nmatched = 0 then Return (rq_fail code_error_invalid_data r)
        else Return (rq_token RQ_EXPECT_TRAILER_NAME code_skip nmatched r))"

definition rq_crlf_after_trailers :: "request \<Rightarrow> request outcome" where
  "rq_crlf_after_trailers r =
     (if length (rest r) < 2 then Return r
      else let nmatched = strict_crlf_match (rest r) in
        if nmatched = 0 then Return (rq_fail code_error_invalid_data r)
        else Return (rq_token RQ_EXPECT_METHOD code_end_of_message nmatched
                       (r\<lparr>body_type := RQ_NO_BODY\<rparr>)))"

definition rq_switch :: "iequals \<Rightarrow> request \<Rightarrow> request outcome" where
  "rq_switch ieq r =
     (case state r of
        RQ_EXPECT_METHOD \<Rightarrow> rq_method r
      | RQ_EXPECT_SP_AFTER_METHOD \<Rightarrow> rq_sp_after_method r
      | RQ_EXPECT_REQUEST_TARGET \<Rightarrow> rq_request_target r
      | RQ_EXPECT_STATIC_STR_AFTER_TARGET \<Rightarrow> rq_static_str_after_target r
      | RQ_EXPECT_VERSION \<Rightarrow> rq_version r
      | RQ_EXPECT_CRLF_AFTER_VERSION \<Rightarrow> rq_crlf_after_version r
      | RQ_EXPECT_FIELD_NAME \<Rightarrow> rq_field_name ieq r
      | RQ_EXPECT_COLON \<Rightarrow> rq_colon r
      | RQ_EXPECT_OWS_AFTER_COLON \<Rightarrow> rq_ows_after_colon r
      | RQ_EXPECT_FIELD_VALUE \<Rightarrow> rq_field_value ieq r
      | RQ_EXPECT_CRLF_AFTER_FIELD_VALUE \<Rightarrow> rq_crlf_after_field_value r
      | RQ_EXPECT_CRLF_AFTER_HEADERS \<Rightarrow> rq_crlf_after_headers r
      | RQ_EXPECT_BODY \<Rightarrow> rq_body r
      | RQ_EXPECT_END_OF_BODY \<Rightarrow> Fault Unreachable
      | RQ_EXPECT_END_OF_MESSAGE \<Rightarrow> Fault Unreachable
      | RQ_EXPECT_CHUNK_SIZE \<Rightarrow> rq_chunk_size r
      | RQ_EXPECT_CHUNK_EXT \<Rightarrow> rq_chunk_ext r
      | RQ_EXPECT_CRLF_AFTER_CHUNK_EXT \<Rightarrow> rq_crlf_after_chunk_ext r
      | RQ_EXPECT_CHUNK_DATA \<Rightarrow> rq_chunk_data r
      | RQ_EXPECT_CRLF_AFTER_CHUNK_DATA \<Rightarrow> rq_crlf_after_chunk_data r
      | RQ_EXPECT_TRAILER_NAME \<Rightarrow> rq_trailer_name r
      | RQ_EXPECT_TRAILER_COLON \<Rightarrow> rq_trailer_colon r
      | RQ_EXPECT_OWS_AFTER_TRAILER_COLON \<Rightarrow> rq_ows_after_trailer_colon r
      | RQ_EXPECT_TRAILER_VALUE \<Rightarrow> rq_trailer_value r
      | RQ_EXPECT_CRLF_AFTER_TRAILER_VALUE \<Rightarrow> rq_crlf_after_trailer_value r
      | RQ_EXPECT_CRLF_AFTER_TRAILERS \<Rightarrow> rq_crlf_after_trailers r
      | RQ_ERRORED \<Rightarrow> Fault Unreachable)"

section \<open>next() and set\_buffer()\<close>

text \<open>\<open>return next();\<close> is reached from five states only, and leads to states that do not
  call \<open>next()\<close> again.\<close>

definition rq_tail_calls :: "(rq_state \<times> rq_state) set" where
  "rq_tail_calls =
     {(RQ_EXPECT_FIELD_NAME, RQ_EXPECT_CRLF_AFTER_HEADERS),
      (RQ_EXPECT_OWS_AFTER_COLON, RQ_EXPECT_FIELD_VALUE),
      (RQ_EXPECT_CHUNK_EXT, RQ_EXPECT_CRLF_AFTER_CHUNK_EXT),
      (RQ_EXPECT_TRAILER_NAME, RQ_EXPECT_CRLF_AFTER_TRAILERS),
      (RQ_EXPECT_OWS_AFTER_TRAILER_COLON, RQ_EXPECT_TRAILER_VALUE)}"

lemma rq_tail_calls_once: "(s, s') \<in> rq_tail_calls \<Longrightarrow> s' \<notin> Domain rq_tail_calls"
  by (auto simp: rq_tail_calls_def)

lemmas rq_case_defs =
  rq_method_def rq_sp_after_method_def rq_request_target_def rq_static_str_after_target_def
  rq_version_def rq_crlf_after_version_def rq_field_name_def rq_known_field_def rq_colon_def
  rq_ows_after_colon_def rq_field_value_def rq_framing_value_def rq_crlf_after_field_value_def
  rq_end_of_headers_def rq_crlf_after_headers_def rq_body_def rq_chunk_size_def rq_chunk_ext_def
  rq_crlf_after_chunk_ext_def rq_chunk_data_def rq_crlf_after_chunk_data_def rq_trailer_name_def
  rq_trailer_colon_def rq_ows_after_trailer_colon_def rq_trailer_value_def
  rq_crlf_after_trailer_value_def rq_crlf_after_trailers_def

lemma rq_switch_Tail_next:
  assumes "rq_switch ieq r = Tail_next r'"
  shows "(state r, state r') \<in> rq_tail_calls \<and>
    r' = r\<lparr>state := state r', token_size := token_size r'\<rparr> \<and>
    (token_size r' = token_size r \<or> token_size r' = 0)"
  using assms
  by (cases "state r")
     (auto simp: rq_switch_def rq_case_defs rq_tail_calls_def guarded_Tail_next Let_def
        split: if_splits liberal_crlf_result.splits decode_result.splits prod.splits
          rq_version_flag.splits rq_body_type.splits)

function rq_next :: "iequals \<Rightarrow> request \<Rightarrow> fault + request" where
  "rq_next ieq r =
     (if state r = RQ_ERRORED then Inr r
      else if state r = RQ_EXPECT_END_OF_BODY
      then Inr (r\<lparr>state := RQ_EXPECT_END_OF_MESSAGE, cur_code := code_end_of_body,
                  idx := idx r + token_size r, token_size := 0\<rparr>)
      else if state r = RQ_EXPECT_END_OF_MESSAGE
      then Inr (r\<lparr>body_type := RQ_NO_BODY, state := RQ_EXPECT_METHOD,
                  cur_code := code_end_of_message, idx := idx r + token_size r, token_size := 0\<rparr>)
      else let r = consume r in
        if idx r = length (ibuffer r) then Inr r
        else case rq_switch ieq r of
            Return r' \<Rightarrow> Inr r'
          | Tail_next r' \<Rightarrow> rq_next ieq r'
          | Fault f \<Rightarrow> Inl f)"
  by pat_completeness auto
termination
proof (relation "measure (\<lambda>(ieq, r). if state r \<in> Domain rq_tail_calls then 1 else 0)", goal_cases)
  case (2 ieq r r1 r2)
  then have "(state r1, state r2) \<in> rq_tail_calls"
    using rq_switch_Tail_next [of ieq r1 r2] by simp
  then have "state r1 \<in> Domain rq_tail_calls" "state r2 \<notin> Domain rq_tail_calls"
    using rq_tail_calls_once by blast+
  moreover have "state r1 = state r" using 2(4) by (simp add: consume_def)
  ultimately show ?case by simp
qed simp

declare rq_next.simps [simp del]

definition rq_set_buffer :: "iequals \<Rightarrow> octets \<Rightarrow> request \<Rightarrow> fault + request" where
  "rq_set_buffer ieq buf r =
     (let r = r\<lparr>ibuffer := buf, idx := 0\<rparr> in
      if cur_code r = code_error_insufficient_data then rq_next ieq r else Inr r)"

end
