(* ===== verification/Request_Inv.thy ===== *)
theory Request_Inv
  imports Request
begin

text \<open>
  The invariant of the request reader and its preservation. It has three parts: the current
  token lies in the buffer; \<open>body_type\<close> and \<open>body_size\<close> agree with the state; and a
  partially read token consists of octets that were accepted already.
\<close>

section \<open>The invariant\<close>

text \<open>Values of \<open>body_type\<close> outside of a header field, as the comment in the
  \<open>EXPECT_FIELD_NAME\<close> case lists them.\<close>

definition rq_settled :: "rq_body_type \<Rightarrow> bool" where
  "rq_settled b \<longleftrightarrow> b \<noteq> RQ_READING_CONTENT_LENGTH \<and> b \<noteq> RQ_READING_ENCODING"

definition rq_framing :: "request \<Rightarrow> bool" where
  "rq_framing r =
     (case state r of
        RQ_ERRORED \<Rightarrow> True
      | RQ_EXPECT_METHOD \<Rightarrow> body_type r = RQ_NO_BODY
      | RQ_EXPECT_SP_AFTER_METHOD \<Rightarrow> body_type r = RQ_NO_BODY
      | RQ_EXPECT_REQUEST_TARGET \<Rightarrow> body_type r = RQ_NO_BODY
      | RQ_EXPECT_STATIC_STR_AFTER_TARGET \<Rightarrow> body_type r = RQ_NO_BODY
      | RQ_EXPECT_VERSION \<Rightarrow> body_type r = RQ_NO_BODY
      | RQ_EXPECT_CRLF_AFTER_VERSION \<Rightarrow> body_type r = RQ_NO_BODY
      | RQ_EXPECT_FIELD_NAME \<Rightarrow> rq_settled (body_type r)
      | RQ_EXPECT_COLON \<Rightarrow> True
      | RQ_EXPECT_OWS_AFTER_COLON \<Rightarrow> True
      | RQ_EXPECT_FIELD_VALUE \<Rightarrow> True
      | RQ_EXPECT_CRLF_AFTER_FIELD_VALUE \<Rightarrow> rq_settled (body_type r)
      | RQ_EXPECT_CRLF_AFTER_HEADERS \<Rightarrow> rq_settled (body_type r)
      | RQ_EXPECT_BODY \<Rightarrow> body_type r = RQ_CONTENT_LENGTH_READ \<and> body_size r \<noteq> 0
      | RQ_EXPECT_END_OF_BODY \<Rightarrow>
          body_type r = RQ_NO_BODY \<or> body_type r = RQ_CONTENT_LENGTH_READ \<and> body_size r = 0
      | RQ_EXPECT_END_OF_MESSAGE \<Rightarrow>
          body_type r = RQ_NO_BODY \<or> body_type r = RQ_CONTENT_LENGTH_READ \<and> body_size r = 0
      | RQ_EXPECT_CHUNK_SIZE \<Rightarrow> body_type r = RQ_CHUNKED_ENCODING_READ
      | RQ_EXPECT_CHUNK_EXT \<Rightarrow> body_type r = RQ_CHUNKED_ENCODING_READ
      | RQ_EXPECT_CRLF_AFTER_CHUNK_EXT \<Rightarrow> body_type r = RQ_CHUNKED_ENCODING_READ
      | RQ_EXPECT_CHUNK_DATA \<Rightarrow> body_type r = RQ_CHUNKED_ENCODING_READ \<and> body_size r \<noteq> 0
      | _ \<Rightarrow> body_type r = RQ_CHUNKED_ENCODING_READ \<and> body_size r = 0)"

definition rq_partial :: "request \<Rightarrow> bool" where
  "rq_partial r =
     (case state r of
        RQ_EXPECT_METHOD \<Rightarrow> list_all is_tchar (token_prefix r)
      | RQ_EXPECT_REQUEST_TARGET \<Rightarrow> list_all is_request_target_char (token_prefix r)
      | RQ_EXPECT_STATIC_STR_AFTER_TARGET \<Rightarrow>
          token_size r < length rq_static_str \<and>
          token_prefix r = take (token_size r) rq_static_str
      | RQ_EXPECT_CHUNK_EXT \<Rightarrow> list_all is_chunk_ext_char (token_prefix r)
      | RQ_EXPECT_END_OF_BODY \<Rightarrow> False
      | RQ_EXPECT_END_OF_MESSAGE \<Rightarrow> False
      | _ \<Rightarrow> token_size r = 0)"

definition rq_inv :: "request \<Rightarrow> bool" where
  "rq_inv r \<longleftrightarrow> in_range r \<and> rq_framing r \<and>
     (state r = RQ_ERRORED \<longleftrightarrow> final_error (cur_code r)) \<and>
     (cur_code r = code_error_insufficient_data \<longrightarrow> rq_partial r)"

section \<open>The cases under the invariant\<close>

named_theorems rq_case_eqs \<open>the resuming cases, as scans of the whole rest\<close>

lemma rq_method_eq [rq_case_eqs]:
  assumes "in_range r" and "list_all is_tchar (token_prefix r)"
  shows "rq_method r =
    (let n = match_loop is_tchar (rest r) in
     Return (if n = length (rest r) then r\<lparr>token_size := n\<rparr>
             else if n = 0 then rq_fail code_error_invalid_data r
             else rq_token RQ_EXPECT_SP_AFTER_METHOD code_method n r))"
  unfolding rq_method_def scan_token [OF assms] guarded_simps Let_def
  using assms(1) by (auto simp: in_range_def)

lemma rq_request_target_eq [rq_case_eqs]:
  assumes "in_range r" and "list_all is_request_target_char (token_prefix r)"
  shows "rq_request_target r =
    (let n = match_loop is_request_target_char (rest r) in
     Return (if n = length (rest r) then r\<lparr>token_size := n\<rparr>
             else if n = 0 then rq_fail code_error_invalid_data r
             else rq_token RQ_EXPECT_STATIC_STR_AFTER_TARGET code_request_target n r))"
  unfolding rq_request_target_def scan_token [OF assms] guarded_simps Let_def
  using assms(1) by (auto simp: in_range_def)

lemma rq_static_str_after_target_eq [rq_case_eqs]:
  assumes "in_range r" and "token_size r < length rq_static_str"
    and "token_prefix r = take (token_size r) rq_static_str"
  shows "rq_static_str_after_target r =
    Return (if take (length rq_static_str) (rest r) \<noteq> take (length (rest r)) rq_static_str
            then rq_fail code_error_invalid_data r
            else if length (rest r) < length rq_static_str
            then r\<lparr>token_size := length (rest r)\<rparr>
            else rq_token RQ_EXPECT_VERSION code_skip (length rq_static_str) r)"
  unfolding rq_static_str_after_target_def Let_def
    static_token [OF assms(1) less_imp_le [OF assms(2)] assms(3)] guarded_simps
  using assms(1) by (auto simp: in_range_def rq_token_def min_def)

lemma rq_chunk_ext_eq [rq_case_eqs]:
  assumes "in_range r" and "list_all is_chunk_ext_char (token_prefix r)"
  shows "rq_chunk_ext r =
    (let n = match_loop is_chunk_ext_char (rest r) in
     if n = length (rest r) then Return (r\<lparr>token_size := n\<rparr>)
     else if rest r ! n \<noteq> CHR 0x0D then Return (rq_fail code_error_invalid_data r)
     else if n = 0
     then Tail_next (r\<lparr>state := RQ_EXPECT_CRLF_AFTER_CHUNK_EXT, token_size := 0\<rparr>)
     else Return (rq_token RQ_EXPECT_CRLF_AFTER_CHUNK_EXT code_chunk_ext n r))"
  unfolding rq_chunk_ext_def scan_token [OF assms] guarded_simps Let_def
  using assms(1) by (auto simp: in_range_def rq_token_def rest_def)

section \<open>Preservation by the cases\<close>

text \<open>The situation in which \<open>next()\<close> enters its \<open>switch\<close>: no complete token, and
  data left in the buffer.\<close>

definition rq_ready :: "request \<Rightarrow> bool" where
  "rq_ready r \<longleftrightarrow> rq_inv r \<and> cur_code r = code_error_insufficient_data \<and>
     idx r < length (ibuffer r)"

definition rq_outcome_ok :: "request outcome \<Rightarrow> bool" where
  "rq_outcome_ok x =
     (case x of Return r \<Rightarrow> rq_inv r | Tail_next r \<Rightarrow> rq_ready r | Fault _ \<Rightarrow> False)"

lemma rq_outcome_ok_simps [simp]:
  "rq_outcome_ok (Return r) = rq_inv r"
  "rq_outcome_ok (Tail_next r) = rq_ready r"
  "\<not> rq_outcome_ok (Fault f)"
  by (simp_all add: rq_outcome_ok_def)

lemmas rq_inv_defs =
  rq_ready_def rq_inv_def rq_framing_def rq_partial_def in_range_def rq_settled_def

lemma rest_rq_updates [simp]:
  "rest (r\<lparr>state := s\<rparr>) = rest r"
  "rest (r\<lparr>version := v\<rparr>) = rest r"
  "rest (r\<lparr>body_type := t\<rparr>) = rest r"
  by (simp_all add: rest_def)

lemma token_prefix_rq_updates [simp]: "token_prefix (r\<lparr>state := s\<rparr>) = token_prefix r"
  by (simp add: token_prefix_def)

named_theorems rq_case_ok \<open>one preservation lemma per case\<close>

lemmas rq_step_simps = rq_inv_defs rq_token_def rq_fail_def reader_simps Let_def

lemma rq_method_ok [rq_case_ok]:
  "rq_ready r \<Longrightarrow> state r = RQ_EXPECT_METHOD \<Longrightarrow> rq_outcome_ok (rq_method r)"
  using match_loop_rest_le [of is_tchar r]
  by (auto simp: rq_step_simps rq_method_eq split: if_splits)

lemma rq_sp_after_method_ok [rq_case_ok]:
  "rq_ready r \<Longrightarrow> state r = RQ_EXPECT_SP_AFTER_METHOD \<Longrightarrow> rq_outcome_ok (rq_sp_after_method r)"
  by (auto simp: rq_step_simps rq_sp_after_method_def split: if_splits)

lemma rq_request_target_ok [rq_case_ok]:
  "rq_ready r \<Longrightarrow> state r = RQ_EXPECT_REQUEST_TARGET \<Longrightarrow> rq_outcome_ok (rq_request_target r)"
  using match_loop_rest_le [of is_request_target_char r]
  by (auto simp: rq_step_simps rq_request_target_eq split: if_splits)

lemma rq_static_str_after_target_ok [rq_case_ok]:
  "rq_ready r \<Longrightarrow> state r = RQ_EXPECT_STATIC_STR_AFTER_TARGET \<Longrightarrow> rq_outcome_ok (rq_static_str_after_target r)"
  by (auto simp: rq_step_simps rq_static_str_after_target_eq split: if_splits)

lemma rq_version_ok [rq_case_ok]:
  "rq_ready r \<Longrightarrow> state r = RQ_EXPECT_VERSION \<Longrightarrow> rq_outcome_ok (rq_version r)"
  by (auto simp: rq_step_simps rq_version_def rq_value_version_def split: if_splits)

lemma rq_crlf_after_version_ok [rq_case_ok]:
  "rq_ready r \<Longrightarrow> state r = RQ_EXPECT_CRLF_AFTER_VERSION \<Longrightarrow> rq_outcome_ok (rq_crlf_after_version r)"
  using crlf_bounds [of r]
  by (auto simp: rq_step_simps rq_crlf_after_version_def split: if_splits liberal_crlf_result.splits)

lemma rq_field_name_ok [rq_case_ok]:
  "rq_ready r \<Longrightarrow> state r = RQ_EXPECT_FIELD_NAME \<Longrightarrow> rq_outcome_ok (rq_field_name ieq r)"
  using matcher_bounds(1) [of r]
  by (auto simp: rq_step_simps rq_field_name_def rq_value_field_name_def rq_known_field_def split: if_splits rq_version_flag.splits rq_body_type.splits)

lemma rq_colon_ok [rq_case_ok]:
  "rq_ready r \<Longrightarrow> state r = RQ_EXPECT_COLON \<Longrightarrow> rq_outcome_ok (rq_colon r)"
  using match_loop_le [of is_ows "drop (Suc (idx r)) (ibuffer r)"]
  by (auto simp: rq_step_simps rq_colon_def scan_from_ok split: if_splits)

lemma rq_ows_after_colon_ok [rq_case_ok]:
  "rq_ready r \<Longrightarrow> state r = RQ_EXPECT_OWS_AFTER_COLON \<Longrightarrow> rq_outcome_ok (rq_ows_after_colon r)"
  using matcher_bounds(4) [of r]
  by (auto simp: rq_step_simps rq_ows_after_colon_def split: if_splits)

lemma rq_crlf_after_field_value_ok [rq_case_ok]:
  "rq_ready r \<Longrightarrow> state r = RQ_EXPECT_CRLF_AFTER_FIELD_VALUE \<Longrightarrow> rq_outcome_ok (rq_crlf_after_field_value r)"
  using crlf_bounds [of r]
  by (auto simp: rq_step_simps rq_crlf_after_field_value_def split: if_splits liberal_crlf_result.splits)

lemma rq_crlf_after_headers_ok [rq_case_ok]:
  "rq_ready r \<Longrightarrow> state r = RQ_EXPECT_CRLF_AFTER_HEADERS \<Longrightarrow> rq_outcome_ok (rq_crlf_after_headers r)"
  using crlf_bounds [of r]
  by (auto simp: rq_step_simps rq_crlf_after_headers_def rq_end_of_headers_def split: if_splits liberal_crlf_result.splits rq_body_type.splits)

lemma rq_body_ok [rq_case_ok]:
  "rq_ready r \<Longrightarrow> state r = RQ_EXPECT_BODY \<Longrightarrow> rq_outcome_ok (rq_body r)"
  by (auto simp: rq_step_simps rq_body_def split: if_splits)

lemma rq_chunk_size_ok [rq_case_ok]:
  "rq_ready r \<Longrightarrow> state r = RQ_EXPECT_CHUNK_SIZE \<Longrightarrow> rq_outcome_ok (rq_chunk_size r)"
  using matcher_bounds(5) [of r]
  by (auto simp: rq_step_simps rq_chunk_size_def split: if_splits prod.splits decode_result.splits)

lemma rq_chunk_ext_ok [rq_case_ok]:
  "rq_ready r \<Longrightarrow> state r = RQ_EXPECT_CHUNK_EXT \<Longrightarrow> rq_outcome_ok (rq_chunk_ext r)"
  using match_loop_rest_le [of is_chunk_ext_char r]
  by (auto simp: rq_step_simps rq_chunk_ext_eq split: if_splits)

lemma rq_crlf_after_chunk_ext_ok [rq_case_ok]:
  "rq_ready r \<Longrightarrow> state r = RQ_EXPECT_CRLF_AFTER_CHUNK_EXT \<Longrightarrow> rq_outcome_ok (rq_crlf_after_chunk_ext r)"
  using strict_crlf_cases [of "rest r"]
  by (auto simp: rq_step_simps rq_crlf_after_chunk_ext_def split: if_splits)

lemma rq_chunk_data_ok [rq_case_ok]:
  "rq_ready r \<Longrightarrow> state r = RQ_EXPECT_CHUNK_DATA \<Longrightarrow> rq_outcome_ok (rq_chunk_data r)"
  by (auto simp: rq_step_simps rq_chunk_data_def split: if_splits)

lemma rq_crlf_after_chunk_data_ok [rq_case_ok]:
  "rq_ready r \<Longrightarrow> state r = RQ_EXPECT_CRLF_AFTER_CHUNK_DATA \<Longrightarrow> rq_outcome_ok (rq_crlf_after_chunk_data r)"
  using strict_crlf_cases [of "rest r"]
  by (auto simp: rq_step_simps rq_crlf_after_chunk_data_def split: if_splits)

lemma rq_trailer_name_ok [rq_case_ok]:
  "rq_ready r \<Longrightarrow> state r = RQ_EXPECT_TRAILER_NAME \<Longrightarrow> rq_outcome_ok (rq_trailer_name r)"
  using matcher_bounds(1) [of r]
  by (auto simp: rq_step_simps rq_trailer_name_def split: if_splits)

lemma rq_trailer_colon_ok [rq_case_ok]:
  "rq_ready r \<Longrightarrow> state r = RQ_EXPECT_TRAILER_COLON \<Longrightarrow> rq_outcome_ok (rq_trailer_colon r)"
  using match_loop_le [of is_ows "drop (Suc (idx r)) (ibuffer r)"]
  by (auto simp: rq_step_simps rq_trailer_colon_def scan_from_ok split: if_splits)

lemma rq_ows_after_trailer_colon_ok [rq_case_ok]:
  "rq_ready r \<Longrightarrow> state r = RQ_EXPECT_OWS_AFTER_TRAILER_COLON \<Longrightarrow> rq_outcome_ok (rq_ows_after_trailer_colon r)"
  using matcher_bounds(4) [of r]
  by (auto simp: rq_step_simps rq_ows_after_trailer_colon_def split: if_splits)

lemma rq_trailer_value_ok [rq_case_ok]:
  "rq_ready r \<Longrightarrow> state r = RQ_EXPECT_TRAILER_VALUE \<Longrightarrow> rq_outcome_ok (rq_trailer_value r)"
  using matcher_bounds(2) [of r]
  by (auto simp: rq_step_simps rq_trailer_value_def split: if_splits)

lemma rq_crlf_after_trailer_value_ok [rq_case_ok]:
  "rq_ready r \<Longrightarrow> state r = RQ_EXPECT_CRLF_AFTER_TRAILER_VALUE \<Longrightarrow> rq_outcome_ok (rq_crlf_after_trailer_value r)"
  using strict_crlf_cases [of "rest r"]
  by (auto simp: rq_step_simps rq_crlf_after_trailer_value_def split: if_splits)

lemma rq_crlf_after_trailers_ok [rq_case_ok]:
  "rq_ready r \<Longrightarrow> state r = RQ_EXPECT_CRLF_AFTER_TRAILERS \<Longrightarrow> rq_outcome_ok (rq_crlf_after_trailers r)"
  using strict_crlf_cases [of "rest r"]
  by (auto simp: rq_step_simps rq_crlf_after_trailers_def split: if_splits)

text \<open>The field value case needs a value: on an empty one \<open>decode_field_value\<close> leaves
  its view.\<close>

lemma rq_field_value_ok:
  assumes "rq_ready r" and "state r = RQ_EXPECT_FIELD_VALUE" and "field_value_match (rest r) \<noteq> 0"
  shows "rq_outcome_ok (rq_field_value ieq r)"
  using assms matcher_bounds(2) [of r]
  by (auto simp: rq_step_simps rq_field_value_def rq_value_field_value_def rq_framing_value_def
      decode_field_value_def
      split: if_splits prod.splits decode_result.splits rq_body_type.splits
        decode_transfer_encoding_result.splits)

lemma rq_field_value_empty:
  assumes "rq_ready r" and "field_value_match (rest r) = 0"
  shows "rq_field_value ieq r = Fault Out_of_bounds"
  using assms
  by (auto simp: rq_step_simps rq_field_value_def rq_value_field_value_def decode_field_value_def)

section \<open>Preservation by next() and set\_buffer()\<close>

text \<open>The input on which \<open>next()\<close> evaluates \<open>decode_field_value\<close> on an empty view:
  after a colon, the data at hand start with an octet no field value contains.\<close>

definition rq_empty_value :: "request \<Rightarrow> bool" where
  "rq_empty_value r \<longleftrightarrow>
     state r \<in> {RQ_EXPECT_OWS_AFTER_COLON, RQ_EXPECT_FIELD_VALUE} \<and> rest (consume r) \<noteq> [] \<and>
     \<not> is_field_value_char (hd (rest (consume r)))"

lemma rq_ready_state:
  "rq_ready r \<Longrightarrow>
   state r \<noteq> RQ_ERRORED \<and> state r \<noteq> RQ_EXPECT_END_OF_BODY \<and> state r \<noteq> RQ_EXPECT_END_OF_MESSAGE"
  by (auto simp: rq_inv_defs)

lemma rq_switch_ok:
  assumes "rq_ready r" and "state r = RQ_EXPECT_FIELD_VALUE \<longrightarrow> field_value_match (rest r) \<noteq> 0"
  shows "rq_outcome_ok (rq_switch ieq r)"
  using assms rq_ready_state [OF assms(1)]
  by (cases "state r") (simp_all add: rq_switch_def rq_case_ok rq_field_value_ok)

lemmas rq_goal_splits =
  if_split liberal_crlf_result.split decode_result.split prod.split rq_version_flag.split
  rq_body_type.split decode_transfer_encoding_result.split

lemmas rq_all_simps = rq_switch_def rq_case_defs rq_token_def rq_fail_def Let_def

lemma rq_switch_frame:
  "outcome_all (\<lambda>r'. idx r' = idx r \<and> ibuffer r' = ibuffer r) (rq_switch ieq r)"
  by (cases "state r") (simp_all add: rq_all_simps split: rq_goal_splits)

text \<open>\<open>next()\<close> in the situation of its \<open>switch\<close>.\<close>

lemma rq_next_ready:
  "rq_ready r \<Longrightarrow> rq_next ieq r =
     (case rq_switch ieq r of Return r' \<Rightarrow> Inr r' | Tail_next r' \<Rightarrow> rq_next ieq r' | Fault f \<Rightarrow> Inl f)"
  using rq_ready_state [of r] by (subst rq_next.simps) (simp add: rq_ready_def)

lemma rq_field_value_match_rest:
  "rq_ready r \<Longrightarrow> field_value_match (rest r) = 0 \<longleftrightarrow> \<not> is_field_value_char (hd (rest r))"
  by (rule field_value.zero_iff) (auto simp: rq_ready_def rest_def)

lemma rq_empty_value_ready:
  "rq_ready r \<Longrightarrow> rq_empty_value r \<longleftrightarrow>
     state r \<in> {RQ_EXPECT_OWS_AFTER_COLON, RQ_EXPECT_FIELD_VALUE} \<and> field_value_match (rest r) = 0"
  by (auto simp: rq_empty_value_def rq_field_value_match_rest) (auto simp: rq_ready_def rest_def)

text \<open>Case analysis for a call of \<open>next()\<close> that enters the \<open>switch\<close>: one pass, or a
  second pass after \<open>return next();\<close>.\<close>

lemma rq_next_ready_cases:
  assumes "rq_ready r"
  obtains (once) r' where "rq_switch ieq r = Return r'" "rq_next ieq r = Inr r'" "rq_inv r'"
      "\<not> rq_empty_value r"
  | (twice) r1 r' where "rq_switch ieq r = Tail_next r1" "rq_ready r1" "rq_switch ieq r1 = Return r'"
      "rq_next ieq r = Inr r'" "rq_inv r'" "\<not> rq_empty_value r"
  | (fault) "rq_next ieq r = Inl Out_of_bounds" "rq_empty_value r"
proof (cases "rq_empty_value r")
  case True
  then have st: "state r \<in> {RQ_EXPECT_OWS_AFTER_COLON, RQ_EXPECT_FIELD_VALUE}"
    and m: "field_value_match (rest r) = 0"
    using rq_empty_value_ready [OF assms] by auto
  have "rq_next ieq r = Inl Out_of_bounds"
  proof (cases "state r = RQ_EXPECT_FIELD_VALUE")
    case True
    then show ?thesis
      using rq_field_value_empty [OF assms m] by (simp add: rq_next_ready [OF assms] rq_switch_def)
  next
    case False
    let ?r1 = "r\<lparr>state := RQ_EXPECT_FIELD_VALUE\<rparr>"
    have "ows_match (rest r) = 0"
      using m assms ows_field_value [of "hd (rest r)"] ows.zero_iff [of "rest r"]
      by (auto simp: rq_field_value_match_rest) (auto simp: rq_ready_def rest_def)
    with False st have sw: "rq_switch ieq r = Tail_next ?r1"
      by (simp add: rq_switch_def rq_ows_after_colon_def)
    with assms st have "rq_ready ?r1" using rq_switch_ok [OF assms, of ieq] False by simp
    then show ?thesis
      using rq_field_value_empty [of ?r1 ieq] m sw
      by (simp add: rq_next_ready [OF assms] rq_next_ready rq_switch_def)
  qed
  with True fault show thesis by blast
next
  case False
  then have "rq_outcome_ok (rq_switch ieq r)"
    using rq_empty_value_ready [OF assms] by (intro rq_switch_ok [OF assms]) auto
  then consider r' where "rq_switch ieq r = Return r'" "rq_inv r'"
    | r1 where "rq_switch ieq r = Tail_next r1" "rq_ready r1"
    by (cases "rq_switch ieq r") auto
  then show thesis
  proof cases
    case (1 r')
    with once False show ?thesis by (simp add: rq_next_ready [OF assms])
  next
    case (2 r1)
    note tail = rq_switch_Tail_next [OF 2(1)]
    have "rest r1 = rest r"
      using rq_switch_frame [of r ieq] 2(1) by (simp add: rest_def)
    then have "state r1 = RQ_EXPECT_FIELD_VALUE \<Longrightarrow> field_value_match (rest r1) \<noteq> 0"
      using tail False rq_empty_value_ready [OF assms] by (auto simp: rq_tail_calls_def)
    then have "rq_outcome_ok (rq_switch ieq r1)" by (intro rq_switch_ok [OF 2(2)]) simp
    moreover have "rq_switch ieq r1 \<noteq> Tail_next r2" for r2
      using tail rq_switch_Tail_next [of ieq r1 r2] rq_tail_calls_once by blast
    ultimately obtain r' where r': "rq_switch ieq r1 = Return r'" "rq_inv r'"
      by (cases "rq_switch ieq r1") auto
    have "rq_next ieq r = Inr r'" using 2 r' by (simp add: rq_next_ready assms)
    from twice [OF 2 r'(1) this r'(2) False] show ?thesis .
  qed
qed

lemma consume_rq_fields [simp]:
  "state (consume r) = state r" "version (consume r) = version r" "body_type (consume r) = body_type r"
  by (simp_all add: consume_def)

text \<open>Case analysis for any call of \<open>next()\<close> under the invariant.\<close>

lemma rq_next_cases:
  assumes "rq_inv r"
  obtains (errored) "state r = RQ_ERRORED" "rq_next ieq r = Inr r"
  | (end_of_body) "state r = RQ_EXPECT_END_OF_BODY"
      "rq_next ieq r = Inr (r\<lparr>state := RQ_EXPECT_END_OF_MESSAGE, cur_code := code_end_of_body,
         idx := idx r + token_size r, token_size := 0\<rparr>)"
  | (end_of_message) "state r = RQ_EXPECT_END_OF_MESSAGE"
      "rq_next ieq r = Inr (r\<lparr>body_type := RQ_NO_BODY, state := RQ_EXPECT_METHOD,
         cur_code := code_end_of_message, idx := idx r + token_size r, token_size := 0\<rparr>)"
  | (starved) "state r \<noteq> RQ_ERRORED" "state r \<noteq> RQ_EXPECT_END_OF_BODY"
      "state r \<noteq> RQ_EXPECT_END_OF_MESSAGE" "idx (consume r) = length (ibuffer r)"
      "rq_next ieq r = Inr (consume r)" "rq_inv (consume r)"
  | (ready) "rq_ready (consume r)" "rq_next ieq r = rq_next ieq (consume r)"
proof -
  have inv: "rq_inv (consume r)"
    if "state r \<noteq> RQ_ERRORED" "state r \<noteq> RQ_EXPECT_END_OF_BODY" "state r \<noteq> RQ_EXPECT_END_OF_MESSAGE"
    using assms that
    by (cases "cur_code r = code_error_insufficient_data")
       (auto simp: rq_inv_defs consume_def token_prefix_def rq_static_str_def split: rq_state.splits)
  consider "state r = RQ_ERRORED" | "state r = RQ_EXPECT_END_OF_BODY"
    | "state r = RQ_EXPECT_END_OF_MESSAGE"
    | "state r \<noteq> RQ_ERRORED" "state r \<noteq> RQ_EXPECT_END_OF_BODY" "state r \<noteq> RQ_EXPECT_END_OF_MESSAGE"
    by blast
  then show thesis
  proof cases
    case 4
    show ?thesis
    proof (cases "idx (consume r) = length (ibuffer r)")
      case True
      with 4 inv show ?thesis
        by (intro starved) (simp_all add: rq_next.simps [of ieq r])
    next
      case False
      with 4 inv have "rq_ready (consume r)"
        using assms consume_idx_le [of r] by (simp add: rq_ready_def rq_inv_def in_range_def)
      with 4 False show ?thesis
        by (intro ready) (simp_all add: rq_next.simps [of ieq r] rq_next_ready)
    qed
  qed (simp_all add: errored end_of_body end_of_message rq_next.simps [of ieq r])
qed

lemma rq_next_inv:
  assumes "rq_inv r" and "rq_next ieq r = Inr r'"
  shows "rq_inv r'"
  using assms(1)
proof (cases rule: rq_next_cases [where ieq = ieq])
  case ready
  then show ?thesis
    using assms(2) by (cases rule: rq_next_ready_cases [OF ready(1), of ieq]) auto
qed (use assms in \<open>auto simp: rq_inv_defs\<close>)

lemma rq_next_fault_iff:
  assumes "rq_inv r"
  shows "rq_next ieq r = Inl f \<longleftrightarrow> f = Out_of_bounds \<and> rq_empty_value r"
  using assms
proof (cases rule: rq_next_cases [where ieq = ieq])
  case starved
  then have "rest (consume r) = []" by (simp add: rest_def)
  with starved show ?thesis by (simp add: rq_empty_value_def)
next
  case ready
  have "rq_empty_value (consume r) = rq_empty_value r" by (simp add: rq_empty_value_def)
  with ready show ?thesis by (cases rule: rq_next_ready_cases [OF ready(1), of ieq]) auto
qed (auto simp: rq_empty_value_def)

lemma rq_next_frame:
  assumes "rq_inv r" and "rq_next ieq r = Inr r'"
  shows "ibuffer r' = ibuffer r \<and> idx r' = (if state r = RQ_ERRORED then idx r else idx (consume r))"
  using assms(1)
proof (cases rule: rq_next_cases [where ieq = ieq])
  case ready
  note frame = rq_switch_frame [THEN outcome_allD]
  have "state r \<noteq> RQ_ERRORED" using rq_ready_state [OF ready(1)] by simp
  then show ?thesis
    using assms(2) ready(2) frame
    by (cases rule: rq_next_ready_cases [OF ready(1), of ieq]) fastforce+
qed (use assms in \<open>auto simp: consume_def rq_inv_defs\<close>)

lemma rq_rebuffer_inv:
  "rq_inv r \<Longrightarrow> keeps_token buf r \<Longrightarrow> rq_inv (r\<lparr>ibuffer := buf, idx := 0\<rparr>)"
  by (auto simp: rq_inv_defs keeps_token_def token_prefix_def rest_def split: rq_state.splits)

lemma rq_set_buffer_inv:
  assumes "rq_inv r" and "keeps_token buf r" and "rq_set_buffer ieq buf r = Inr r'"
  shows "rq_inv r'"
  using assms(3) rq_rebuffer_inv [OF assms(1,2)] rq_next_inv
  by (auto simp: rq_set_buffer_def Let_def split: if_splits)

lemma rq_new_inv: "rq_inv (rq_new v n)"
  by (simp add: rq_new_def rq_inv_defs token_prefix_def rest_def)

lemma rq_reset_inv: "rq_inv (rq_reset r)"
  by (simp add: rq_reset_def rq_inv_defs token_prefix_def rest_def)

end
