(* ===== verification/Request_Resume.thy ===== *)
theory Request_Resume
  imports Request_Inv
begin

text \<open>
  The request reader is incremental: what it reports depends on the octets from the current
  position on, not on where the buffer starts nor on how much of a token was scanned by earlier
  calls. The relation \<open>rq_sim\<close> identifies readers that differ only in these respects; it is
  preserved by \<open>next()\<close>. From it follows that running out of data in the middle of a token
  and resuming with a longer buffer is the same as having had the longer buffer at once.
\<close>

section \<open>The cases as functions of the rest\<close>

lemma ready_rest_hd:
  "rq_ready r \<Longrightarrow> byte_at (ibuffer r) (idx r) = Inr (hd (rest r))"
  by (simp add: rq_ready_def rest_def hd_drop_conv_nth)

lemma rq_sp_after_method_eq [rq_case_eqs]:
  "rq_ready r \<Longrightarrow> rq_sp_after_method r =
     Return (if is_sp (hd (rest r)) then rq_token RQ_EXPECT_REQUEST_TARGET code_skip 1 r
             else rq_fail code_error_invalid_data r)"
  by (simp add: rq_sp_after_method_def ready_rest_hd)

lemma rq_version_eq [rq_case_eqs]:
  assumes "rq_ready r"
  shows "rq_version r =
     Return (if isdigit (hd (rest r))
             then (rq_token RQ_EXPECT_CRLF_AFTER_VERSION code_version 1 r)
               \<lparr>version := (if hd (rest r) = CHR ''0'' then RQ_HTTP_1_0
                            else RQ_NOT_HTTP_1_0_AND_HOST_NOT_READ)\<rparr>
             else rq_fail code_error_invalid_data r)"
proof -
  have "(int (byte c) - int (byte (CHR ''0'')) = 0) = (c = CHR ''0'')" for c
    by (simp add: char_eq_byte)
  then show ?thesis
    using ready_rest_hd [OF assms]
    by (simp add: rq_version_def rq_value_version_def rq_token_def isdigit_def Let_def not_less)
qed

lemma rq_field_name_eq [rq_case_eqs]:
  assumes "rq_ready r"
  shows "rq_field_name ieq r =
     (let n = field_name_match (rest r) in
      if n = 0 then Tail_next (r\<lparr>state := RQ_EXPECT_CRLF_AFTER_HEADERS\<rparr>)
      else if n = length (rest r) then Return r
      else rq_known_field ieq (take n (rest r)) (rq_token RQ_EXPECT_COLON code_field_name n r))"
  using assms matcher_bounds(1) [of r]
  by (simp add: rq_field_name_def rq_value_field_name_def rq_token_def Let_def rq_ready_def)
     (simp add: rest_def)

lemma colon_scan:
  assumes "rq_ready r"
  shows "scan_from is_ows (ibuffer r) (idx r + 1) = Inr (idx r + 1 + match_loop is_ows (tl (rest r)))"
    and "idx r + 1 + match_loop is_ows (tl (rest r)) = length (ibuffer r) \<longleftrightarrow>
         list_all is_ows (tl (rest r))"
proof -
  show "scan_from is_ows (ibuffer r) (idx r + 1) = Inr (idx r + 1 + match_loop is_ows (tl (rest r)))"
    using assms by (simp add: rq_ready_def scan_from_ok rest_def tl_drop drop_Suc)
  have "length (ibuffer r) = idx r + 1 + length (tl (rest r))"
    using assms unfolding rq_ready_def length_tl rest_length by linarith
  then show "idx r + 1 + match_loop is_ows (tl (rest r)) = length (ibuffer r) \<longleftrightarrow>
      list_all is_ows (tl (rest r))"
    unfolding list_all_iff match_loop_full [symmetric] by linarith
qed

lemma rq_colon_eq [rq_case_eqs]:
  "rq_ready r \<Longrightarrow> rq_colon r =
     Return (if hd (rest r) \<noteq> CHR '':'' then rq_fail code_error_invalid_data r
             else rq_token (if list_all is_ows (tl (rest r)) then RQ_EXPECT_OWS_AFTER_COLON
                            else RQ_EXPECT_FIELD_VALUE)
                    code_skip (1 + match_loop is_ows (tl (rest r))) r)"
  using colon_scan [of r] by (simp add: rq_colon_def ready_rest_hd)

lemma rq_trailer_colon_eq [rq_case_eqs]:
  "rq_ready r \<Longrightarrow> rq_trailer_colon r =
     Return (if hd (rest r) \<noteq> CHR '':'' then rq_fail code_error_invalid_data r
             else rq_token (if list_all is_ows (tl (rest r)) then RQ_EXPECT_OWS_AFTER_TRAILER_COLON
                            else RQ_EXPECT_TRAILER_VALUE)
                    code_skip (1 + match_loop is_ows (tl (rest r))) r)"
  using colon_scan [of r] by (simp add: rq_trailer_colon_def ready_rest_hd)

lemma rq_field_value_eq [rq_case_eqs]:
  assumes "rq_ready r"
  shows "rq_field_value ieq r =
     (let n = field_value_match (rest r) in
      if n = length (rest r) then Return r
      else guarded (decode_field_value (take n (rest r))) (\<lambda>field.
        Return (rq_framing_value ieq field
          (rq_token RQ_EXPECT_CRLF_AFTER_FIELD_VALUE code_field_value n r))))"
  using assms matcher_bounds(2) [of r]
  by (simp add: rq_field_value_def rq_value_field_value_def rq_token_def Let_def rq_ready_def)
     (simp add: rest_def)

section \<open>Readers at the same point of the stream\<close>

text \<open>Same control state, same octets ahead; the size matters only for a complete token.\<close>

definition rq_sim :: "request \<Rightarrow> request \<Rightarrow> bool" where
  "rq_sim r s \<longleftrightarrow>
     state r = state s \<and> cur_code r = cur_code s \<and> version r = version s \<and>
     body_type r = body_type s \<and> body_size r = body_size s \<and> rest r = rest s \<and>
     (symbol_convert (cur_code r) \<noteq> symbol_error \<longrightarrow> token_size r = token_size s)"

lemma rq_sim_refl [simp]: "rq_sim r r"
  by (simp add: rq_sim_def)

lemma rq_sim_updates [intro!, simp]:
  "rq_sim r s \<Longrightarrow> rq_sim (r\<lparr>state := x\<rparr>) (s\<lparr>state := x\<rparr>)"
  "rq_sim r s \<Longrightarrow> rq_sim (r\<lparr>version := v\<rparr>) (s\<lparr>version := v\<rparr>)"
  "rq_sim r s \<Longrightarrow> rq_sim (r\<lparr>body_type := t\<rparr>) (s\<lparr>body_type := t\<rparr>)"
  "rq_sim r s \<Longrightarrow> rq_sim (r\<lparr>body_size := n\<rparr>) (s\<lparr>body_size := n\<rparr>)"
  "rq_sim r s \<Longrightarrow>
   rq_sim (r\<lparr>cur_code := c, token_size := k\<rparr>) (s\<lparr>cur_code := c, token_size := k\<rparr>)"
  "rq_sim r s \<Longrightarrow>
   rq_sim (r\<lparr>token_size := k, state := x, cur_code := c\<rparr>)
          (s\<lparr>token_size := k, state := x, cur_code := c\<rparr>)"
  "rq_sim r s \<Longrightarrow> rq_sim (rq_token x c k r) (rq_token x c k s)"
  "rq_sim r s \<Longrightarrow> final_error c \<Longrightarrow> rq_sim (rq_fail c r) (rq_fail c s)"
  by (simp_all add: rq_sim_def rq_token_def rq_fail_def final_error_def)

lemma rq_sim_token_size [simp]:
  "rq_sim r s \<Longrightarrow> rq_sim (r\<lparr>token_size := k\<rparr>) (s\<lparr>token_size := k\<rparr>)"
  by (simp add: rq_sim_def)

lemma rq_known_field_sim [intro!, simp]:
  assumes "rq_sim r s"
  shows "rel_outcome rq_sim (rq_known_field ieq f r) (rq_known_field ieq f s)"
proof -
  have "version r = version s" "body_type r = body_type s" using assms by (simp_all add: rq_sim_def)
  then show ?thesis
    using assms unfolding rq_known_field_def
    by (auto split: rq_version_flag.split rq_body_type.split)
qed

lemma rq_framing_value_sim [intro!, simp]:
  assumes "rq_sim r s"
  shows "rq_sim (rq_framing_value ieq f r) (rq_framing_value ieq f s)"
proof -
  have "body_size r = body_size s" "body_type r = body_type s" using assms by (simp_all add: rq_sim_def)
  then show ?thesis
    using assms unfolding rq_framing_value_def Let_def
    by (auto split: rq_body_type.split prod.split decode_result.split
        decode_transfer_encoding_result.split)
qed

lemma rel_guarded [intro!]:
  "(\<And>a. rel_outcome R (f a) (g a)) \<Longrightarrow> rel_outcome R (guarded x f) (guarded x g)"
  by (cases x) auto

lemmas rq_rest_defs =
  rq_crlf_after_version_def rq_ows_after_colon_def rq_crlf_after_field_value_def
  rq_end_of_headers_def rq_crlf_after_headers_def rq_body_def rq_chunk_size_def
  rq_crlf_after_chunk_ext_def rq_chunk_data_def rq_crlf_after_chunk_data_def rq_trailer_name_def
  rq_ows_after_trailer_colon_def rq_trailer_value_def rq_crlf_after_trailer_value_def
  rq_crlf_after_trailers_def

lemma rq_switch_sim:
  assumes "rq_ready r" and "rq_ready s" and "rq_sim r s"
  shows "rel_outcome rq_sim (rq_switch ieq r) (rq_switch ieq s)"
proof -
  have rs: "rest r = rest s" and st: "state r = state s" and bs: "body_size r = body_size s"
    and bt: "body_type r = body_type s" and vs: "version r = version s"
    and cc: "cur_code r = code_error_insufficient_data" "cur_code s = code_error_insufficient_data"
    using assms by (auto simp: rq_sim_def rq_ready_def)
  note prems = assms rs st bs bt vs cc
  show ?thesis
  proof (cases "state s \<in> {RQ_EXPECT_METHOD, RQ_EXPECT_REQUEST_TARGET,
      RQ_EXPECT_STATIC_STR_AFTER_TARGET, RQ_EXPECT_CHUNK_EXT}")
    case True
    then show ?thesis
      using prems assms(1,2) [unfolded rq_ready_def rq_inv_def rq_partial_def]
      by (auto simp: rq_switch_def rq_case_eqs Let_def simp del: rest_length)
  next
    case False
    then show ?thesis using prems
      by (cases "state s")
         (auto simp: rq_switch_def rq_case_eqs rq_rest_defs Let_def simp del: rest_length
           split: liberal_crlf_result.split decode_result.split prod.split rq_body_type.split)
  qed
qed

text \<open>\<open>next()\<close> preserves the relation.\<close>

lemma rq_next_ready_sim:
  assumes "rq_ready r" and "rq_ready s" and "rq_sim r s"
  shows "rel_sum (=) rq_sim (rq_next ieq r) (rq_next ieq s)"
  using assms(1)
proof (cases rule: rq_next_ready_cases [where ieq = ieq])
  case (once r')
  then obtain s' where "rq_switch ieq s = Return s'" "rq_sim r' s'"
    using rq_switch_sim [OF assms, of ieq] by (cases "rq_switch ieq s") auto
  with once show ?thesis by (simp add: rq_next_ready [OF assms(2)])
next
  case (twice r1 r')
  then obtain s1 where s1: "rq_switch ieq s = Tail_next s1" "rq_sim r1 s1"
    using rq_switch_sim [OF assms, of ieq] by (cases "rq_switch ieq s") auto
  have "rq_empty_value s = rq_empty_value r"
    using assms by (simp add: rq_empty_value_ready) (simp add: rq_sim_def)
  with twice s1 have ready: "rq_ready s1"
    using rq_switch_ok [OF assms(2), of ieq] rq_empty_value_ready [OF assms(2)]
    by (auto simp: rq_switch_def)
  obtain s' where "rq_switch ieq s1 = Return s'" "rq_sim r' s'"
    using rq_switch_sim [OF twice(2) ready s1(2), of ieq] twice(3) by (cases "rq_switch ieq s1") auto
  with twice s1 ready show ?thesis by (simp add: rq_next_ready [OF assms(2)] rq_next_ready)
next
  case fault
  then have "rq_empty_value s"
    using assms by (simp add: rq_empty_value_ready) (simp add: rq_sim_def)
  then have "rq_next ieq s = Inl Out_of_bounds"
    using assms(2) by (simp add: rq_next_fault_iff rq_ready_def)
  with fault show ?thesis by simp
qed

lemma rq_consume_sim: "rq_sim r s \<Longrightarrow> in_range r \<Longrightarrow> in_range s \<Longrightarrow> \<not> final_error (cur_code r) \<Longrightarrow>
  rq_sim (consume r) (consume s)"
  by (auto simp: rq_sim_def rest_consume final_error_def)

text \<open>The two zero-sized tokens.\<close>

lemma rq_next_end_sim:
  assumes "rq_inv r" and "rq_inv s" and "rq_sim r s"
    and "state r \<in> {RQ_EXPECT_END_OF_BODY, RQ_EXPECT_END_OF_MESSAGE}"
  shows "rel_sum (=) rq_sim (rq_next ieq r) (rq_next ieq s)"
proof -
  have "symbol_convert (cur_code r) \<noteq> symbol_error"
    using assms(1,4) by (auto simp: rq_inv_defs final_error_def)
  then have size: "token_size r = token_size s" and st: "state s = state r"
    using assms(3) by (simp_all add: rq_sim_def)
  from assms(3) have "rest r = rest s" by (simp add: rq_sim_def)
  then have "drop (idx r + token_size r) (ibuffer r) = drop (idx s + token_size s) (ibuffer s)"
    by (simp add: rest_advance size)
  with assms(3,4) st show ?thesis
    by (auto simp: rq_next.simps [of ieq r] rq_next.simps [of ieq s] rq_sim_def)
       (simp_all add: rest_def)
qed

lemma rq_next_sim:
  assumes "rq_inv r" and "rq_inv s" and "rq_sim r s"
  shows "rel_sum (=) rq_sim (rq_next ieq r) (rq_next ieq s)"
proof (cases "state r \<in> {RQ_EXPECT_END_OF_BODY, RQ_EXPECT_END_OF_MESSAGE}")
  case True
  with assms show ?thesis by (rule rq_next_end_sim)
next
  case False
  have st: "state s = state r" using assms(3) by (simp add: rq_sim_def)
  show ?thesis
  proof (cases "state r = RQ_ERRORED")
    case True
    with assms st show ?thesis by (simp add: rq_next.simps [of ieq r] rq_next.simps [of ieq s])
  next
    case run: False
    then have sim: "rq_sim (consume r) (consume s)"
      using assms by (intro rq_consume_sim) (auto simp: rq_inv_def)
    then have "rest (consume r) = rest (consume s)" by (simp add: rq_sim_def)
    then have len: "length (ibuffer r) - idx (consume r) = length (ibuffer s) - idx (consume s)"
      by (metis consume_fields(2) rest_length)
    have le: "idx (consume r) \<le> length (ibuffer r)" "idx (consume s) \<le> length (ibuffer s)"
      using assms consume_idx_le [of r] consume_idx_le [of s]
      by (simp_all add: rq_inv_def in_range_def)
    from assms(1) show ?thesis
    proof (cases rule: rq_next_cases [where ieq = ieq])
      case starved
      with len le have "idx (consume s) = length (ibuffer s)" by simp
      with run False st have "rq_next ieq s = Inr (consume s)"
        by (simp add: rq_next.simps [of ieq s])
      with starved sim show ?thesis by simp
    next
      case ready
      with len le have "idx (consume s) \<noteq> length (ibuffer s)"
        unfolding rq_ready_def consume_fields by linarith
      with assms(2) obtain "rq_ready (consume s)" "rq_next ieq s = rq_next ieq (consume s)"
        using run False st by (cases rule: rq_next_cases [where ieq = ieq]) auto
      with ready sim show ?thesis by (simp add: rq_next_ready_sim)
    qed (use run False in auto)
  qed
qed

section \<open>Running out of data and resuming\<close>

text \<open>A call that ends without a token only records how far it scanned.\<close>

lemma token_size_id [simp]: "r\<lparr>token_size := token_size r\<rparr> = (r :: request)"
  by (cases r) simp

lemma rq_known_field_code:
  "rq_known_field ieq f r = Return r' \<Longrightarrow> cur_code r \<noteq> code_error_insufficient_data \<Longrightarrow>
   cur_code r' \<noteq> code_error_insufficient_data"
  by (auto simp: rq_known_field_def rq_fail_def split: if_splits rq_version_flag.splits rq_body_type.splits)

lemma rq_framing_value_code:
  "cur_code r \<noteq> code_error_insufficient_data \<Longrightarrow>
   cur_code (rq_framing_value ieq f r) \<noteq> code_error_insufficient_data"
  by (auto simp: rq_framing_value_def rq_fail_def Let_def
      split: rq_body_type.split prod.split decode_result.split decode_transfer_encoding_result.split)

lemma rq_switch_starved:
  assumes "rq_ready r" and "rq_switch ieq r = Return r'"
    and "cur_code r' = code_error_insufficient_data"
  shows "\<exists>n. r' = r\<lparr>token_size := n\<rparr>"
proof (cases "state r \<in> {RQ_EXPECT_METHOD, RQ_EXPECT_REQUEST_TARGET,
    RQ_EXPECT_STATIC_STR_AFTER_TARGET, RQ_EXPECT_CHUNK_EXT}")
  case True
  then show ?thesis
    using assms assms(1) [unfolded rq_ready_def rq_inv_def rq_partial_def]
    by (auto simp: rq_switch_def rq_case_eqs Let_def rq_fail_def rq_token_def split: if_splits)
next
  case False
  have "\<exists>n. r = r\<lparr>token_size := n\<rparr>" by (rule exI [of _ "token_size r"]) simp
  with False show ?thesis
    using assms
    by (cases "state r")
       (auto simp: rq_switch_def rq_case_eqs rq_rest_defs Let_def rq_fail_def rq_token_def guarded_Return
         rq_framing_value_code
         dest: rq_known_field_code
         split: if_splits liberal_crlf_result.splits decode_result.splits prod.splits rq_body_type.splits)
qed

text \<open>More data behind the buffer do not change the decision to go on to another state.\<close>

lemma rq_inv_more: "rq_inv r \<Longrightarrow> rq_inv (r\<lparr>ibuffer := ibuffer r @ d\<rparr>)"
  using token_prefix_more [of r d]
  by (auto simp: rq_inv_def rq_framing_def rq_partial_def split: rq_state.splits)
     (simp_all add: in_range_def)

lemma rq_known_field_Tail_next [simp]: "rq_known_field ieq f r \<noteq> Tail_next r'"
  by (auto simp: rq_known_field_def split: if_splits rq_version_flag.splits rq_body_type.splits)

lemma rq_switch_tail_more:
  assumes "rq_ready r" and "rq_switch ieq r = Tail_next r1"
  shows "rq_switch ieq (r\<lparr>ibuffer := ibuffer r @ d\<rparr>) = Tail_next (r1\<lparr>ibuffer := ibuffer r @ d\<rparr>)"
proof -
  let ?r = "r\<lparr>ibuffer := ibuffer r @ d\<rparr>"
  have inv: "rq_inv r" and range: "in_range r" and ne: "rest r \<noteq> []"
    using assms(1) by (auto simp: rq_ready_def rq_inv_def rest_def)
  have ready: "rq_ready ?r" using assms(1) rq_inv_more [of r d] by (simp add: rq_ready_def)
  note rest = rest_more [OF range, of d]
  show ?thesis
  proof (cases "state r = RQ_EXPECT_CHUNK_EXT")
    case True
    then have "list_all is_chunk_ext_char (token_prefix r)" "list_all is_chunk_ext_char (token_prefix ?r)"
      and "in_range ?r"
      using assms(1) ready by (auto simp: rq_ready_def rq_inv_def rq_partial_def)
    note eqs = rq_chunk_ext_eq [OF range this(1)] rq_chunk_ext_eq [OF this(3,2)]
    have "match_loop is_chunk_ext_char (rest r) = 0"
      using assms(2) True by (auto simp: rq_switch_def eqs Let_def split: if_splits)
    then have "match_loop is_chunk_ext_char (rest r @ d) = 0"
      using ne by (simp add: match_loop_zero)
    with assms(2) True ne show ?thesis
      by (auto simp: rq_switch_def eqs Let_def rest nth_append split: if_splits)
  next
    case False
    then show ?thesis
      using rq_switch_Tail_next [OF assms(2)] assms rest ne
       field_name.zero_more_data [of "rest r" d] ows.zero_more_data [of "rest r" d]
      by (auto simp: rq_tail_calls_def rq_switch_def rq_field_name_eq rq_ows_after_colon_def
          rq_trailer_name_def rq_ows_after_trailer_colon_def ready Let_def split: if_splits)
  qed
qed

text \<open>The part of \<open>next()\<close> in front of the \<open>switch\<close> is idempotent.\<close>

lemma rq_next_consume:
  assumes "state r \<notin> {RQ_ERRORED, RQ_EXPECT_END_OF_BODY, RQ_EXPECT_END_OF_MESSAGE}"
  shows "rq_next ieq (consume r) = rq_next ieq r"
  using assms by (simp add: rq_next.simps [of ieq r] rq_next.simps [of ieq "consume r"])

text \<open>A reader stopped in a token, given the rest of its buffer and more, is where a reader with
  the longer buffer is.\<close>

lemma rq_refill_sim:
  assumes "rq_inv s" and "cur_code s = code_error_insufficient_data"
    and "rq_inv (s\<lparr>token_size := n\<rparr>)"
  shows "rel_sum (=) rq_sim (rq_next ieq (s\<lparr>ibuffer := ibuffer s @ d\<rparr>))
           (rq_set_buffer ieq (rest s @ d) (s\<lparr>token_size := n\<rparr>))"
proof -
  let ?s = "s\<lparr>ibuffer := ibuffer s @ d\<rparr>"
  let ?t = "s\<lparr>token_size := n, ibuffer := rest s @ d, idx := 0\<rparr>"
  have range: "in_range (s\<lparr>token_size := n\<rparr>)" using assms(3) by (simp add: rq_inv_def)
  then have "n \<le> length (rest s)" by (simp add: in_range_def)
  then have "keeps_token (rest s @ d) (s\<lparr>token_size := n\<rparr>)" by (simp add: keeps_token_def)
  from rq_rebuffer_inv [OF assms(3) this] have t: "rq_inv ?t" .
  have "rest ?t = rest s @ d" by (simp add: rest_def)
  moreover have "rest ?s = rest s @ d" using assms(1) by (intro rest_more) (simp add: rq_inv_def)
  ultimately have "rq_sim ?s ?t" using assms(2) by (simp add: rq_sim_def)
  with rq_inv_more [OF assms(1)] t show ?thesis
    using assms(2) rq_next_sim by (simp add: rq_set_buffer_def)
qed

lemma rq_next_ready_resume:
  assumes "rq_ready s" and "rq_next ieq s = Inr r1" and "cur_code r1 = code_error_insufficient_data"
  shows "rel_sum (=) rq_sim (rq_next ieq (s\<lparr>ibuffer := ibuffer s @ d\<rparr>))
           (rq_set_buffer ieq (rest r1 @ d) r1)"
  using assms(1)
proof (cases rule: rq_next_ready_cases [where ieq = ieq])
  case (once r')
  then have "r' = r1" using assms(2) by simp
  with once assms rq_switch_starved [OF assms(1), of ieq r1] obtain n where "r1 = s\<lparr>token_size := n\<rparr>"
    by blast
  with once \<open>r' = r1\<close> assms(1) rq_refill_sim [of s n ieq d] show ?thesis by (simp add: rq_ready_def)
next
  case (twice s1 r')
  then have "r' = r1" using assms(2) by simp
  with twice assms rq_switch_starved [OF twice(2), of ieq r1] obtain n where n: "r1 = s1\<lparr>token_size := n\<rparr>"
    by blast
  have "ibuffer s1 = ibuffer s" using rq_switch_frame [of s ieq] twice(1) by simp
  moreover have "rq_ready (s\<lparr>ibuffer := ibuffer s @ d\<rparr>)"
    using assms(1) rq_inv_more [of s d] by (simp add: rq_ready_def)
  ultimately have "rq_next ieq (s\<lparr>ibuffer := ibuffer s @ d\<rparr>) = rq_next ieq (s1\<lparr>ibuffer := ibuffer s1 @ d\<rparr>)"
    using rq_switch_tail_more [OF assms(1) twice(1), of d] by (simp add: rq_next_ready)
  with n twice \<open>r' = r1\<close> rq_refill_sim [of s1 n ieq d] show ?thesis by (simp add: rq_ready_def)
next
  case fault
  with assms(2) show ?thesis by simp
qed

lemma rq_next_resume:
  assumes "rq_inv r" and "rq_next ieq r = Inr r1" and "cur_code r1 = code_error_insufficient_data"
  shows "rel_sum (=) rq_sim (rq_next ieq (r\<lparr>ibuffer := ibuffer r @ d\<rparr>))
           (rq_set_buffer ieq (rest r1 @ d) r1)"
  using assms(1)
proof (cases rule: rq_next_cases [where ieq = ieq])
  case starved
  then have r1: "r1 = consume r" using assms(2) by simp
  have "rq_next ieq (r\<lparr>ibuffer := ibuffer r @ d\<rparr>) = rq_next ieq (consume r\<lparr>ibuffer := ibuffer r @ d\<rparr>)"
    using starved rq_next_consume [of "r\<lparr>ibuffer := ibuffer r @ d\<rparr>" ieq] by (simp add: consume_more)
  then show ?thesis
    using rq_refill_sim [of "consume r" "token_size (consume r)" ieq d] starved(6) by (simp add: r1)
next
  case ready
  note st = rq_ready_state [OF ready(1)]
  have "rq_next ieq (r\<lparr>ibuffer := ibuffer r @ d\<rparr>) = rq_next ieq (consume r\<lparr>ibuffer := ibuffer r @ d\<rparr>)"
    using st rq_next_consume [of "r\<lparr>ibuffer := ibuffer r @ d\<rparr>" ieq] by (simp add: consume_more)
  then show ?thesis
    using rq_next_ready_resume [OF ready(1), of ieq r1 d] ready(2) assms by simp
next
  case errored
  with assms show ?thesis by (auto simp: rq_inv_def final_error_def)
qed (use assms in auto)

end
