(* ===== verification/Message_Grammar.thy ===== *)
theory Message_Grammar
  imports Token
begin

text \<open>
  The abstract order of tokens both readers promise (the state diagrams of
  \<open>doc/ref/reader_request.adoc\<close> and \<open>doc/ref/reader_response.adoc\<close>): a start line,
  fields, the end of the header section, the body, its end, trailers, the end of the message.
  It is given twice, as an automaton over symbols and as the set of symbol sequences of one
  message, and the two are shown to agree. Errors and skips are not symbols of the message.
\<close>

section \<open>The automaton\<close>

datatype phase =
    Start_line "symbol list"
  | In_fields
  | In_value
  | In_body
  | In_trailers
  | In_trailer_value

text \<open>\<open>line\<close> holds the symbols of a start line; \<open>Start_line ss\<close> is the phase in which
  the symbols \<open>ss\<close> of it are still to come.\<close>

inductive grammar_step :: "symbol list \<Rightarrow> phase \<Rightarrow> symbol \<Rightarrow> phase \<Rightarrow> bool" for line where
  start_last: "grammar_step line (Start_line [s]) s In_fields"
| start: "grammar_step line (Start_line (s # t # ss)) s (Start_line (t # ss))"
| field_name: "grammar_step line In_fields symbol_field_name In_value"
| field_value: "grammar_step line In_value symbol_field_value In_fields"
| end_of_headers: "grammar_step line In_fields symbol_end_of_headers In_body"
| body_chunk: "grammar_step line In_body symbol_body_chunk In_body"
| chunk_ext: "grammar_step line In_body symbol_chunk_ext In_body"
| end_of_body: "grammar_step line In_body symbol_end_of_body In_trailers"
| trailer_name: "grammar_step line In_trailers symbol_trailer_name In_trailer_value"
| trailer_value: "grammar_step line In_trailer_value symbol_trailer_value In_trailers"
| end_of_message: "grammar_step line In_trailers symbol_end_of_message (Start_line line)"

inductive_simps grammar_step_simps [simp]:
  "grammar_step line (Start_line []) s q"
  "grammar_step line (Start_line (t # ss)) s q"
  "grammar_step line In_fields s q"
  "grammar_step line In_value s q"
  "grammar_step line In_body s q"
  "grammar_step line In_trailers s q"
  "grammar_step line In_trailer_value s q"

inductive grammar_path :: "symbol list \<Rightarrow> phase \<Rightarrow> symbol list \<Rightarrow> phase \<Rightarrow> bool" for line where
  path_nil: "grammar_path line p [] p"
| path_cons: "grammar_step line p s q \<Longrightarrow> grammar_path line q ss t \<Longrightarrow> grammar_path line p (s # ss) t"

inductive_simps grammar_path_simps [simp]:
  "grammar_path line p [] q"
  "grammar_path line p (s # ss) q"

inductive_cases grammar_path_consE: "grammar_path line p (s # ss) q"

lemma grammar_path_append:
  "grammar_path line p (xs @ ys) t \<longleftrightarrow> (\<exists>q. grammar_path line p xs q \<and> grammar_path line q ys t)"
  by (induction xs arbitrary: p) auto

lemma grammar_step_deterministic:
  "grammar_step line p s q \<Longrightarrow> grammar_step line p s q' \<Longrightarrow> q = q'"
  by (induction rule: grammar_step.induct) auto

section \<open>The messages\<close>

fun pairs :: "symbol \<Rightarrow> symbol \<Rightarrow> nat \<Rightarrow> symbol list" where
  "pairs a b 0 = []"
| "pairs a b (Suc n) = a # b # pairs a b n"

abbreviation fields :: "nat \<Rightarrow> symbol list" where
  "fields \<equiv> pairs symbol_field_name symbol_field_value"

abbreviation trailers :: "nat \<Rightarrow> symbol list" where
  "trailers \<equiv> pairs symbol_trailer_name symbol_trailer_value"

definition is_body :: "symbol list \<Rightarrow> bool" where
  "is_body b \<longleftrightarrow> set b \<subseteq> {symbol_body_chunk, symbol_chunk_ext}"

text \<open>What may follow in each phase, up to the end of the message.\<close>

definition tail_trailers :: "symbol list \<Rightarrow> bool" where
  "tail_trailers xs \<longleftrightarrow> (\<exists>n. xs = trailers n @ [symbol_end_of_message])"

definition tail_body :: "symbol list \<Rightarrow> bool" where
  "tail_body xs \<longleftrightarrow> (\<exists>b ys. xs = b @ symbol_end_of_body # ys \<and> is_body b \<and> tail_trailers ys)"

definition tail_fields :: "symbol list \<Rightarrow> bool" where
  "tail_fields xs \<longleftrightarrow> (\<exists>n ys. xs = fields n @ symbol_end_of_headers # ys \<and> tail_body ys)"

text \<open>The symbols of one message with the given start line.\<close>

definition is_message :: "symbol list \<Rightarrow> symbol list \<Rightarrow> bool" where
  "is_message line xs \<longleftrightarrow>
     (\<exists>nf body nt. xs = line @ fields nf @ [symbol_end_of_headers] @ body @
        [symbol_end_of_body] @ trailers nt @ [symbol_end_of_message] \<and> is_body body)"

fun tail_of :: "phase \<Rightarrow> symbol list \<Rightarrow> bool" where
  "tail_of (Start_line ss) xs = (\<exists>ys. xs = ss @ ys \<and> tail_fields ys)"
| "tail_of In_fields xs = tail_fields xs"
| "tail_of In_value xs = (\<exists>ys. xs = symbol_field_value # ys \<and> tail_fields ys)"
| "tail_of In_body xs = tail_body xs"
| "tail_of In_trailers xs = tail_trailers xs"
| "tail_of In_trailer_value xs = (\<exists>ys. xs = symbol_trailer_value # ys \<and> tail_trailers ys)"

lemma is_message_tail: "is_message line xs \<longleftrightarrow> tail_of (Start_line line) xs"
  by (auto simp: is_message_def tail_fields_def tail_body_def tail_trailers_def) blast+

section \<open>Automaton and messages agree\<close>

lemma tail_introductions:
  "tail_trailers [symbol_end_of_message]"
  "tail_trailers ys \<Longrightarrow> tail_trailers (symbol_trailer_name # symbol_trailer_value # ys)"
  "tail_trailers ys \<Longrightarrow> tail_body (symbol_end_of_body # ys)"
  "tail_body ys \<Longrightarrow> tail_body (symbol_body_chunk # ys)"
  "tail_body ys \<Longrightarrow> tail_body (symbol_chunk_ext # ys)"
  "tail_body ys \<Longrightarrow> tail_fields (symbol_end_of_headers # ys)"
  "tail_fields ys \<Longrightarrow> tail_fields (symbol_field_name # symbol_field_value # ys)"
proof -
  show "tail_trailers [symbol_end_of_message]"
    unfolding tail_trailers_def by (rule exI [of _ 0]) simp
  show "tail_trailers ys \<Longrightarrow> tail_trailers (symbol_trailer_name # symbol_trailer_value # ys)"
    unfolding tail_trailers_def by (metis append_Cons pairs.simps(2))
  show "tail_trailers ys \<Longrightarrow> tail_body (symbol_end_of_body # ys)"
    unfolding tail_body_def by (rule exI [of _ "[]"]) (simp add: is_body_def)
  have "tail_body (c # ys)" if "tail_body ys" "c = symbol_body_chunk \<or> c = symbol_chunk_ext" for c
  proof -
    from that obtain b zs where "ys = b @ symbol_end_of_body # zs" "is_body b" "tail_trailers zs"
      by (auto simp: tail_body_def)
    with that(2) show ?thesis
      unfolding tail_body_def by (intro exI [of _ "c # b"] exI [of _ zs]) (auto simp: is_body_def)
  qed
  then show "tail_body ys \<Longrightarrow> tail_body (symbol_body_chunk # ys)"
    and "tail_body ys \<Longrightarrow> tail_body (symbol_chunk_ext # ys)" by simp_all
  show "tail_body ys \<Longrightarrow> tail_fields (symbol_end_of_headers # ys)"
    unfolding tail_fields_def by (rule exI [of _ 0]) simp
  show "tail_fields ys \<Longrightarrow> tail_fields (symbol_field_name # symbol_field_value # ys)"
    unfolding tail_fields_def by (metis append_Cons pairs.simps(2))
qed

text \<open>A step to the end of the message is the last one of a message; every other step shortens
  what is still to come.\<close>

lemma tail_of_step:
  assumes "grammar_step line p s q"
  shows "if s = symbol_end_of_message \<and> p = In_trailers then tail_of p [s] \<and> q = Start_line line
         else tail_of q xs \<longrightarrow> tail_of p (s # xs)"
  using assms by (cases rule: grammar_step.cases) (auto intro: tail_introductions)

lemma tail_of_exists: "\<exists>ys. tail_of p ys"
proof -
  have trailers: "tail_trailers [symbol_end_of_message]" by (rule tail_introductions)
  have body: "tail_body [symbol_end_of_body, symbol_end_of_message]" by (intro tail_introductions trailers)
  have "tail_fields [symbol_end_of_headers, symbol_end_of_body, symbol_end_of_message]"
    by (intro tail_introductions body)
  with trailers body show ?thesis by (cases p) auto
qed

text \<open>Every path is the end of a message, some messages, and the beginning of another one: symbols
  that more symbols make a message.\<close>

definition begins_message :: "symbol list \<Rightarrow> symbol list \<Rightarrow> bool" where
  "begins_message line zs \<longleftrightarrow> (\<exists>ys. ys \<noteq> [] \<and> is_message line (zs @ ys))"

definition whole_messages :: "symbol list \<Rightarrow> symbol list \<Rightarrow> bool" where
  "whole_messages line xs \<longleftrightarrow>
     (\<exists>ms zs. xs = concat ms @ zs \<and> list_all (is_message line) ms \<and> begins_message line zs)"

lemma whole_messages_begun:
  assumes "tail_of (Start_line line) (xs @ ys)" and "ys \<noteq> []"
  shows "whole_messages line xs"
proof -
  have "begins_message line xs"
    using assms unfolding begins_message_def is_message_tail by blast
  then show ?thesis unfolding whole_messages_def by (intro exI [of _ "[]"] exI [of _ xs]) simp
qed

lemma whole_messages_message:
  assumes "tail_of (Start_line line) ys" and "whole_messages line zs"
  shows "whole_messages line (ys @ zs)"
proof -
  from assms(2) obtain ms ps where "zs = concat ms @ ps" "list_all (is_message line) ms"
    "begins_message line ps"
    by (auto simp: whole_messages_def)
  with assms(1) show ?thesis
    unfolding whole_messages_def is_message_tail [symmetric]
    by (intro exI [of _ "ys # ms"] exI [of _ ps]) simp
qed

text \<open>A path either stops inside the message it started in, or passes its end.\<close>

lemma tail_of_not_Nil: "\<not> tail_of p []"
  by (cases p) (auto simp: tail_fields_def tail_body_def tail_trailers_def)

lemma grammar_path_messages:
  assumes "symbol_end_of_message \<notin> set line"
    and "grammar_path line p xs t"
    and "\<forall>ss. p = Start_line ss \<longrightarrow> symbol_end_of_message \<notin> set ss"
  shows "(\<exists>ys. ys \<noteq> [] \<and> tail_of p (xs @ ys)) \<or>
    (\<exists>ys zs. xs = ys @ zs \<and> tail_of p ys \<and> whole_messages line zs)"
  using assms(2,3)
proof (induction rule: grammar_path.induct)
  case (path_nil p)
  show ?case using tail_of_exists [of p] tail_of_not_Nil [of p] by (metis append_Nil)
next
  case (path_cons p s q xs t)
  have q: "\<forall>ss. q = Start_line ss \<longrightarrow> symbol_end_of_message \<notin> set ss"
    using path_cons.hyps(1) path_cons.prems assms(1)
    by (cases rule: grammar_step.cases) auto
  have final: "s = symbol_end_of_message \<longrightarrow> p = In_trailers"
    using path_cons.hyps(1) path_cons.prems by (cases rule: grammar_step.cases) auto
  note step = tail_of_step [OF path_cons.hyps(1)]
  have IH: "(\<exists>ys. ys \<noteq> [] \<and> tail_of q (xs @ ys)) \<or>
      (\<exists>ys zs. xs = ys @ zs \<and> tail_of q ys \<and> whole_messages line zs)"
    using path_cons.IH [OF q] .
  show ?case
  proof (cases "s = symbol_end_of_message")
    case True
    then have "tail_of p [s]" "q = Start_line line" using step final by auto
    moreover from this IH have "whole_messages line xs"
      by (auto intro: whole_messages_begun whole_messages_message simp del: tail_of.simps)
    ultimately show ?thesis by (intro disjI2 exI [of _ "[s]"] exI [of _ xs]) simp
  next
    case False
    from IH show ?thesis
    proof (elim disjE exE conjE)
      fix ys assume "ys \<noteq> []" "tail_of q (xs @ ys)"
      with step [of "xs @ ys"] False show ?thesis by (intro disjI1 exI [of _ ys]) simp
    next
      fix ys zs assume "xs = ys @ zs" "tail_of q ys" "whole_messages line zs"
      with step [of ys] False show ?thesis by (intro disjI2 exI [of _ "s # ys"] exI [of _ zs]) simp
    qed
  qed
qed

lemma grammar_path_whole_messages:
  assumes "symbol_end_of_message \<notin> set line" and "grammar_path line (Start_line line) xs t"
  shows "whole_messages line xs"
proof -
  have "\<forall>ss. Start_line line = Start_line ss \<longrightarrow> symbol_end_of_message \<notin> set ss"
    using assms(1) by simp
  from grammar_path_messages [OF assms this] show ?thesis
    by (auto intro: whole_messages_begun whole_messages_message simp del: tail_of.simps)
qed

end
