(* ===== verification/Reader_Interface.thy ===== *)
theory Reader_Interface
  imports Reader_Common Message_Grammar
begin

text \<open>
  What a client sees of a reader, request or response: it makes calls, looks at the code after
  each, and pulls tokens in a loop until the reader wants more data or reports an error. The
  locale \<open>token_reader\<close> holds the laws a reader promises about single calls; its lemmas
  derive what holds of every sequence of calls. The locale \<open>pulled_reader\<close> adds a measure
  of the work left and derives that the client's loop ends.
\<close>

section \<open>Sequences of calls\<close>

text \<open>\<open>report\<close>: the symbol a call adds to the message, none for an error or a skip.\<close>

definition report :: "code \<Rightarrow> symbol list" where
  "report c = (if symbol_convert c \<in> {symbol_error, symbol_skip} then [] else [symbol_convert c])"

text \<open>
  \<open>run_calls call reads cod cs r\<close> makes the calls \<open>cs\<close> one after another and collects
  the reported symbols; \<open>reads c r\<close> tells whether the call looks for a new token.
\<close>

fun run_calls ::
  "('c \<Rightarrow> 'r \<Rightarrow> fault + 'r) \<Rightarrow> ('c \<Rightarrow> 'r \<Rightarrow> bool) \<Rightarrow> ('r \<Rightarrow> code) \<Rightarrow> 'c list \<Rightarrow> 'r \<Rightarrow>
   fault + (symbol list \<times> 'r)" where
  "run_calls call reads cod [] r = Inr ([], r)"
| "run_calls call reads cod (c # cs) r =
     (case call c r of
        Inl f \<Rightarrow> Inl f
      | Inr r' \<Rightarrow>
          (case run_calls call reads cod cs r' of
             Inl f \<Rightarrow> Inl f
           | Inr (xs, r'') \<Rightarrow> Inr ((if reads c r then report (cod r') else []) @ xs, r'')))"

text \<open>The client keeps to the contract of the calls.\<close>

fun keeps_contract ::
  "('c \<Rightarrow> 'r \<Rightarrow> fault + 'r) \<Rightarrow> ('c \<Rightarrow> 'r \<Rightarrow> bool) \<Rightarrow> 'c list \<Rightarrow> 'r \<Rightarrow> bool" where
  "keeps_contract call allowed [] r = True"
| "keeps_contract call allowed (c # cs) r =
     (allowed c r \<and> (case call c r of Inl f \<Rightarrow> True | Inr r' \<Rightarrow> keeps_contract call allowed cs r'))"

text \<open>How the phase of a reader follows the codes: an error ends it, skips and the lack of data
  keep it, every other code is a step of the grammar.\<close>

definition follows :: "symbol list \<Rightarrow> phase option \<Rightarrow> code \<Rightarrow> phase option \<Rightarrow> bool" where
  "follows line p c q =
     (case p of
        None \<Rightarrow> q = None \<and> final_error c
      | Some p' \<Rightarrow>
          if final_error c then q = None
          else if report c = [] then q = Some p'
          else (case q of None \<Rightarrow> False | Some q' \<Rightarrow> grammar_step line p' (symbol_convert c) q'))"

lemma follows_path:
  assumes "follows line p c q"
  shows "case p of None \<Rightarrow> q = None \<and> report c = []
    | Some p' \<Rightarrow> (case q of None \<Rightarrow> report c = [] | Some q' \<Rightarrow> grammar_path line p' (report c) q')"
  using assms by (auto simp: follows_def report_def final_error_def split: option.splits if_splits)

locale token_reader =
  fixes call :: "'c \<Rightarrow> 'r \<Rightarrow> fault + 'r"
    and allowed :: "'c \<Rightarrow> 'r \<Rightarrow> bool"
    and reads :: "'c \<Rightarrow> 'r \<Rightarrow> bool"
    and cod :: "'r \<Rightarrow> code"
    and inv :: "'r \<Rightarrow> bool"
    and phase_of :: "'r \<Rightarrow> phase option"
    and line :: "symbol list"
  assumes call_inv: "inv r \<Longrightarrow> allowed c r \<Longrightarrow> call c r = Inr r' \<Longrightarrow> inv r'"
    and call_reads: "inv r \<Longrightarrow> allowed c r \<Longrightarrow> reads c r \<Longrightarrow> call c r = Inr r' \<Longrightarrow>
      follows line (phase_of r) (cod r') (phase_of r')"
    and call_quiet: "inv r \<Longrightarrow> allowed c r \<Longrightarrow> \<not> reads c r \<Longrightarrow> call c r = Inr r' \<Longrightarrow>
      phase_of r' = phase_of r"
    and line_ok: "symbol_end_of_message \<notin> set line"
begin

lemma run_inv:
  "inv r \<Longrightarrow> keeps_contract call allowed cs r \<Longrightarrow> run_calls call reads cod cs r = Inr (xs, r') \<Longrightarrow> inv r'"
proof (induction cs arbitrary: r xs)
  case (Cons c cs)
  then obtain r1 ys where "call c r = Inr r1" "run_calls call reads cod cs r1 = Inr (ys, r')"
    by (auto split: sum.splits prod.splits)
  with Cons show ?case using call_inv [of r c r1] by auto
qed simp

lemma run_path:
  assumes "inv r" and "keeps_contract call allowed cs r" and "run_calls call reads cod cs r = Inr (xs, r')"
  shows "case phase_of r of None \<Rightarrow> phase_of r' = None \<and> xs = []
    | Some p \<Rightarrow> \<exists>q. grammar_path line p xs q \<and> (phase_of r' = None \<or> phase_of r' = Some q)"
  using assms
proof (induction cs arbitrary: r xs)
  case Nil
  then show ?case by (auto split: option.splits)
next
  case (Cons c cs)
  then obtain r1 ys where r1: "call c r = Inr r1" "run_calls call reads cod cs r1 = Inr (ys, r')"
    and xs: "xs = (if reads c r then report (cod r1) else []) @ ys"
    by (auto split: sum.splits prod.splits)
  with Cons.prems have IH: "case phase_of r1 of None \<Rightarrow> phase_of r' = None \<and> ys = []
    | Some p \<Rightarrow> \<exists>q. grammar_path line p ys q \<and> (phase_of r' = None \<or> phase_of r' = Some q)"
    using call_inv [of r c r1] by (intro Cons.IH) auto
  show ?case
  proof (cases "reads c r")
    case True
    then have "follows line (phase_of r) (cod r1) (phase_of r1)"
      using Cons.prems r1 by (intro call_reads) auto
    from follows_path [OF this] IH show ?thesis
      by (fastforce simp: xs True grammar_path_append split: option.splits)
  next
    case False
    then have "phase_of r1 = phase_of r" using Cons.prems r1 by (intro call_quiet) auto
    with IH show ?thesis by (auto simp: xs False split: option.splits)
  qed
qed

text \<open>From the start of a message on, the reported symbols are those of whole messages and of the
  beginning of another one, and a reader without an error is at the point the symbols lead to.\<close>

lemma run_messages:
  assumes "inv r" and "phase_of r = Some (Start_line line)"
    and "keeps_contract call allowed cs r" and "run_calls call reads cod cs r = Inr (xs, r')"
  shows "whole_messages line xs \<and>
    (\<exists>q. grammar_path line (Start_line line) xs q \<and> (phase_of r' = None \<or> phase_of r' = Some q))"
  using run_path [OF assms(1,3,4)] assms(2) grammar_path_whole_messages [OF line_ok] by auto

end

section \<open>The client's loop\<close>

text \<open>
  \<open>while (code() is no error) { \<dots>; next(); }\<close>: the views of the tokens in order, and the
  reader the loop leaves behind. \<open>None\<close> would be a loop that does not end.
\<close>

partial_function (option) pull ::
  "('r \<Rightarrow> fault + 'r) \<Rightarrow> ('r \<Rightarrow> code) \<Rightarrow> ('r \<Rightarrow> 'e) \<Rightarrow> 'r \<Rightarrow> ('e list \<times> (fault + 'r)) option" where
  "pull nxt cod view r =
     (if symbol_convert (cod r) = symbol_error then Some ([], Inr r)
      else case nxt r of
          Inl f \<Rightarrow> Some ([view r], Inl f)
        | Inr r' \<Rightarrow> Option.bind (pull nxt cod view r') (\<lambda>(es, x). Some (view r # es, x)))"

declare pull.simps [code]

locale pulled_reader =
  fixes nxt :: "'r \<Rightarrow> fault + 'r"
    and cod :: "'r \<Rightarrow> code"
    and inv :: "'r \<Rightarrow> bool"
    and pending :: "'r \<Rightarrow> nat"
  assumes next_inv: "inv r \<Longrightarrow> nxt r = Inr r' \<Longrightarrow> inv r'"
    and next_pending: "inv r \<Longrightarrow> symbol_convert (cod r) \<noteq> symbol_error \<Longrightarrow> nxt r = Inr r' \<Longrightarrow>
      symbol_convert (cod r') \<noteq> symbol_error \<Longrightarrow> pending r' < pending r"
begin

lemma pull_ends:
  assumes "inv r"
  shows "\<exists>es x. pull nxt cod view r = Some (es, x) \<and> length es \<le> Suc (pending r) \<and>
    (\<forall>r'. x = Inr r' \<longrightarrow> inv r' \<and> symbol_convert (cod r') = symbol_error)"
  using assms
proof (induction "pending r" arbitrary: r rule: less_induct)
  case less
  show ?case
  proof (cases "symbol_convert (cod r) = symbol_error")
    case True
    with less.prems show ?thesis by (simp add: pull.simps [of nxt cod view r])
  next
    case False
    show ?thesis
    proof (cases "nxt r")
      case (Inl f)
      with False show ?thesis by (simp add: pull.simps [of nxt cod view r])
    next
      case (Inr r')
      have inv: "inv r'" by (rule next_inv [OF less.prems Inr])
      show ?thesis
      proof (cases "symbol_convert (cod r') = symbol_error")
        case True
        with False Inr inv show ?thesis
          by (simp add: pull.simps [of nxt cod view r] pull.simps [of nxt cod view r'])
      next
        case run: False
        have lt: "pending r' < pending r" by (rule next_pending [OF less.prems False Inr run])
        from less.hyps [OF this inv] lt False Inr show ?thesis
          by (auto simp: pull.simps [of nxt cod view r])
      qed
    qed
  qed
qed

end

text \<open>A reader whose tokens are consecutive parts of the buffer: the loop neither loses nor
  repeats an octet.\<close>

locale partitioning_reader = pulled_reader +
  fixes tok :: "'a \<Rightarrow> octets"
    and ahead :: "'a \<Rightarrow> octets"
  assumes next_ahead: "inv r \<Longrightarrow> symbol_convert (cod r) \<noteq> symbol_error \<Longrightarrow> nxt r = Inr r' \<Longrightarrow>
    ahead r = tok r @ ahead r'"
begin

lemma pull_partition:
  assumes "inv r" and "pull nxt cod tok r = Some (es, Inr r')"
  shows "ahead r = concat es @ ahead r'"
  using assms
proof (induction es arbitrary: r)
  case Nil
  then have "r' = r"
    by (auto simp: pull.simps [of nxt cod tok r] bind_eq_Some_conv split: if_splits sum.splits)
  then show ?case by simp
next
  case (Cons e es)
  then obtain r1 where run: "symbol_convert (cod r) \<noteq> symbol_error" "nxt r = Inr r1" "e = tok r"
    and "pull nxt cod tok r1 = Some (es, Inr r')"
    by (auto simp: pull.simps [of nxt cod tok r] bind_eq_Some_conv split: if_splits sum.splits)
  with Cons next_inv [of r r1] next_ahead [of r r1] show ?case by simp
qed

end

end
