(* ===== verification/Request_Order.thy ===== *)
theory Request_Order
  imports Request_Resume Reader_Interface
begin

text \<open>
  The request reader as a provider of the two interfaces: the order of its tokens follows the
  grammar of requests whatever the client does within the contract, and the client's loop ends.
\<close>

section \<open>Phases\<close>

definition request_line :: "symbol list" where
  "request_line = [symbol_method, symbol_request_target, symbol_version]"

definition rq_phase :: "request \<Rightarrow> phase option" where
  "rq_phase r =
     (case state r of
        RQ_ERRORED \<Rightarrow> None
      | RQ_EXPECT_METHOD \<Rightarrow> Some (Start_line request_line)
      | RQ_EXPECT_SP_AFTER_METHOD \<Rightarrow> Some (Start_line (tl request_line))
      | RQ_EXPECT_REQUEST_TARGET \<Rightarrow> Some (Start_line (tl request_line))
      | RQ_EXPECT_STATIC_STR_AFTER_TARGET \<Rightarrow> Some (Start_line (tl (tl request_line)))
      | RQ_EXPECT_VERSION \<Rightarrow> Some (Start_line (tl (tl request_line)))
      | RQ_EXPECT_CRLF_AFTER_VERSION \<Rightarrow> Some In_fields
      | RQ_EXPECT_FIELD_NAME \<Rightarrow> Some In_fields
      | RQ_EXPECT_COLON \<Rightarrow> Some In_value
      | RQ_EXPECT_OWS_AFTER_COLON \<Rightarrow> Some In_value
      | RQ_EXPECT_FIELD_VALUE \<Rightarrow> Some In_value
      | RQ_EXPECT_CRLF_AFTER_FIELD_VALUE \<Rightarrow> Some In_fields
      | RQ_EXPECT_CRLF_AFTER_HEADERS \<Rightarrow> Some In_fields
      | RQ_EXPECT_END_OF_MESSAGE \<Rightarrow> Some In_trailers
      | RQ_EXPECT_TRAILER_NAME \<Rightarrow> Some In_trailers
      | RQ_EXPECT_CRLF_AFTER_TRAILER_VALUE \<Rightarrow> Some In_trailers
      | RQ_EXPECT_CRLF_AFTER_TRAILERS \<Rightarrow> Some In_trailers
      | RQ_EXPECT_TRAILER_COLON \<Rightarrow> Some In_trailer_value
      | RQ_EXPECT_OWS_AFTER_TRAILER_COLON \<Rightarrow> Some In_trailer_value
      | RQ_EXPECT_TRAILER_VALUE \<Rightarrow> Some In_trailer_value
      | _ \<Rightarrow> Some In_body)"

lemma follows_fail [simp]: "final_error c \<Longrightarrow> follows line p c None"
  by (auto simp: follows_def split: option.split)

lemmas rq_phase_simps = rq_phase_def follows_def report_def request_line_def

lemma rq_known_field_follows:
  assumes "state r = RQ_EXPECT_COLON" and "cur_code r = code_field_name"
  shows "outcome_all (\<lambda>r'. follows line (Some In_fields) (cur_code r') (rq_phase r'))
    (rq_known_field ieq f r)"
  using assms
  by (auto simp: rq_known_field_def rq_fail_def rq_phase_simps
      split: rq_version_flag.split rq_body_type.split)

lemma rq_framing_value_follows:
  assumes "state r = RQ_EXPECT_CRLF_AFTER_FIELD_VALUE" and "cur_code r = code_field_value"
  shows "follows line (Some In_value) (cur_code (rq_framing_value ieq f r))
    (rq_phase (rq_framing_value ieq f r))"
  using assms
  by (auto simp: rq_framing_value_def rq_fail_def rq_phase_simps Let_def
      split: rq_body_type.split prod.split decode_result.split decode_transfer_encoding_result.split)

lemmas rq_plain_case_defs =
  rq_method_def rq_sp_after_method_def rq_request_target_def rq_static_str_after_target_def
  rq_version_def rq_crlf_after_version_def rq_field_name_def rq_colon_def
  rq_ows_after_colon_def rq_field_value_def rq_crlf_after_field_value_def
  rq_end_of_headers_def rq_crlf_after_headers_def rq_body_def rq_chunk_size_def rq_chunk_ext_def
  rq_crlf_after_chunk_ext_def rq_chunk_data_def rq_crlf_after_chunk_data_def rq_trailer_name_def
  rq_trailer_colon_def rq_ows_after_trailer_colon_def rq_trailer_value_def
  rq_crlf_after_trailer_value_def rq_crlf_after_trailers_def

lemma rq_switch_follows:
  assumes "cur_code r = code_error_insufficient_data"
  shows "outcome_all (\<lambda>r'. follows request_line (rq_phase r) (cur_code r') (rq_phase r'))
    (rq_switch ieq r)"
  using assms
proof (cases "state r")
  case RQ_EXPECT_FIELD_NAME
  then show ?thesis
    using assms rq_known_field_follows [of "rq_token RQ_EXPECT_COLON code_field_name n r" request_line ieq for n]
    by (auto simp: rq_switch_def rq_field_name_def rq_token_def Let_def rq_phase_def)
       (auto simp: follows_def report_def)
next
  case RQ_EXPECT_FIELD_VALUE
  then show ?thesis
    using assms rq_framing_value_follows
    by (auto simp: rq_switch_def rq_field_value_def rq_token_def Let_def rq_phase_def)
       (auto simp: follows_def report_def)
qed (auto simp: rq_switch_def rq_plain_case_defs rq_token_def rq_fail_def Let_def rq_phase_simps
    split: rq_version_flag.split rq_body_type.split prod.split decode_result.split
      liberal_crlf_result.split)

lemma rq_tail_phase:
  assumes "rq_ready r" and "rq_switch ieq r = Tail_next r1"
  shows "rq_phase r1 = rq_phase r"
  using rq_switch_Tail_next [OF assms(2)] by (auto simp: rq_tail_calls_def rq_phase_def)

lemma rq_next_follows:
  assumes "rq_inv r" and "rq_next ieq r = Inr r'"
  shows "follows request_line (rq_phase r) (cur_code r') (rq_phase r')"
  using assms(1)
proof (cases rule: rq_next_cases [where ieq = ieq])
  case ready
  have phase: "rq_phase (consume r) = rq_phase r" by (simp add: rq_phase_def)
  from ready(1) show ?thesis
  proof (cases rule: rq_next_ready_cases [where ieq = ieq])
    case (once r2)
    then show ?thesis
      using ready assms(2) rq_switch_follows [of "consume r" ieq] phase by simp
  next
    case (twice r1 r2)
    then have "cur_code r1 = code_error_insufficient_data" by (simp add: rq_ready_def)
    from rq_switch_follows [OF this, of ieq] twice ready assms(2) rq_tail_phase [OF ready(1)] phase
    show ?thesis by simp
  next
    case fault
    then show ?thesis using ready assms(2) by simp
  qed
next
  case starved
  then have "rq_phase r' = rq_phase r" "rq_phase r \<noteq> None" "cur_code r' = code_error_insufficient_data"
    using assms(2) by (auto simp: rq_phase_def split: rq_state.splits)
  then show ?thesis by (auto simp: follows_def report_def)
qed (use assms in \<open>auto simp: rq_phase_simps rq_inv_def\<close>)

section \<open>The calls of a client\<close>

datatype rq_call = RQ_call_next | RQ_call_set_buffer octets

fun rq_do_call :: "iequals \<Rightarrow> rq_call \<Rightarrow> request \<Rightarrow> fault + request" where
  "rq_do_call ieq RQ_call_next r = rq_next ieq r"
| "rq_do_call ieq (RQ_call_set_buffer buf) r = rq_set_buffer ieq buf r"

fun rq_allowed :: "rq_call \<Rightarrow> request \<Rightarrow> bool" where
  "rq_allowed RQ_call_next r = True"
| "rq_allowed (RQ_call_set_buffer buf) r = keeps_token buf r"

text \<open>\<open>set_buffer\<close> calls \<open>next()\<close> only when the reader waits for data.\<close>

fun rq_reads :: "rq_call \<Rightarrow> request \<Rightarrow> bool" where
  "rq_reads RQ_call_next r = True"
| "rq_reads (RQ_call_set_buffer buf) r = (cur_code r = code_error_insufficient_data)"

lemma rq_phase_rebuffer [simp]: "rq_phase (r\<lparr>ibuffer := b, idx := i\<rparr>) = rq_phase r"
  by (simp add: rq_phase_def)

interpretation rq: token_reader "rq_do_call ieq" rq_allowed rq_reads cur_code rq_inv rq_phase request_line
  for ieq
proof (unfold_locales, goal_cases)
  case (1 r c r')
  then show ?case
    using rq_next_inv [of r ieq r'] rq_set_buffer_inv [of r _ ieq r'] by (cases c) simp_all
next
  case (2 r c r')
  show ?case
  proof (cases c)
    case RQ_call_next
    with 2 show ?thesis using rq_next_follows [of r ieq r'] by simp
  next
    case (RQ_call_set_buffer buf)
    with 2 have "rq_inv (r\<lparr>ibuffer := buf, idx := 0\<rparr>)"
      and "rq_next ieq (r\<lparr>ibuffer := buf, idx := 0\<rparr>) = Inr r'"
      using rq_rebuffer_inv by (auto simp: rq_set_buffer_def)
    from rq_next_follows [OF this] show ?thesis by simp
  qed
next
  case (3 r c r')
  then show ?case by (cases c) (auto simp: rq_set_buffer_def)
qed (simp add: request_line_def)

section \<open>Progress\<close>

text \<open>Three tokens may be empty: the end of the body and of the message when there are no
  chunks, and a trailer value. Each is followed by a token of another kind.\<close>

definition rq_rank :: "rq_state \<Rightarrow> nat" where
  "rq_rank s =
     (case s of
        RQ_EXPECT_END_OF_BODY \<Rightarrow> 2
      | RQ_EXPECT_END_OF_MESSAGE \<Rightarrow> 1
      | RQ_EXPECT_OWS_AFTER_TRAILER_COLON \<Rightarrow> 1
      | RQ_EXPECT_TRAILER_VALUE \<Rightarrow> 1
      | _ \<Rightarrow> 0)"

definition rq_pending :: "request \<Rightarrow> nat" where
  "rq_pending r = 3 * (length (ibuffer r) - (idx r + token_size r)) + rq_rank (state r)"

lemma rq_rank_le: "rq_rank s \<le> 2"
  by (simp add: rq_rank_def split: rq_state.split)

lemma rq_known_field_size:
  "outcome_all (\<lambda>r'. token_size r' = token_size r) (rq_known_field ieq f r)"
  by (auto simp: rq_known_field_def rq_fail_def split: rq_version_flag.split rq_body_type.split)

lemma rq_framing_value_fields [simp]:
  "token_size (rq_framing_value ieq f r) = token_size r"
  "state (rq_framing_value ieq f r) \<in> {state r, RQ_ERRORED}"
  by (auto simp: rq_framing_value_def rq_fail_def Let_def
      split: rq_body_type.split prod.split decode_result.split decode_transfer_encoding_result.split)

lemma rq_switch_progress:
  assumes "rq_ready r" and "rq_switch ieq r = Return r'" and "symbol_convert (cur_code r') \<noteq> symbol_error"
  shows "0 < token_size r' \<or> rq_rank (state r') < rq_rank (state r)"
proof -
  have size: "0 < unat (body_size r) \<longleftrightarrow> body_size r \<noteq> 0" by (simp add: unat_gt_0)
  have data: "0 < length (ibuffer r) - idx r" and cc: "cur_code r = code_error_insufficient_data"
    using assms(1) by (simp_all add: rq_ready_def)
  note inv = assms(1) [unfolded rq_ready_def rq_inv_def rq_partial_def rq_framing_def]
  note prems = assms size data cc inv
  show ?thesis
  proof (cases "state r")
    case RQ_EXPECT_FIELD_NAME
    then show ?thesis
      using prems rq_known_field_size [THEN outcome_allD]
      by (fastforce simp: rq_switch_def rq_field_name_eq rq_token_def Let_def split: if_splits)
  next
    case RQ_EXPECT_FIELD_VALUE
    then show ?thesis
      using prems
      by (auto simp: rq_switch_def rq_field_value_eq rq_token_def Let_def guarded_Return
          decode_field_value_def split: if_splits)
  qed (use prems in \<open>auto simp: rq_switch_def rq_case_eqs rq_rest_defs rq_token_def rq_fail_def
      rq_rank_def Let_def rq_static_str_def
      split: if_splits rq_body_type.splits prod.splits decode_result.splits liberal_crlf_result.splits
      dest: strict_crlf_cases\<close>)
qed

lemma rq_next_ready_progress:
  assumes "rq_ready r" and "rq_next ieq r = Inr r'" and "symbol_convert (cur_code r') \<noteq> symbol_error"
  shows "0 < token_size r' \<or> rq_rank (state r') < rq_rank (state r)"
  using assms(1)
proof (cases rule: rq_next_ready_cases [where ieq = ieq])
  case (once r2)
  with assms show ?thesis using rq_switch_progress [OF assms(1)] by simp
next
  case (twice r1 r2)
  have "rq_rank (state r1) \<le> rq_rank (state r)"
    using rq_switch_Tail_next [OF twice(1)] by (auto simp: rq_tail_calls_def rq_rank_def)
  with twice assms rq_switch_progress [OF twice(2), of ieq r2] show ?thesis by auto
next
  case fault
  with assms(2) show ?thesis by simp
qed

lemma rq_next_pending:
  assumes "rq_inv r" and "symbol_convert (cur_code r) \<noteq> symbol_error"
    and "rq_next ieq r = Inr r'" and "symbol_convert (cur_code r') \<noteq> symbol_error"
  shows "rq_pending r' < rq_pending r"
proof -
  have "rq_inv r'" by (rule rq_next_inv [OF assms(1,3)])
  then have range: "idx r' + token_size r' \<le> length (ibuffer r')" by (simp add: rq_inv_defs)
  have "state r \<noteq> RQ_ERRORED" using assms(1,2) by (auto simp: rq_inv_def final_error_def)
  moreover have "cur_code r \<noteq> code_error_insufficient_data" using assms(2) by auto
  ultimately have frame: "ibuffer r' = ibuffer r" "idx r' = idx r + token_size r"
    using rq_next_frame [OF assms(1,3)] by (simp_all add: consume_def)
  have "0 < token_size r' \<or> rq_rank (state r') < rq_rank (state r)"
    using assms(1)
  proof (cases rule: rq_next_cases [where ieq = ieq])
    case ready
    with assms rq_next_ready_progress [OF ready(1), of ieq r'] show ?thesis by simp
  qed (use assms \<open>state r \<noteq> RQ_ERRORED\<close> in \<open>auto simp: rq_rank_def\<close>)
  moreover have "length (ibuffer r) - (idx r + token_size r) =
      (length (ibuffer r') - (idx r' + token_size r')) + token_size r'"
    using frame range by simp
  ultimately show ?thesis
    using rq_rank_le [of "state r'"] unfolding rq_pending_def by (elim disjE) linarith+
qed

interpretation rq: pulled_reader "rq_next ieq" cur_code rq_inv rq_pending for ieq
  by unfold_locales (rule rq_next_inv, assumption+, rule rq_next_pending)

text \<open>A complete token is consumed by the next call of \<open>next()\<close>.\<close>

lemma rq_next_rest:
  assumes "rq_inv r" and "symbol_convert (cur_code r) \<noteq> symbol_error" and "rq_next ieq r = Inr r'"
  shows "rest r = token_prefix r @ rest r'"
proof -
  have "state r \<noteq> RQ_ERRORED" using assms(1,2) by (auto simp: rq_inv_def final_error_def)
  moreover have "cur_code r \<noteq> code_error_insufficient_data" using assms(2) by auto
  ultimately have "ibuffer r' = ibuffer r" "idx r' = idx r + token_size r"
    using rq_next_frame [OF assms(1,3)] by (simp_all add: consume_def)
  then have "rest r' = drop (token_size r) (rest r)" by (simp add: rest_def add.commute)
  then show ?thesis by (simp add: token_prefix_def)
qed

interpretation rq: partitioning_reader "rq_next ieq" cur_code rq_inv rq_pending token_prefix rest
  for ieq
  by unfold_locales (rule rq_next_rest)

section \<open>expected\_token()\<close>

text \<open>Where the reader, by the next octet or by the size of the chunk, has to give a token other than
  the expected one, and which: an optional element is absent (a field name, a chunk extension, white
  space, a trailer name), the chunk is the last one, or, in two states, the expected token is none
  the state can give.\<close>

definition rq_instead :: "request \<Rightarrow> code option" where
  "rq_instead r =
     (let c = hd (rest (consume r)) in
      case state r of
        RQ_EXPECT_FIELD_NAME \<Rightarrow> if is_tchar c then None else Some code_end_of_headers
      | RQ_EXPECT_TRAILER_NAME \<Rightarrow> if is_tchar c then None else Some code_end_of_message
      | RQ_EXPECT_OWS_AFTER_COLON \<Rightarrow> if is_ows c then None else Some code_field_value
      | RQ_EXPECT_OWS_AFTER_TRAILER_COLON \<Rightarrow> if is_ows c then None else Some code_trailer_value
      | RQ_EXPECT_CHUNK_EXT \<Rightarrow>
          if is_chunk_ext_char c then None
          else Some (if body_size r = 0 then code_end_of_body else code_skip)
      | RQ_EXPECT_CRLF_AFTER_CHUNK_EXT \<Rightarrow> if body_size r = 0 then Some code_end_of_body else None
      | RQ_EXPECT_CRLF_AFTER_HEADERS \<Rightarrow> Some code_end_of_headers
      | RQ_EXPECT_CRLF_AFTER_TRAILERS \<Rightarrow> Some code_end_of_message
      | _ \<Rightarrow> None)"

definition rq_reports :: "request \<Rightarrow> code" where
  "rq_reports r = (case rq_instead r of None \<Rightarrow> rq_expected_token r | Some c \<Rightarrow> c)"

lemma rq_instead_unexpected: "rq_instead r = Some c \<Longrightarrow> c \<noteq> rq_expected_token r"
  by (cases "state r") (auto simp: rq_instead_def rq_expected_token_def Let_def split: if_splits)

lemma rq_reports_consume:
  "state r \<noteq> RQ_ERRORED \<Longrightarrow> rq_reports (consume r) = rq_reports r"
  by (cases "state r") (simp_all add: rq_reports_def rq_instead_def rq_expected_token_def)

lemma rq_framing_value_reports:
  "cur_code r = code_field_value \<Longrightarrow>
   symbol_convert (cur_code (rq_framing_value ieq f r)) = symbol_error \<or>
   cur_code (rq_framing_value ieq f r) = code_field_value"
  by (auto simp: rq_framing_value_def rq_fail_def Let_def
      split: rq_body_type.split prod.split decode_result.split decode_transfer_encoding_result.split)

text \<open>What one pass through the \<open>switch\<close> reports. A case that calls \<open>next()\<close> again has seen that
  the expected element is absent.\<close>

definition rq_reports_ok :: "request \<Rightarrow> request outcome \<Rightarrow> bool" where
  "rq_reports_ok r x =
     (case x of
        Return r' \<Rightarrow> symbol_convert (cur_code r') = symbol_error \<or> cur_code r' = rq_reports r
      | Tail_next r1 \<Rightarrow> rq_reports r1 = rq_reports r
      | Fault _ \<Rightarrow> True)"

lemma rq_reports_ok_simps [simp]:
  "rq_reports_ok r (Return r') \<longleftrightarrow> symbol_convert (cur_code r') = symbol_error \<or> cur_code r' = rq_reports r"
  "rq_reports_ok r (Tail_next r1) \<longleftrightarrow> rq_reports r1 = rq_reports r"
  "rq_reports_ok r (Fault f)"
  by (simp_all add: rq_reports_ok_def)

lemma rq_reports_ok_guarded [simp]: "rq_reports_ok r (guarded x g) \<longleftrightarrow> (\<forall>a. x = Inr a \<longrightarrow> rq_reports_ok r (g a))"
  by (cases x) simp_all

lemma rq_known_field_reports:
  "cur_code r = code_field_name \<Longrightarrow> rq_reports s = code_field_name \<Longrightarrow> rq_reports_ok s (rq_known_field ieq f r)"
  by (auto simp: rq_known_field_def rq_fail_def split: rq_version_flag.split rq_body_type.split)

lemma rq_switch_reports:
  assumes "rq_ready r"
  shows "rq_reports_ok r (rq_switch ieq r)"
proof -
  have ne: "rest r \<noteq> []" and wait: "cur_code r = code_error_insufficient_data" and inv: "rq_inv r"
    using assms by (auto simp: rq_ready_def rest_def)
  note first = field_name.zero_iff [OF ne] ows.zero_iff [OF ne]
  note defs = rq_reports_def rq_instead_def rq_expected_token_def Let_def wait
  show ?thesis
  proof (cases "state r")
    case RQ_EXPECT_FIELD_NAME
    then have "rq_reports r = (if is_tchar (hd (rest r)) then code_field_name else code_end_of_headers)"
      "rq_reports (r\<lparr>state := RQ_EXPECT_CRLF_AFTER_HEADERS\<rparr>) = code_end_of_headers"
      by (simp_all add: defs)
    with RQ_EXPECT_FIELD_NAME show ?thesis
      using first by (auto simp: rq_switch_def rq_field_name_def wait rq_token_def Let_def
          intro!: rq_known_field_reports)
  next
    case RQ_EXPECT_FIELD_VALUE
    then show ?thesis
      using rq_framing_value_reports
      by (auto simp: rq_switch_def rq_field_value_def rq_token_def defs)
  next
    case RQ_EXPECT_CHUNK_EXT
    then have "list_all is_chunk_ext_char (token_prefix r)" "in_range r"
      using inv wait by (simp_all add: rq_inv_def rq_partial_def)
    with RQ_EXPECT_CHUNK_EXT ne show ?thesis
      by (auto simp: rq_switch_def rq_chunk_ext_eq rq_token_def rq_fail_def match_loop_zero defs)
  qed (use first in \<open>auto simp: rq_switch_def rq_plain_case_defs rq_token_def rq_fail_def defs
      split: rq_version_flag.split rq_body_type.split prod.split decode_result.split
        liberal_crlf_result.split\<close>)
qed

lemma rq_next_reports:
  assumes "rq_inv r" and "rq_next ieq r = Inr r'" and "symbol_convert (cur_code r') \<noteq> symbol_error"
  shows "cur_code r' = rq_reports r"
  using assms(1)
proof (cases rule: rq_next_cases [where ieq = ieq])
  case ready
  have same: "rq_reports (consume r) = rq_reports r"
    using rq_ready_state [OF ready(1)] by (intro rq_reports_consume) simp
  from ready(1) show ?thesis
  proof (cases rule: rq_next_ready_cases [where ieq = ieq])
    case (once r2)
    then show ?thesis using ready assms same rq_switch_reports [OF ready(1), of ieq] by simp
  next
    case (twice r1 r2)
    then show ?thesis
      using ready assms same rq_switch_reports [OF ready(1), of ieq] rq_switch_reports [OF twice(2), of ieq] by simp
  next
    case fault
    then show ?thesis using ready assms(2) by simp
  qed
qed (use assms in \<open>auto simp: rq_reports_def rq_instead_def rq_expected_token_def\<close>)

end
