(* ===== verification/Request_Init.thy ===== *)
theory Request_Init
  imports Request_Order
begin

text \<open>
  The constructor and \<open>reset()\<close> leave \<open>version\<close> and \<open>body_size\<close> without a value (or
  with a stale one). The relation \<open>rq_agree\<close> holds between readers that differ only in
  members the code has not written yet; every call preserves it, so no call reads them. The
  second part shows which codes a request reader can report.
\<close>

section \<open>Members that are not initialised\<close>

definition rq_version_known :: "rq_state \<Rightarrow> bool" where
  "rq_version_known s \<longleftrightarrow>
     s \<notin> {RQ_ERRORED, RQ_EXPECT_METHOD, RQ_EXPECT_SP_AFTER_METHOD, RQ_EXPECT_REQUEST_TARGET,
           RQ_EXPECT_STATIC_STR_AFTER_TARGET, RQ_EXPECT_VERSION}"

definition rq_body_size_known :: "request \<Rightarrow> bool" where
  "rq_body_size_known r \<longleftrightarrow> state r \<noteq> RQ_ERRORED \<and>
     (body_type r = RQ_CONTENT_LENGTH_READ \<or>
      body_type r = RQ_CHUNKED_ENCODING_READ \<and>
      state r \<in> {RQ_EXPECT_CHUNK_EXT, RQ_EXPECT_CRLF_AFTER_CHUNK_EXT, RQ_EXPECT_CHUNK_DATA})"

definition rq_agree :: "request \<Rightarrow> request \<Rightarrow> bool" where
  "rq_agree r s \<longleftrightarrow>
     state r = state s \<and> cur_code r = cur_code s \<and> body_type r = body_type s \<and>
     idx r = idx s \<and> token_size r = token_size s \<and> ibuffer r = ibuffer s \<and>
     (rq_version_known (state r) \<longrightarrow> version r = version s) \<and>
     (rq_body_size_known r \<longrightarrow> body_size r = body_size s)"

lemma rq_agreeE:
  assumes "rq_agree r s"
  obtains v n where "s = r\<lparr>version := v, body_size := n\<rparr>"
    and "rq_version_known (state r) \<Longrightarrow> v = version r"
    and "rq_body_size_known r \<Longrightarrow> n = body_size r"
proof -
  have "s = r\<lparr>version := version s, body_size := body_size s\<rparr>"
    using assms by (cases r; cases s) (simp add: rq_agree_def)
  moreover have "rq_version_known (state r) \<Longrightarrow> version s = version r"
    and "rq_body_size_known r \<Longrightarrow> body_size s = body_size r"
    using assms unfolding rq_agree_def by simp_all
  ultimately show thesis by (rule that)
qed

lemma rq_framing_consume [simp]: "rq_framing (consume r) = rq_framing r"
  by (cases "state r") (simp_all add: rq_framing_def)

lemma rq_framing_rebuffer [simp]: "rq_framing (r\<lparr>ibuffer := b, idx := i\<rparr>) = rq_framing r"
  by (cases "state r") (simp_all add: rq_framing_def)

lemma content_length_decode_out:
  "inp \<noteq> [] \<Longrightarrow> content_length_decode inp out = content_length_decode inp out'"
  by (simp add: content_length_decode_def)

lemma chunk_size_decode_out:
  "inp \<noteq> [] \<Longrightarrow> chunk_size_decode inp out = chunk_size_decode inp out'"
  by (simp add: chunk_size_decode_def)

lemma rest_version [simp]: "rest (r\<lparr>version := v\<rparr>) = rest r"
  by (simp add: rest_def)

lemma rq_agree_refl [simp]: "rq_agree r r"
  by (simp add: rq_agree_def)

lemma rel_outcome_agree_refl [simp]: "rel_outcome rq_agree x x"
  by (rule outcome.rel_refl) simp

lemma rel_outcome_guarded:
  "(\<And>a. x = Inr a \<Longrightarrow> rel_outcome R (f a) (g a)) \<Longrightarrow> rel_outcome R (guarded x f) (guarded x g)"
  by (cases x) auto

lemma rq_known_field_agree:
  assumes "version s = version r" and "s = r\<lparr>body_size := n\<rparr>" and "state r = RQ_EXPECT_COLON"
    and "body_type r = RQ_CONTENT_LENGTH_READ \<longrightarrow> n = body_size r"
  shows "rel_outcome rq_agree (rq_known_field ieq f r) (rq_known_field ieq f s)"
  using assms
  by (auto simp: rq_known_field_def rq_fail_def rq_agree_def rq_version_known_def rq_body_size_known_def
      split: rq_version_flag.split rq_body_type.split)

lemma rq_framing_value_agree:
  assumes "s = r\<lparr>body_size := n\<rparr>" and "f \<noteq> []" and "state r = RQ_EXPECT_CRLF_AFTER_FIELD_VALUE"
    and "body_type r = RQ_CONTENT_LENGTH_READ \<longrightarrow> n = body_size r"
  shows "rq_agree (rq_framing_value ieq f r) (rq_framing_value ieq f s)"
  using assms content_length_decode_out [OF assms(2), of n "body_size r"]
  by (auto simp: rq_framing_value_def rq_fail_def rq_agree_def rq_version_known_def rq_body_size_known_def
      Let_def split: rq_body_type.split prod.split decode_result.split decode_transfer_encoding_result.split)

lemma token_view_token:
  "token_view (rq_token x c k (r\<lparr>body_size := n\<rparr>)) = token_view (rq_token x c k r)"
  by (simp add: token_view_def rq_token_def)

lemma decode_field_value_nonempty: "decode_field_value inp = Inr f \<Longrightarrow> f \<noteq> []"
proof -
  assume dec: "decode_field_value inp = Inr f"
  then have "inp \<noteq> []" by (auto simp: decode_field_value_def)
  moreover have "match_loop is_ows (rev (tl inp)) \<le> length inp - 1"
    using match_loop_le [of is_ows "rev (tl inp)"] by simp
  ultimately have "match_loop is_ows (rev (tl inp)) < length inp" by (cases inp) auto
  with dec \<open>inp \<noteq> []\<close> show ?thesis by (auto simp: decode_field_value_def Let_def)
qed

lemma rq_field_name_agree:
  assumes "state r = RQ_EXPECT_FIELD_NAME" and "body_type r \<noteq> RQ_CONTENT_LENGTH_READ"
  shows "rel_outcome rq_agree (rq_field_name ieq r) (rq_field_name ieq (r\<lparr>body_size := n\<rparr>))"
proof -
  let ?r = "rq_token RQ_EXPECT_COLON code_field_name (field_name_match (rest r))"
  have "rel_outcome rq_agree (rq_known_field ieq f (?r r)) (rq_known_field ieq f (?r (r\<lparr>body_size := n\<rparr>)))"
    for f
    using assms by (intro rq_known_field_agree [where n = n]) (simp_all add: rq_token_def)
  with assms show ?thesis
    by (auto simp: rq_field_name_def Let_def rq_value_field_name_def token_view_token rq_agree_def
        rq_body_size_known_def intro!: rel_outcome_guarded)
       (auto simp: rq_token_def)
qed

lemma rq_field_value_agree:
  assumes "state r = RQ_EXPECT_FIELD_VALUE" and "body_type r \<noteq> RQ_CONTENT_LENGTH_READ"
  shows "rel_outcome rq_agree (rq_field_value ieq r) (rq_field_value ieq (r\<lparr>body_size := n\<rparr>))"
proof -
  let ?r = "rq_token RQ_EXPECT_CRLF_AFTER_FIELD_VALUE code_field_value (field_value_match (rest r))"
  have val: "rq_value_field_value (?r (r\<lparr>body_size := n\<rparr>)) = rq_value_field_value (?r r)"
    by (simp add: rq_value_field_value_def token_view_token) (simp add: rq_token_def)
  have "rq_agree (rq_framing_value ieq f (?r r)) (rq_framing_value ieq f (?r (r\<lparr>body_size := n\<rparr>)))"
    if "rq_value_field_value (?r r) = Inr f" for f
  proof -
    have "f \<noteq> []"
      using that decode_field_value_nonempty
      by (auto simp: rq_value_field_value_def split: if_splits sum.splits)
    then show ?thesis
      using assms by (intro rq_framing_value_agree [where n = n]) (simp_all add: rq_token_def)
  qed
  moreover have "rq_agree r (r\<lparr>body_size := n\<rparr>)"
    using assms by (simp add: rq_agree_def rq_body_size_known_def)
  ultimately show ?thesis
    by (auto simp: rq_field_value_def Let_def val intro!: rel_outcome_guarded)
qed

lemma rq_chunk_size_agree:
  assumes "state r = RQ_EXPECT_CHUNK_SIZE" and "body_type r = RQ_CHUNKED_ENCODING_READ"
  shows "rel_outcome rq_agree (rq_chunk_size r) (rq_chunk_size (r\<lparr>body_size := n\<rparr>))"
proof (cases "chunk_size_match (rest r) = 0 \<or> chunk_size_match (rest r) = length (rest r)")
  case True
  with assms show ?thesis
    by (auto simp: rq_chunk_size_def rq_fail_def rq_agree_def rq_body_size_known_def Let_def)
next
  case False
  then have "take (chunk_size_match (rest r)) (rest r) \<noteq> []"
    using chunk_size.bounded [of "rest r"] by (auto simp del: rest_length)
  from False chunk_size_decode_out [OF this, of n "body_size r"] show ?thesis
    by (auto simp: rq_chunk_size_def rq_fail_def rq_token_def rq_agree_def Let_def
        split: prod.split decode_result.split)
qed

lemmas rq_init_case_defs =
  rq_crlf_after_version_def rq_colon_def
  rq_ows_after_colon_def rq_crlf_after_field_value_def
  rq_end_of_headers_def rq_crlf_after_headers_def rq_body_def rq_chunk_ext_def
  rq_crlf_after_chunk_ext_def rq_chunk_data_def rq_crlf_after_chunk_data_def rq_trailer_name_def
  rq_trailer_colon_def rq_ows_after_trailer_colon_def rq_trailer_value_def
  rq_crlf_after_trailer_value_def rq_crlf_after_trailers_def

lemma rq_switch_agree:
  assumes "rq_framing r" and "rq_agree r s"
  shows "rel_outcome rq_agree (rq_switch ieq r) (rq_switch ieq s)"
proof -
  obtain v' n' where s: "s = r\<lparr>version := v', body_size := n'\<rparr>"
    and v: "rq_version_known (state r) \<Longrightarrow> v' = version r"
    and n: "rq_body_size_known r \<Longrightarrow> n' = body_size r"
    using rq_agreeE [OF assms(2)] by blast
  show ?thesis
  proof (cases "rq_version_known (state r)")
    case False
    then have "state r \<in> {RQ_ERRORED, RQ_EXPECT_METHOD, RQ_EXPECT_SP_AFTER_METHOD, RQ_EXPECT_REQUEST_TARGET,
           RQ_EXPECT_STATIC_STR_AFTER_TARGET, RQ_EXPECT_VERSION}"
      by (simp add: rq_version_known_def)
    then show ?thesis
      using assms(1)
      by (subst s)
         (auto simp: rq_switch_def rq_method_def rq_sp_after_method_def rq_request_target_def
          rq_static_str_after_target_def rq_version_def rq_token_def rq_fail_def Let_def rq_framing_def
          rq_value_version_def rq_version_known_def rq_body_size_known_def rq_agree_def
          intro!: rel_outcome_guarded)
  next
    case version: True
    with v s have s': "s = r\<lparr>body_size := n'\<rparr>" by simp
    show ?thesis
    proof (cases "rq_body_size_known r")
      case True
      with n s' have "s = r" by simp
      then show ?thesis by simp
    next
      case False
      with assms(1) version show ?thesis
        unfolding rq_body_size_known_def rq_version_known_def
        by (subst s', cases "state r")
           (auto simp: rq_switch_def rq_init_case_defs rq_token_def rq_fail_def Let_def rq_framing_def
            rq_field_name_agree rq_field_value_agree rq_chunk_size_agree
            rq_version_known_def rq_body_size_known_def rq_agree_def
            intro!: rel_outcome_guarded
            split: rq_body_type.split liberal_crlf_result.split)
    qed
  qed
qed

lemma rq_tail_framing:
  assumes "rq_framing r" and "rq_switch ieq r = Tail_next r1"
  shows "rq_framing r1"
proof -
  note tail = rq_switch_Tail_next [OF assms(2)]
  then obtain s' k where "r1 = r\<lparr>state := s', token_size := k\<rparr>" "(state r, s') \<in> rq_tail_calls" by metis
  with assms(1) show ?thesis by (auto simp: rq_tail_calls_def rq_framing_def)
qed

lemma consume_agree: "rq_agree r s \<Longrightarrow> rq_agree (consume r) (consume s)"
  by (simp add: rq_agree_def rq_body_size_known_def consume_def)

lemma rq_next_agree:
  "rq_framing r \<Longrightarrow> rq_agree r s \<Longrightarrow> rel_sum (=) rq_agree (rq_next ieq r) (rq_next ieq s)"
proof (induction ieq r arbitrary: s rule: rq_next.induct)
  case (1 ieq r)
  show ?case
  proof (cases "state r \<in> {RQ_ERRORED, RQ_EXPECT_END_OF_BODY, RQ_EXPECT_END_OF_MESSAGE}")
    case True
    with "1.prems" show ?thesis
      by (auto simp: rq_next.simps [of ieq r] rq_next.simps [of ieq s] rq_agree_def
          rq_version_known_def rq_body_size_known_def)
  next
    case run: False
    let ?r = "consume r" and ?s = "consume s"
    have agree: "rq_agree ?r ?s" by (rule consume_agree [OF "1.prems"(2)])
    then have same: "idx ?s = idx ?r" "ibuffer s = ibuffer r" by (simp_all add: rq_agree_def)
    have st: "state s = state r" using "1.prems"(2) by (simp add: rq_agree_def)
    have frame: "rq_framing ?r" using "1.prems"(1) by simp
    note rel = rq_switch_agree [OF frame agree, of ieq]
    note unfold = rq_next.simps [of ieq r] rq_next.simps [of ieq s]
    show ?thesis
    proof (cases "idx ?r = length (ibuffer ?r)")
      case True
      with run st same agree show ?thesis by (simp add: unfold)
    next
      case False
      show ?thesis
      proof (cases "rq_switch ieq ?r")
        case (Tail_next r1)
        with rel obtain s1 where s1: "rq_switch ieq ?s = Tail_next s1" "rq_agree r1 s1"
          by (cases "rq_switch ieq ?s") auto
        have "rel_sum (=) rq_agree (rq_next ieq r1) (rq_next ieq s1)"
          using run False Tail_next s1(2) rq_tail_framing [OF frame Tail_next]
          by (intro "1.IH" [of ?r]) auto
        with run st same False Tail_next s1 show ?thesis by (simp add: unfold)
      qed (use rel run st same False in \<open>cases "rq_switch ieq ?s"; simp add: unfold\<close>)+
    qed
  qed
qed

lemma rq_call_agree:
  assumes "rq_inv r" and "rq_agree r s" and "rq_allowed c r"
  shows "rel_sum (=) rq_agree (rq_do_call ieq c r) (rq_do_call ieq c s) \<and>
    rq_reads c r = rq_reads c s"
proof (cases c)
  case RQ_call_next
  with assms show ?thesis using rq_next_agree [of r s ieq] by (simp add: rq_inv_def)
next
  case (RQ_call_set_buffer buf)
  let ?b = "\<lambda>r. r\<lparr>ibuffer := buf, idx := 0\<rparr>"
  have "rq_agree (?b r) (?b s)" using assms(2) by (simp add: rq_agree_def rq_body_size_known_def)
  moreover have "rq_framing (?b r)" using assms(1) by (simp add: rq_inv_def)
  ultimately have "rel_sum (=) rq_agree (rq_next ieq (?b r)) (rq_next ieq (?b s))"
    by (intro rq_next_agree)
  with \<open>rq_agree (?b r) (?b s)\<close> assms(2) RQ_call_set_buffer show ?thesis
    by (simp add: rq_set_buffer_def Let_def) (simp add: rq_agree_def)
qed

lemma rq_run_agree:
  assumes "rq_inv r" and "rq_agree r s" and "keeps_contract (rq_do_call ieq) rq_allowed cs r"
  shows "rel_sum (=) (rel_prod (=) rq_agree) (run_calls (rq_do_call ieq) rq_reads cur_code cs r)
    (run_calls (rq_do_call ieq) rq_reads cur_code cs s)"
  using assms
proof (induction cs arbitrary: r s)
  case (Cons c cs)
  then have rel: "rel_sum (=) rq_agree (rq_do_call ieq c r) (rq_do_call ieq c s)"
    and reads: "rq_reads c r = rq_reads c s"
    using rq_call_agree [of r s c ieq] by auto
  show ?case
  proof (cases "rq_do_call ieq c r")
    case (Inl f)
    with rel show ?thesis by (cases "rq_do_call ieq c s") auto
  next
    case (Inr r1)
    with rel obtain s1 where s1: "rq_do_call ieq c s = Inr s1" "rq_agree r1 s1"
      by (cases "rq_do_call ieq c s") auto
    have "rq_inv r1" using rq.call_inv [of r c ieq r1] Cons.prems Inr by simp
    then have "rel_sum (=) (rel_prod (=) rq_agree) (run_calls (rq_do_call ieq) rq_reads cur_code cs r1)
        (run_calls (rq_do_call ieq) rq_reads cur_code cs s1)"
      using Cons.prems Inr s1 by (intro Cons.IH) auto
    moreover have "cur_code r1 = cur_code s1" using s1(2) by (simp add: rq_agree_def)
    ultimately show ?thesis
      using Inr s1 reads by (auto elim!: rel_sum.cases split: sum.splits)
  qed
qed simp

lemma rq_reset_agree: "rq_agree (rq_reset r) (rq_new v n)"
  by (simp add: rq_agree_def rq_reset_def rq_new_def rq_version_known_def rq_body_size_known_def)

section \<open>Codes of a request\<close>

definition response_codes :: "code set" where
  "response_codes = {code_error_set_method, code_error_use_another_connection, code_status_code,
     code_reason_phrase}"

lemma rq_switch_codes:
  assumes "cur_code r \<notin> response_codes"
  shows "outcome_all (\<lambda>r'. cur_code r' \<notin> response_codes) (rq_switch ieq r)"
  using assms
  by (cases "state r") (simp_all add: rq_all_simps response_codes_def split: rq_goal_splits)

lemma rq_next_codes:
  "cur_code r \<notin> response_codes \<Longrightarrow> rq_next ieq r = Inr r' \<Longrightarrow> cur_code r' \<notin> response_codes"
proof (induction ieq r rule: rq_next.induct)
  case (1 ieq r)
  have "cur_code (consume r) \<notin> response_codes" by (simp add: response_codes_def)
  note switch = rq_switch_codes [OF this, of ieq]
  show ?case
  proof (cases "rq_switch ieq (consume r)")
    case (Tail_next r1)
    with switch have "cur_code r1 \<notin> response_codes" by simp
    with 1 Tail_next show ?thesis
      by (auto simp: rq_next.simps [of ieq r] response_codes_def Let_def split: if_splits)
  qed (use 1 switch in \<open>auto simp: rq_next.simps [of ieq r] response_codes_def Let_def split: if_splits\<close>)
qed

lemma rq_run_codes:
  "cur_code r \<notin> response_codes \<Longrightarrow> run_calls (rq_do_call ieq) rq_reads cur_code cs r = Inr (xs, r') \<Longrightarrow>
   cur_code r' \<notin> response_codes"
proof (induction cs arbitrary: r xs)
  case (Cons c cs)
  then obtain r1 ys where r1: "rq_do_call ieq c r = Inr r1"
    and run: "run_calls (rq_do_call ieq) rq_reads cur_code cs r1 = Inr (ys, r')"
    by (auto split: sum.splits prod.splits)
  have "cur_code r1 \<notin> response_codes"
  proof (cases c)
    case RQ_call_next
    with r1 Cons.prems(1) show ?thesis using rq_next_codes [of r ieq r1] by simp
  next
    case (RQ_call_set_buffer buf)
    with r1 Cons.prems(1) show ?thesis
      using rq_next_codes [of "r\<lparr>ibuffer := buf, idx := 0\<rparr>" ieq r1]
      by (auto simp: rq_set_buffer_def Let_def split: if_splits)
  qed
  with run show ?case by (rule Cons.IH [rotated])
qed simp

end
