(* ===== verification/Request_Props.thy ===== *)
theory Request_Props
  imports Request_Resume Request_Order Request_Init
begin

text \<open>
  The properties of the request reader, for every behaviour \<open>ieq\<close> of the case-insensitive
  comparison the library calls. The concrete runs use an exact comparison.
\<close>

section \<open>A concrete client\<close>

abbreviation exact :: iequals where
  "exact \<equiv> (=)"

definition sample_start :: octets where
  "sample_start = ''GET /a HTT''"

definition sample_more :: octets where
  "sample_more = ''P/1.1'' @ [CHR 0x0D, CHR 0x0A] @ ''Host: x'' @ [CHR 0x0D, CHR 0x0A, CHR 0x0D, CHR 0x0A]"

text \<open>A reader in the middle of the fixed part of a request line.\<close>

definition sample_stopped :: request where
  "sample_stopped = \<lparr>body_size = 0, cur_code = code_request_target, idx = 4, token_size = 2,
     ibuffer = sample_start, version = RQ_HTTP_1_0, body_type = RQ_NO_BODY,
     state = RQ_EXPECT_STATIC_STR_AFTER_TARGET\<rparr>"

lemma sample_stopped_inv: "rq_inv sample_stopped"
  by (simp add: sample_stopped_def sample_start_def rq_inv_defs)

section \<open>Resuming\<close>

text \<open>C1: the reader is incremental. When \<open>next()\<close> runs out of data inside a token and the
  client then sets a buffer that continues the unparsed octets with more data, the reader is in
  the same situation, for everything it will report, as if the longer buffer had been there at
  once; in particular it reports the same code, the same token and the same error.\<close>

theorem request_resume:
  assumes "rq_inv r" and "rq_next ieq r = Inr r1" and "cur_code r1 = code_error_insufficient_data"
  shows "rel_sum (=) rq_sim (rq_next ieq (r\<lparr>ibuffer := ibuffer r @ d\<rparr>))
           (rq_set_buffer ieq (rest r1 @ d) r1)"
  by (rule rq_next_resume [OF assms])

theorem request_resume_witness:
  "rq_inv sample_stopped \<and>
   (\<exists>r1. rq_next exact sample_stopped = Inr r1 \<and> cur_code r1 = code_error_insufficient_data \<and>
     rest r1 = '' HTT'' \<and>
     rel_sum (=) rq_sim (rq_next exact (sample_stopped\<lparr>ibuffer := sample_start @ sample_more\<rparr>))
       (rq_set_buffer exact ('' HTT'' @ sample_more) r1))"
proof -
  let ?r1 = "sample_stopped\<lparr>idx := 6, token_size := 4, cur_code := code_error_insufficient_data\<rparr>"
  have next_r: "rq_next exact sample_stopped = Inr ?r1" by code_simp
  have "rest ?r1 = '' HTT''" and "ibuffer sample_stopped = sample_start" by code_simp+
  with request_resume [OF sample_stopped_inv next_r, of sample_more] next_r sample_stopped_inv
  show ?thesis by (intro conjI exI [of _ ?r1]) simp_all
qed

section \<open>Order of the tokens\<close>

abbreviation rq_run :: "iequals \<Rightarrow> rq_call list \<Rightarrow> request \<Rightarrow> fault + (symbol list \<times> request)" where
  "rq_run ieq \<equiv> run_calls (rq_do_call ieq) rq_reads cur_code"

abbreviation rq_contract :: "iequals \<Rightarrow> rq_call list \<Rightarrow> request \<Rightarrow> bool" where
  "rq_contract ieq \<equiv> keeps_contract (rq_do_call ieq) rq_allowed"

definition sample_message :: octets where
  "sample_message = sample_start @ sample_more"

definition sample_calls :: "rq_call list" where
  "sample_calls = RQ_call_set_buffer sample_message # replicate 14 RQ_call_next"

definition sample_symbols :: "symbol list" where
  "sample_symbols =
     [symbol_method, symbol_request_target, symbol_version, symbol_field_name, symbol_field_value,
      symbol_end_of_headers, symbol_end_of_body, symbol_end_of_message]"

text \<open>C2: whatever calls of \<open>next()\<close> and \<open>set_buffer()\<close> a client makes within their
  contract on a new reader, the tokens it is given are those of whole requests, one after
  another, and then the beginning of another one, tokens that others complete to a request: a
  request line, fields in pairs of name and value, the end of the headers, the body, its end,
  trailers in pairs, the end of the message. Unless it has failed, the reader is at the point of the
  message these tokens lead to, so that it is at the start of a message only after the end of the
  last one was reported.\<close>

theorem request_messages:
  assumes "rq_contract ieq cs (rq_new v n)" and "rq_run ieq cs (rq_new v n) = Inr (xs, r)"
  shows "whole_messages request_line xs \<and>
    (state r \<noteq> RQ_ERRORED \<longrightarrow>
     (\<exists>q. rq_phase r = Some q \<and> grammar_path request_line (Start_line request_line) xs q))"
proof -
  have "rq_phase (rq_new v n) = Some (Start_line request_line)" by (simp add: rq_phase_def rq_new_def)
  moreover have "rq_phase r = None \<longleftrightarrow> state r = RQ_ERRORED"
    by (cases "state r") (simp_all add: rq_phase_def)
  ultimately show ?thesis using rq.run_messages [OF rq_new_inv _ assms] by auto
qed

theorem request_messages_witness:
  "rq_contract exact sample_calls (rq_new RQ_HTTP_1_0 0) \<and>
   map_sum id fst (rq_run exact sample_calls (rq_new RQ_HTTP_1_0 0)) = Inr sample_symbols \<and>
   whole_messages request_line sample_symbols"
proof -
  have contract: "rq_contract exact sample_calls (rq_new RQ_HTTP_1_0 0)" by code_simp
  have run: "map_sum id fst (rq_run exact sample_calls (rq_new RQ_HTTP_1_0 0)) = Inr sample_symbols"
    by code_simp
  then obtain r where "rq_run exact sample_calls (rq_new RQ_HTTP_1_0 0) = Inr (sample_symbols, r)"
    by (cases "rq_run exact sample_calls (rq_new RQ_HTTP_1_0 0)") auto
  from request_messages [OF contract this] contract run show ?thesis by simp
qed

section \<open>Safety\<close>

lemma rq_call_fault:
  assumes "rq_inv r" and "rq_allowed c r" and "rq_do_call ieq c r = Inl f"
  shows "f = Out_of_bounds"
proof (cases c)
  case RQ_call_next
  then show ?thesis using assms rq_next_fault_iff [of r ieq f] by simp
next
  case (RQ_call_set_buffer buf)
  with assms show ?thesis
    using rq_rebuffer_inv [of r buf] rq_next_fault_iff [of "r\<lparr>ibuffer := buf, idx := 0\<rparr>" ieq f]
    by (auto simp: rq_set_buffer_def Let_def split: if_splits)
qed

lemma rq_run_fault:
  "rq_inv r \<Longrightarrow> rq_contract ieq cs r \<Longrightarrow> rq_run ieq cs r = Inl f \<Longrightarrow> f = Out_of_bounds"
proof (induction cs arbitrary: r)
  case (Cons c cs)
  then show ?case
    using rq_call_fault [of r c ieq f] rq.call_inv [of r c ieq]
    by (auto split: sum.splits prod.splits)
qed simp

text \<open>C3: the invariant holds after every sequence of calls within the contract on a new
  reader: the current token lies in the buffer, \<open>body_type\<close> and \<open>body_size\<close> agree with
  the state, a partial token is a prefix of a valid one, and the reader is in its error state
  exactly when it reports an error other than the lack of data. No assertion fails and no
  statement marked unreachable is reached.\<close>

theorem request_invariant:
  assumes "rq_contract ieq cs (rq_new v n)"
  shows "case rq_run ieq cs (rq_new v n) of Inl f \<Rightarrow> f = Out_of_bounds | Inr (xs, r) \<Rightarrow> rq_inv r"
  using rq.run_inv [OF rq_new_inv assms] rq_run_fault [OF rq_new_inv assms]
  by (auto split: sum.split)

theorem request_invariant_witness:
  "rq_contract exact sample_calls (rq_new RQ_HTTP_1_0 0) \<and>
   (case rq_run exact sample_calls (rq_new RQ_HTTP_1_0 0) of
      Inl f \<Rightarrow> f = Out_of_bounds | Inr (xs, r) \<Rightarrow> rq_inv r)"
proof -
  have "rq_contract exact sample_calls (rq_new RQ_HTTP_1_0 0)" by code_simp
  with request_invariant [OF this] show ?thesis by blast
qed

text \<open>C4: \<open>next()\<close> stays inside its buffer and its views on all data but one kind. Only when a
  header field has an empty value, that is when after the colon and its white space the data at hand
  begin with an octet no field value contains, it hands an empty view to \<open>decode_field_value\<close>, which
  then indexes outside of it. C++ leaves that undefined, and it is the fault \<open>Out_of_bounds\<close> here. The
  tests of the library (\<open>test/request_good.cpp\<close>, lines 889 to 891) and a comment in \<open>next()\<close>
  expect a token of size 0 with an empty value, which only address arithmetic that wraps around gives
  (\<open>decode_field_value_flat\<close>). Otherwise \<open>next()\<close> returns and keeps the invariant.\<close>

theorem request_fault_iff:
  assumes "rq_inv r"
  shows "if rq_empty_value r then rq_next ieq r = Inl Out_of_bounds
    else \<exists>r'. rq_next ieq r = Inr r' \<and> rq_inv r'"
proof (cases "rq_next ieq r")
  case (Inl f)
  with rq_next_fault_iff [OF assms, of ieq f] show ?thesis by auto
next
  case (Inr r')
  with rq_next_fault_iff [OF assms, of ieq Out_of_bounds] rq_next_inv [OF assms Inr] show ?thesis by auto
qed

definition sample_empty_value :: octets where
  "sample_empty_value = ''Host:'' @ [CHR 0x0D, CHR 0x0A, CHR 0x0D, CHR 0x0A]"

definition sample_at_colon :: request where
  "sample_at_colon = \<lparr>body_size = 0, cur_code = code_skip, idx = 4, token_size = 1,
     ibuffer = sample_empty_value, version = RQ_NOT_HTTP_1_0_AND_HOST_READ, body_type = RQ_NO_BODY,
     state = RQ_EXPECT_FIELD_VALUE\<rparr>"

theorem request_fault_iff_witness:
  "rq_inv sample_at_colon \<and> rq_empty_value sample_at_colon \<and>
   rq_next exact sample_at_colon = Inl Out_of_bounds"
proof -
  have inv: "rq_inv sample_at_colon"
    by (simp add: sample_at_colon_def sample_empty_value_def rq_inv_defs)
  have "rq_empty_value sample_at_colon" by code_simp
  with inv request_fault_iff [OF inv, of exact] show ?thesis by simp
qed

section \<open>The client's loop\<close>

text \<open>C21: the loop in which a client pulls tokens until the reader reports an error or wants
  more data ends on every buffer, after a number of tokens linear in its size.\<close>

theorem request_pull_ends:
  assumes "rq_inv r"
  shows "\<exists>es x. pull (rq_next ieq) cur_code view r = Some (es, x) \<and>
    length es \<le> 3 * length (ibuffer r) + 3 \<and>
    (\<forall>r'. x = Inr r' \<longrightarrow> rq_inv r' \<and> symbol_convert (cur_code r') = symbol_error)"
proof -
  have "rq_pending r \<le> 3 * length (ibuffer r) + 2"
    using rq_rank_le [of "state r"] by (simp add: rq_pending_def)
  with rq.pull_ends [OF assms, of ieq view] show ?thesis by fastforce
qed

text \<open>The same reader as the client sees it after its first \<open>set_buffer\<close>.\<close>

definition sample_loaded :: request where
  "sample_loaded = \<lparr>body_size = 0, cur_code = code_method, idx = 0, token_size = 3,
     ibuffer = sample_message, version = RQ_HTTP_1_0, body_type = RQ_NO_BODY,
     state = RQ_EXPECT_SP_AFTER_METHOD\<rparr>"

lemma sample_loaded_inv: "rq_inv sample_loaded"
  by (simp add: sample_loaded_def sample_message_def sample_start_def rq_inv_defs)

theorem request_pull_ends_witness:
  "rq_inv sample_loaded \<and> (\<exists>es x. pull (rq_next exact) cur_code cur_code sample_loaded = Some (es, x) \<and>
     length es \<le> 3 * length (ibuffer sample_loaded) + 3)"
  using sample_loaded_inv request_pull_ends [OF sample_loaded_inv, of exact cur_code] by blast

text \<open>C22: the tokens the loop is given are consecutive parts of the buffer: joined together
  they are what was consumed, and the octets behind them are still there.\<close>

theorem request_pull_partition:
  assumes "rq_inv r" and "pull (rq_next ieq) cur_code token_prefix r = Some (es, Inr r')"
  shows "rest r = concat es @ rest r'"
  by (rule rq.pull_partition [OF assms])

definition sample_tokens :: "octets list" where
  "sample_tokens = [''GET'', '' '', ''/a'', '' HTTP/1.'', ''1'', [CHR 0x0D, CHR 0x0A], ''Host'', '': '',
     ''x'', [CHR 0x0D, CHR 0x0A], [CHR 0x0D, CHR 0x0A], [], []]"

theorem request_pull_partition_witness:
  "rq_inv sample_loaded \<and>
   (\<exists>r'. pull (rq_next exact) cur_code token_prefix sample_loaded = Some (sample_tokens, Inr r') \<and>
     sample_message = concat sample_tokens @ rest r')"
proof -
  have "map_option (apsnd (map_sum id cur_code)) (pull (rq_next exact) cur_code token_prefix sample_loaded) =
      Some (sample_tokens, Inr code_error_insufficient_data)"
    by code_simp
  then obtain r' where run:
    "pull (rq_next exact) cur_code token_prefix sample_loaded = Some (sample_tokens, Inr r')"
    by (auto simp: apsnd_def) (metis Inl_Inr_False map_sum.simps(1) obj_sumE)
  have "rest sample_loaded = sample_message" by (simp add: sample_loaded_def rest_def)
  with run sample_loaded_inv request_pull_partition [OF sample_loaded_inv run] show ?thesis by auto
qed

text \<open>C33: what \<open>expected_token()\<close> is worth. The token \<open>next()\<close> reports, errors apart, is the
  announced one unless \<open>rq_instead\<close> gives another, and it is then that one: the end of the headers or
  of the message where a name is announced and the next octet begins none, a value or the end of the
  line where white space or a chunk extension is announced and the next octet is none, the end of the
  body behind the size of the last chunk. Where the end of the line after all headers or trailers has
  been cut in two, \<open>expected_token()\<close> announces octets to skip although only the end of the headers or
  of the message can follow.\<close>

theorem request_expected_token:
  assumes "rq_inv r" and "rq_next ieq r = Inr r'" and "symbol_convert (cur_code r') \<noteq> symbol_error"
  shows "cur_code r' = (case rq_instead r of None \<Rightarrow> rq_expected_token r | Some c \<Rightarrow> c) \<and>
    (cur_code r' = rq_expected_token r \<longleftrightarrow> rq_instead r = None)"
  using rq_next_reports [OF assms] rq_instead_unexpected [of r]
  by (auto simp: rq_reports_def split: option.split)

theorem request_expected_token_witness:
  "\<exists>r'. rq_inv sample_loaded \<and> rq_next exact sample_loaded = Inr r' \<and>
     symbol_convert (cur_code r') \<noteq> symbol_error \<and> cur_code r' = rq_expected_token sample_loaded"
proof -
  let ?r' = "sample_loaded\<lparr>idx := 3, token_size := 1, cur_code := code_skip,
    state := RQ_EXPECT_REQUEST_TARGET\<rparr>"
  have run: "rq_next exact sample_loaded = Inr ?r'" by code_simp
  moreover have "symbol_convert (cur_code ?r') \<noteq> symbol_error" by simp
  moreover have "rq_expected_token sample_loaded = code_skip" by code_simp
  ultimately show ?thesis
    using request_expected_token [OF sample_loaded_inv run] sample_loaded_inv
    by (intro exI [of _ ?r']) simp
qed

text \<open>C32: the client may erase the parsed octets. After \<open>set_buffer\<close> with a buffer that
  starts at the current token, the reader goes on as before.\<close>

theorem request_erase_parsed:
  assumes "rq_inv r" and "cur_code r \<noteq> code_error_insufficient_data"
  shows "\<exists>r2. rq_set_buffer ieq (drop (rq_parsed_count r) (ibuffer r)) r = Inr r2 \<and>
    rq_parsed_count r2 = 0 \<and> rel_sum (=) rq_sim (rq_next ieq r) (rq_next ieq r2)"
proof -
  let ?r2 = "r\<lparr>ibuffer := rest r, idx := 0\<rparr>"
  have "keeps_token (rest r) r"
    using assms(1) by (auto simp: keeps_token_def token_prefix_def rq_inv_def in_range_def)
  with assms(1) have "rq_inv ?r2" by (rule rq_rebuffer_inv)
  moreover have "rq_sim r ?r2" by (simp add: rq_sim_def) (simp add: rest_def)
  ultimately have "rel_sum (=) rq_sim (rq_next ieq r) (rq_next ieq ?r2)"
    using assms(1) by (intro rq_next_sim)
  moreover have "rq_set_buffer ieq (drop (rq_parsed_count r) (ibuffer r)) r = Inr ?r2"
    using assms(2) by (simp add: rq_set_buffer_def rq_parsed_count_def rest_def)
  ultimately show ?thesis by (intro exI [of _ ?r2]) (simp add: rq_parsed_count_def)
qed

theorem request_erase_parsed_witness:
  "rq_inv sample_stopped \<and> cur_code sample_stopped \<noteq> code_error_insufficient_data \<and>
   (\<exists>r2. rq_set_buffer exact ''/a HTT'' sample_stopped = Inr r2 \<and>
     rel_sum (=) rq_sim (rq_next exact sample_stopped) (rq_next exact r2))"
proof -
  have "cur_code sample_stopped \<noteq> code_error_insufficient_data" by (simp add: sample_stopped_def)
  moreover have "drop (rq_parsed_count sample_stopped) (ibuffer sample_stopped) = ''/a HTT''"
    by code_simp
  ultimately show ?thesis
    using request_erase_parsed [OF sample_stopped_inv, of exact] sample_stopped_inv by auto
qed

section \<open>Initialisation\<close>

text \<open>C30: no call reads a member before it is written. Whatever indeterminate values the
  constructor leaves in \<open>version\<close> and \<open>body_size\<close>, every sequence of calls within the
  contract gives the same codes, tokens and faults.\<close>

theorem request_uninitialised:
  assumes "rq_contract ieq cs (rq_new v n)"
  shows "rel_sum (=) (rel_prod (=) rq_agree) (rq_run ieq cs (rq_new v n)) (rq_run ieq cs (rq_new v' n'))"
  using assms
  by (intro rq_run_agree rq_new_inv)
     (simp_all add: rq_agree_def rq_new_def rq_version_known_def rq_body_size_known_def)

theorem request_uninitialised_witness:
  "rq_contract exact sample_calls (rq_new RQ_HTTP_1_0 0) \<and>
   rel_sum (=) (rel_prod (=) rq_agree) (rq_run exact sample_calls (rq_new RQ_HTTP_1_0 0))
     (rq_run exact sample_calls (rq_new RQ_NOT_HTTP_1_0_AND_HOST_READ 77))"
proof -
  have "rq_contract exact sample_calls (rq_new RQ_HTTP_1_0 0)" by code_simp
  with request_uninitialised [OF this] show ?thesis by blast
qed

text \<open>C31: after \<open>reset()\<close>, in whatever state and after whatever error, the reader behaves
  like a new one.\<close>

theorem request_reset:
  assumes "rq_contract ieq cs (rq_reset r)"
  shows "rel_sum (=) (rel_prod (=) rq_agree) (rq_run ieq cs (rq_reset r)) (rq_run ieq cs (rq_new v n))"
  by (rule rq_run_agree [OF rq_reset_inv rq_reset_agree assms])

theorem request_reset_witness:
  "rq_contract exact sample_calls (rq_reset (rq_fail code_error_invalid_data sample_at_colon)) \<and>
   map_sum id fst (rq_run exact sample_calls (rq_reset (rq_fail code_error_invalid_data sample_at_colon))) =
   map_sum id fst (rq_run exact sample_calls (rq_new RQ_HTTP_1_0 0))"
proof -
  let ?r = "rq_reset (rq_fail code_error_invalid_data sample_at_colon)"
  have contract: "rq_contract exact sample_calls ?r" by code_simp
  from request_reset [OF contract, of RQ_HTTP_1_0 0] contract show ?thesis
    by (auto elim!: rel_sum.cases)
qed

text \<open>C34: a request reader never reports the codes of responses: no status code, no reason
  phrase, and neither of the errors about the method and about another connection.\<close>

theorem request_codes:
  assumes "rq_run ieq cs (rq_new v n) = Inr (xs, r)"
  shows "cur_code r \<notin> {code_error_set_method, code_error_use_another_connection, code_status_code,
    code_reason_phrase}"
proof -
  have "cur_code (rq_new v n) \<notin> response_codes" by (simp add: rq_new_def response_codes_def)
  from rq_run_codes [OF this assms] show ?thesis unfolding response_codes_def .
qed

theorem request_codes_witness:
  "\<exists>xs r. rq_run exact sample_calls (rq_new RQ_HTTP_1_0 0) = Inr (xs, r) \<and>
     cur_code r \<notin> {code_error_set_method, code_error_use_another_connection, code_status_code,
       code_reason_phrase}"
proof -
  have "map_sum id fst (rq_run exact sample_calls (rq_new RQ_HTTP_1_0 0)) = Inr sample_symbols"
    by code_simp
  then obtain r where "rq_run exact sample_calls (rq_new RQ_HTTP_1_0 0) = Inr (sample_symbols, r)"
    by (cases "rq_run exact sample_calls (rq_new RQ_HTTP_1_0 0)") auto
  with request_codes [OF this] show ?thesis by blast
qed

end
