(* ===== verification/Response.thy ===== *)
theory Response
  imports Reader_Common
begin

text \<open>
  The response reader, \<open>class response\<close> (\<open>reader/response.hpp\<close>,
  \<open>reader/response.ipp\<close>): its members, its states and one definition per case of the
  \<open>switch\<close> in \<open>next()\<close>, composed by \<open>rs_switch\<close> and \<open>rs_next\<close> the way the
  code composes them. Unlike requests, responses need to know the method of their request
  (\<open>set_method\<close>) and may be delimited by the end of the connection (\<open>puteof\<close>).
\<close>

section \<open>State\<close>

datatype rs_state =
    RS_ERRORED
  | RS_EXPECT_VERSION_STATIC_STR
  | RS_EXPECT_VERSION
  | RS_EXPECT_SP_AFTER_VERSION
  | RS_EXPECT_STATUS_CODE
  | RS_EXPECT_SP_AFTER_STATUS_CODE
  | RS_EXPECT_REASON_PHRASE
  | RS_EXPECT_CRLF_AFTER_REASON_PHRASE
  | RS_EXPECT_FIELD_NAME
  | RS_EXPECT_COLON
  | RS_EXPECT_OWS_AFTER_COLON
  | RS_EXPECT_FIELD_VALUE
  | RS_EXPECT_CRLF_AFTER_FIELD_VALUE
  | RS_EXPECT_CRLF_AFTER_HEADERS
  | RS_EXPECT_BODY
  | RS_EXPECT_UNSAFE_BODY
  | RS_EXPECT_END_OF_BODY
  | RS_EXPECT_END_OF_MESSAGE
  | RS_EXPECT_END_OF_CONNECTION_ERROR
  | RS_EXPECT_CHUNK_SIZE
  | RS_EXPECT_CHUNK_EXT
  | RS_EXPECT_CRLF_AFTER_CHUNK_EXT
  | RS_EXPECT_CHUNK_DATA
  | RS_EXPECT_CRLF_AFTER_CHUNK_DATA
  | RS_EXPECT_TRAILER_NAME
  | RS_EXPECT_TRAILER_COLON
  | RS_EXPECT_OWS_AFTER_TRAILER_COLON
  | RS_EXPECT_TRAILER_VALUE
  | RS_EXPECT_CRLF_AFTER_TRAILER_VALUE
  | RS_EXPECT_CRLF_AFTER_TRAILERS

datatype rs_body_type =
    RS_UNKNOWN_BODY
  | RS_CONNECTION_DELIMITED
  | RS_FORCE_NO_BODY
  | RS_FORCE_NO_BODY_AND_STOP
  | RS_CONTENT_LENGTH_READ
  | RS_CHUNKED_ENCODING_READ
  | RS_RANDOM_ENCODING_READ
  | RS_READING_CONTENT_LENGTH
  | RS_READING_ENCODING

text \<open>The enumerators for the bits of \<open>connection_flags\<close>, a \<open>uint8_t\<close>.\<close>

definition EOF_RECEIVED :: "8 word" where
  "EOF_RECEIVED = 1"

definition HTTP_1_0 :: "8 word" where
  "HTTP_1_0 = push_bit 1 1"

record response = reader_data +
  connection_flags :: "8 word"
  resp_body_type :: rs_body_type
  resp_state :: rs_state

definition has_flag :: "8 word \<Rightarrow> response \<Rightarrow> bool" where
  "has_flag f r \<longleftrightarrow> and (connection_flags r) f \<noteq> 0"

text \<open>The constructor leaves \<open>body_size\<close> uninitialised: its indeterminate value is an
  argument here.\<close>

definition rs_new :: "u64 \<Rightarrow> response" where
  "rs_new n =
     \<lparr>body_size = n, cur_code = code_error_insufficient_data, idx = 0, token_size = 0,
      ibuffer = [], connection_flags = 0, resp_body_type = RS_UNKNOWN_BODY,
      resp_state = RS_EXPECT_VERSION_STATIC_STR\<rparr>"

definition rs_value_status_code :: "response \<Rightarrow> fault + 16 word" where
  "rs_value_status_code r =
     (if cur_code r \<noteq> code_status_code then Inl Assertion
      else case_sum Inl status_code_decode (token_view r))"

definition rs_set_method :: "octets \<Rightarrow> response \<Rightarrow> fault + response" where
  "rs_set_method meth r =
     (if cur_code r \<noteq> code_status_code then Inl Assertion
      else case rs_value_status_code r of
          Inl f \<Rightarrow> Inl f
        | Inr status_code \<Rightarrow>
            let code_class = status_code div 100 in
            if code_class = 1 \<or> status_code = 204 \<or> status_code = 304 \<or> meth = ''HEAD''
            then Inr (r\<lparr>resp_body_type := RS_FORCE_NO_BODY, body_size := 0\<rparr>)
            else if code_class = 2 \<and> meth = ''CONNECT''
            then Inr (r\<lparr>resp_body_type := RS_FORCE_NO_BODY_AND_STOP, body_size := 0\<rparr>)
            else Inr (r\<lparr>resp_body_type := RS_CONNECTION_DELIMITED\<rparr>))"

definition rs_reset :: "response \<Rightarrow> response" where
  "rs_reset r = r\<lparr>connection_flags := 0, resp_body_type := RS_UNKNOWN_BODY,
     resp_state := RS_EXPECT_VERSION_STATIC_STR,
     cur_code := code_error_insufficient_data, idx := 0, token_size := 0, ibuffer := []\<rparr>"

definition rs_puteof :: "response \<Rightarrow> response" where
  "rs_puteof r = r\<lparr>connection_flags := or (connection_flags r) EOF_RECEIVED\<rparr>"

section \<open>Inspecting the current token\<close>

definition rs_symbol :: "response \<Rightarrow> symbol" where
  "rs_symbol r = symbol_convert (cur_code r)"

definition rs_category :: "response \<Rightarrow> category" where
  "rs_category r = category_convert_code (cur_code r)"

definition rs_value_version :: "response \<Rightarrow> fault + int" where
  "rs_value_version r =
     (if cur_code r \<noteq> code_version then Inl Assertion
      else map_sum id (\<lambda>c. int (byte c) - int (byte (CHR ''0''))) (byte_at (ibuffer r) (idx r)))"

definition rs_value_reason_phrase :: "response \<Rightarrow> fault + octets" where
  "rs_value_reason_phrase r =
     (if cur_code r \<noteq> code_reason_phrase then Inl Assertion else token_view r)"

definition rs_value_field_name :: "response \<Rightarrow> fault + octets" where
  "rs_value_field_name r =
     (if \<not> (cur_code r = code_field_name \<or> cur_code r = code_trailer_name)
      then Inl Assertion else token_view r)"

definition rs_value_field_value :: "response \<Rightarrow> fault + octets" where
  "rs_value_field_value r =
     (if \<not> (cur_code r = code_field_value \<or> cur_code r = code_trailer_value)
      then Inl Assertion else case_sum Inl decode_field_value (token_view r))"

definition rs_value_chunk_ext :: "response \<Rightarrow> fault + u64 \<times> octets" where
  "rs_value_chunk_ext r =
     (if cur_code r \<noteq> code_chunk_ext then Inl Assertion
      else map_sum id (Pair (body_size r)) (token_view r))"

definition rs_value_body_chunk :: "response \<Rightarrow> fault + octets" where
  "rs_value_body_chunk r =
     (if cur_code r \<noteq> code_body_chunk then Inl Assertion
      else Inr (take (token_size r) (rest r)))"

definition rs_value_trailer_name :: "response \<Rightarrow> fault + octets" where
  "rs_value_trailer_name r =
     (if cur_code r \<noteq> code_trailer_name then Inl Assertion else token_view r)"

definition rs_value_trailer_value :: "response \<Rightarrow> fault + octets" where
  "rs_value_trailer_value r =
     (if cur_code r \<noteq> code_trailer_value then Inl Assertion
      else case_sum Inl decode_field_value (token_view r))"

definition rs_expected_token :: "response \<Rightarrow> code" where
  "rs_expected_token r =
     (case resp_state r of
        RS_ERRORED \<Rightarrow> cur_code r
      | RS_EXPECT_VERSION_STATIC_STR \<Rightarrow> code_skip
      | RS_EXPECT_SP_AFTER_VERSION \<Rightarrow> code_skip
      | RS_EXPECT_SP_AFTER_STATUS_CODE \<Rightarrow> code_skip
      | RS_EXPECT_CRLF_AFTER_REASON_PHRASE \<Rightarrow> code_skip
      | RS_EXPECT_COLON \<Rightarrow> code_skip
      | RS_EXPECT_CRLF_AFTER_HEADERS \<Rightarrow> code_skip
      | RS_EXPECT_OWS_AFTER_COLON \<Rightarrow> code_skip
      | RS_EXPECT_CRLF_AFTER_FIELD_VALUE \<Rightarrow> code_skip
      | RS_EXPECT_CHUNK_SIZE \<Rightarrow> code_skip
      | RS_EXPECT_CRLF_AFTER_CHUNK_EXT \<Rightarrow> code_skip
      | RS_EXPECT_CRLF_AFTER_CHUNK_DATA \<Rightarrow> code_skip
      | RS_EXPECT_TRAILER_COLON \<Rightarrow> code_skip
      | RS_EXPECT_OWS_AFTER_TRAILER_COLON \<Rightarrow> code_skip
      | RS_EXPECT_CRLF_AFTER_TRAILER_VALUE \<Rightarrow> code_skip
      | RS_EXPECT_CRLF_AFTER_TRAILERS \<Rightarrow> code_skip
      | RS_EXPECT_VERSION \<Rightarrow> code_version
      | RS_EXPECT_STATUS_CODE \<Rightarrow> code_status_code
      | RS_EXPECT_REASON_PHRASE \<Rightarrow> code_reason_phrase
      | RS_EXPECT_FIELD_NAME \<Rightarrow> code_field_name
      | RS_EXPECT_FIELD_VALUE \<Rightarrow> code_field_value
      | RS_EXPECT_CHUNK_EXT \<Rightarrow> code_chunk_ext
      | RS_EXPECT_BODY \<Rightarrow> code_body_chunk
      | RS_EXPECT_UNSAFE_BODY \<Rightarrow> code_body_chunk
      | RS_EXPECT_CHUNK_DATA \<Rightarrow> code_body_chunk
      | RS_EXPECT_TRAILER_NAME \<Rightarrow> code_trailer_name
      | RS_EXPECT_TRAILER_VALUE \<Rightarrow> code_trailer_value
      | RS_EXPECT_END_OF_BODY \<Rightarrow> code_end_of_body
      | RS_EXPECT_END_OF_MESSAGE \<Rightarrow> code_end_of_message
      | RS_EXPECT_END_OF_CONNECTION_ERROR \<Rightarrow> code_error_use_another_connection)"

definition rs_parsed_count :: "response \<Rightarrow> nat" where
  "rs_parsed_count r = idx r"

section \<open>The cases of next()\<close>

text \<open>The two recurring endings: an error, and a complete token.\<close>

definition rs_fail :: "code \<Rightarrow> response \<Rightarrow> response" where
  "rs_fail c r = r\<lparr>resp_state := RS_ERRORED, cur_code := c\<rparr>"

definition rs_token :: "rs_state \<Rightarrow> code \<Rightarrow> nat \<Rightarrow> response \<Rightarrow> response" where
  "rs_token s c n r = r\<lparr>resp_state := s, cur_code := c, token_size := n\<rparr>"

definition rs_static_str :: octets where
  "rs_static_str = ''HTTP/1.''"

definition rs_version_static_str :: "response \<Rightarrow> response outcome" where
  "rs_version_static_str r =
     (let count = min (length (ibuffer r)) (idx r + length rs_static_str) in
      guarded (static_scan rs_static_str (ibuffer r) (idx r) (idx r + token_size r) count) (\<lambda>equal.
        if \<not> equal then Return (rs_fail code_error_invalid_data r)
        else let r = r\<lparr>token_size := count - idx r\<rparr> in
          if token_size r = length rs_static_str
          then Return (r\<lparr>resp_state := RS_EXPECT_VERSION, cur_code := code_skip\<rparr>)
          else Return r))"

definition rs_version :: "response \<Rightarrow> response outcome" where
  "rs_version r =
     guarded (byte_at (ibuffer r) (idx r)) (\<lambda>c.
       if byte c < byte (CHR ''0'') \<or> byte c > byte (CHR ''9'')
       then Return (rs_fail code_error_invalid_data r)
       else let r = rs_token RS_EXPECT_SP_AFTER_VERSION code_version 1 r in
         if c = CHR ''0'' then Return (r\<lparr>connection_flags := or (connection_flags r) HTTP_1_0\<rparr>)
         else Return r)"

definition rs_sp_after_version :: "response \<Rightarrow> response outcome" where
  "rs_sp_after_version r =
     guarded (byte_at (ibuffer r) (idx r)) (\<lambda>c.
       if is_sp c then Return (rs_token RS_EXPECT_STATUS_CODE code_skip 1 r)
       else Return (rs_fail code_error_invalid_data r))"

definition rs_status_code :: "response \<Rightarrow> response outcome" where
  "rs_status_code r =
     (let nmatched = status_code_match (rest r) in
      if length (rest r) < 3 then Return r
      else if nmatched = 0 then Return (rs_fail code_error_invalid_data r)
      else Return (rs_token RS_EXPECT_SP_AFTER_STATUS_CODE code_status_code nmatched r))"

definition rs_sp_after_status_code :: "response \<Rightarrow> response outcome" where
  "rs_sp_after_status_code r =
     (if resp_body_type r = RS_UNKNOWN_BODY then Return (rs_fail code_error_set_method r)
      else guarded (byte_at (ibuffer r) (idx r)) (\<lambda>c.
        if is_sp c then Return (rs_token RS_EXPECT_REASON_PHRASE code_skip 1 r)
        else Return (rs_fail code_error_invalid_data r)))"

definition rs_reason_phrase :: "response \<Rightarrow> response outcome" where
  "rs_reason_phrase r =
     (let nmatched = reason_phrase_match (rest r) in
      if nmatched = length (rest r) then Return r
      else Return (rs_token RS_EXPECT_CRLF_AFTER_REASON_PHRASE code_reason_phrase nmatched r))"

definition rs_crlf_after_reason_phrase :: "response \<Rightarrow> response outcome" where
  "rs_crlf_after_reason_phrase r =
     (case liberal_crlf_match (rest r) of
        crlf_crlf \<Rightarrow> Return (rs_token RS_EXPECT_FIELD_NAME code_skip 2 r)
      | crlf_lf \<Rightarrow> Return (rs_token RS_EXPECT_FIELD_NAME code_skip 1 r)
      | crlf_insufficient_data \<Rightarrow> Return r
      | crlf_invalid_data \<Rightarrow> Return (rs_fail code_error_invalid_data r))"

text \<open>What a complete field name does to the framing state.\<close>

definition rs_known_field :: "iequals \<Rightarrow> octets \<Rightarrow> response \<Rightarrow> response outcome" where
  "rs_known_field ieq field r =
     (if resp_body_type r = RS_FORCE_NO_BODY \<or> resp_body_type r = RS_FORCE_NO_BODY_AND_STOP
      then Return r
      else if ieq field ''Transfer-Encoding'' \<and> \<not> has_flag HTTP_1_0 r then
        (case resp_body_type r of
           RS_CONTENT_LENGTH_READ \<Rightarrow> Return (r\<lparr>resp_body_type := RS_READING_ENCODING\<rparr>)
         | RS_CONNECTION_DELIMITED \<Rightarrow> Return (r\<lparr>resp_body_type := RS_READING_ENCODING\<rparr>)
         | RS_RANDOM_ENCODING_READ \<Rightarrow> Return (r\<lparr>resp_body_type := RS_READING_ENCODING\<rparr>)
         | RS_CHUNKED_ENCODING_READ \<Rightarrow> Return (rs_fail code_error_invalid_transfer_encoding r)
         | _ \<Rightarrow> Fault Unreachable)
      else if ieq field ''Content-Length'' then
        (case resp_body_type r of
           RS_CONNECTION_DELIMITED \<Rightarrow> Return (r\<lparr>resp_body_type := RS_READING_CONTENT_LENGTH\<rparr>)
         | RS_CONTENT_LENGTH_READ \<Rightarrow> Return (rs_fail code_error_invalid_content_length r)
         | RS_CHUNKED_ENCODING_READ \<Rightarrow> Return r
         | RS_RANDOM_ENCODING_READ \<Rightarrow> Return r
         | _ \<Rightarrow> Fault Unreachable)
      else Return r)"

definition rs_field_name :: "iequals \<Rightarrow> response \<Rightarrow> response outcome" where
  "rs_field_name ieq r =
     (let nmatched = field_name_match (rest r) in
      if nmatched = 0 then Tail_next (r\<lparr>resp_state := RS_EXPECT_CRLF_AFTER_HEADERS\<rparr>)
      else if nmatched = length (rest r) then Return r
      else let r = rs_token RS_EXPECT_COLON code_field_name nmatched r in
        guarded (rs_value_field_name r) (\<lambda>field. rs_known_field ieq field r))"

definition rs_colon :: "response \<Rightarrow> response outcome" where
  "rs_colon r =
     guarded (byte_at (ibuffer r) (idx r)) (\<lambda>c.
       if c \<noteq> CHR '':'' then Return (rs_fail code_error_invalid_data r)
       else guarded (scan_from is_ows (ibuffer r) (idx r + 1)) (\<lambda>i.
         Return (rs_token (if i \<noteq> length (ibuffer r) then RS_EXPECT_FIELD_VALUE
                           else RS_EXPECT_OWS_AFTER_COLON) code_skip (i - idx r) r)))"

definition rs_ows_after_colon :: "response \<Rightarrow> response outcome" where
  "rs_ows_after_colon r =
     (let nmatched = ows_match (rest r) in
      if nmatched = 0 then Tail_next (r\<lparr>resp_state := RS_EXPECT_FIELD_VALUE\<rparr>)
      else Return (r\<lparr>cur_code := code_skip, token_size := nmatched\<rparr>))"

text \<open>What a complete field value does to the framing state.\<close>

definition rs_framing_value :: "iequals \<Rightarrow> octets \<Rightarrow> response \<Rightarrow> response" where
  "rs_framing_value ieq field r =
     (case resp_body_type r of
        RS_READING_CONTENT_LENGTH \<Rightarrow>
          let (res, out) = content_length_decode field (body_size r);
              r = r\<lparr>resp_body_type := RS_CONTENT_LENGTH_READ, body_size := out\<rparr>
          in (case res of
                decode_invalid \<Rightarrow> rs_fail code_error_invalid_content_length r
              | decode_overflow \<Rightarrow> rs_fail code_error_content_length_overflow r
              | decode_ok \<Rightarrow> r)
      | RS_READING_ENCODING \<Rightarrow>
          (case decode_transfer_encoding ieq field of
             CHUNKED_INVALID \<Rightarrow> rs_fail code_error_invalid_transfer_encoding r
           | CHUNKED_NOT_FOUND \<Rightarrow> r\<lparr>resp_body_type := RS_RANDOM_ENCODING_READ\<rparr>
           | CHUNKED_AT_END \<Rightarrow> r\<lparr>resp_body_type := RS_CHUNKED_ENCODING_READ\<rparr>)
      | _ \<Rightarrow> r)"

definition rs_field_value :: "iequals \<Rightarrow> response \<Rightarrow> response outcome" where
  "rs_field_value ieq r =
     (let nmatched = field_value_match (rest r) in
      if nmatched = length (rest r) then Return r
      else let r = rs_token RS_EXPECT_CRLF_AFTER_FIELD_VALUE code_field_value nmatched r in
        guarded (rs_value_field_value r) (\<lambda>field. Return (rs_framing_value ieq field r)))"

definition rs_crlf_after_field_value :: "response \<Rightarrow> response outcome" where
  "rs_crlf_after_field_value r =
     (case liberal_crlf_match (rest r) of
        crlf_crlf \<Rightarrow> Return (rs_token RS_EXPECT_FIELD_NAME code_skip 2 r)
      | crlf_lf \<Rightarrow> Return (rs_token RS_EXPECT_FIELD_NAME code_skip 1 r)
      | crlf_insufficient_data \<Rightarrow> Return r
      | crlf_invalid_data \<Rightarrow> Return (rs_fail code_error_invalid_data r))"

text \<open>The end of the header section, once its line terminator of \<open>n\<close> octets is there.\<close>

definition rs_end_of_headers :: "nat \<Rightarrow> response \<Rightarrow> response outcome" where
  "rs_end_of_headers n r0 =
     (let r = r0\<lparr>token_size := n\<rparr> in
      case resp_body_type r of
          RS_RANDOM_ENCODING_READ \<Rightarrow>
            Return (r\<lparr>resp_body_type := RS_FORCE_NO_BODY_AND_STOP, resp_state := RS_EXPECT_UNSAFE_BODY,
                      cur_code := code_end_of_headers\<rparr>)
        | RS_CONNECTION_DELIMITED \<Rightarrow>
            Return (r\<lparr>resp_body_type := RS_FORCE_NO_BODY_AND_STOP, resp_state := RS_EXPECT_UNSAFE_BODY,
                      cur_code := code_end_of_headers\<rparr>)
        | RS_FORCE_NO_BODY \<Rightarrow>
            Return (r\<lparr>resp_state := RS_EXPECT_END_OF_BODY, cur_code := code_end_of_headers\<rparr>)
        | RS_FORCE_NO_BODY_AND_STOP \<Rightarrow>
            Return (r\<lparr>resp_state := RS_EXPECT_END_OF_BODY, cur_code := code_end_of_headers\<rparr>)
        | RS_CHUNKED_ENCODING_READ \<Rightarrow>
            Return (r\<lparr>resp_state := RS_EXPECT_CHUNK_SIZE, cur_code := code_end_of_headers\<rparr>)
        | RS_CONTENT_LENGTH_READ \<Rightarrow>
            Return (r\<lparr>resp_state := (if body_size r = 0 then RS_EXPECT_END_OF_BODY else RS_EXPECT_BODY),
                      cur_code := code_end_of_headers\<rparr>)
        | _ \<Rightarrow> Fault Unreachable)"

definition rs_crlf_after_headers :: "response \<Rightarrow> response outcome" where
  "rs_crlf_after_headers r =
     (case liberal_crlf_match (rest r) of
        crlf_crlf \<Rightarrow> rs_end_of_headers 2 r
      | crlf_lf \<Rightarrow> rs_end_of_headers 1 r
      | crlf_insufficient_data \<Rightarrow> Return r
      | crlf_invalid_data \<Rightarrow> Return (rs_fail code_error_invalid_data r))"

definition rs_body :: "response \<Rightarrow> response outcome" where
  "rs_body r =
     (let n = min (length (rest r)) (unat (body_size r));
          r = r\<lparr>cur_code := code_body_chunk, token_size := n, body_size := body_size r - of_nat n\<rparr>
      in if body_size r = 0 then Return (r\<lparr>resp_state := RS_EXPECT_END_OF_BODY\<rparr>) else Return r)"

definition rs_unsafe_body :: "response \<Rightarrow> response outcome" where
  "rs_unsafe_body r = Return (r\<lparr>cur_code := code_body_chunk, token_size := length (rest r)\<rparr>)"

definition rs_chunk_size :: "response \<Rightarrow> response outcome" where
  "rs_chunk_size r =
     (let nmatched = chunk_size_match (rest r) in
      if nmatched = 0 then Return (rs_fail code_error_invalid_data r)
      else if nmatched = length (rest r) then Return r
      else let (res, out) = chunk_size_decode (take nmatched (rest r)) (body_size r);
               r = r\<lparr>body_size := out\<rparr>
        in (case res of
              decode_invalid \<Rightarrow> Return (rs_fail code_error_invalid_data r)
            | decode_overflow \<Rightarrow> Return (rs_fail code_error_chunk_size_overflow r)
            | decode_ok \<Rightarrow> Return (rs_token RS_EXPECT_CHUNK_EXT code_skip nmatched r)))"

definition rs_chunk_ext :: "response \<Rightarrow> response outcome" where
  "rs_chunk_ext r =
     guarded (scan_from is_chunk_ext_char (ibuffer r) (idx r + token_size r)) (\<lambda>i.
       if i \<noteq> length (ibuffer r) then
         (if ibuffer r ! i \<noteq> CHR 0x0D then Return (rs_fail code_error_invalid_data r)
          else let r = r\<lparr>resp_state := RS_EXPECT_CRLF_AFTER_CHUNK_EXT, token_size := i - idx r\<rparr> in
            if token_size r = 0 then Tail_next r
            else Return (r\<lparr>cur_code := code_chunk_ext\<rparr>))
       else Return (r\<lparr>token_size := i - idx r\<rparr>))"

definition rs_crlf_after_chunk_ext :: "response \<Rightarrow> response outcome" where
  "rs_crlf_after_chunk_ext r =
     (if length (rest r) < 2 then Return r
      else let nmatched = strict_crlf_match (rest r) in
        if nmatched = 0 then Return (rs_fail code_error_invalid_data r)
        else if body_size r \<noteq> 0
        then Return (rs_token RS_EXPECT_CHUNK_DATA code_skip nmatched r)
        else Return (rs_token RS_EXPECT_TRAILER_NAME code_end_of_body nmatched r))"

definition rs_chunk_data :: "response \<Rightarrow> response outcome" where
  "rs_chunk_data r =
     (let n = min (length (rest r)) (unat (body_size r));
          r = r\<lparr>cur_code := code_body_chunk, token_size := n, body_size := body_size r - of_nat n\<rparr>
      in if body_size r = 0 then Return (r\<lparr>resp_state := RS_EXPECT_CRLF_AFTER_CHUNK_DATA\<rparr>)
         else Return r)"

definition rs_crlf_after_chunk_data :: "response \<Rightarrow> response outcome" where
  "rs_crlf_after_chunk_data r =
     (if length (rest r) < 2 then Return r
      else let nmatched = strict_crlf_match (rest r) in
        if nmatched = 0 then Return (rs_fail code_error_invalid_data r)
        else Return (rs_token RS_EXPECT_CHUNK_SIZE code_skip nmatched r))"

definition rs_trailer_name :: "response \<Rightarrow> response outcome" where
  "rs_trailer_name r =
     (let nmatched = field_name_match (rest r) in
      if nmatched = 0 then Tail_next (r\<lparr>resp_state := RS_EXPECT_CRLF_AFTER_TRAILERS\<rparr>)
      else if nmatched = length (rest r) then Return r
      else Return (rs_token RS_EXPECT_TRAILER_COLON code_trailer_name nmatched r))"

definition rs_trailer_colon :: "response \<Rightarrow> response outcome" where
  "rs_trailer_colon r =
     guarded (byte_at (ibuffer r) (idx r)) (\<lambda>c.
       if c \<noteq> CHR '':'' then Return (rs_fail code_error_invalid_data r)
       else guarded (scan_from is_ows (ibuffer r) (idx r + 1)) (\<lambda>i.
         Return (rs_token (if i \<noteq> length (ibuffer r) then RS_EXPECT_TRAILER_VALUE
                           else RS_EXPECT_OWS_AFTER_TRAILER_COLON) code_skip (i - idx r) r)))"

definition rs_ows_after_trailer_colon :: "response \<Rightarrow> response outcome" where
  "rs_ows_after_trailer_colon r =
     (let nmatched = ows_match (rest r) in
      if nmatched = 0 then Tail_next (r\<lparr>resp_state := RS_EXPECT_TRAILER_VALUE\<rparr>)
      else Return (r\<lparr>cur_code := code_skip, token_size := nmatched\<rparr>))"

definition rs_trailer_value :: "response \<Rightarrow> response outcome" where
  "rs_trailer_value r =
     (let nmatched = field_value_match (rest r) in
      if nmatched = length (rest r) then Return r
      else Return (rs_token RS_EXPECT_CRLF_AFTER_TRAILER_VALUE code_trailer_value nmatched r))"

definition rs_crlf_after_trailer_value :: "response \<Rightarrow> response outcome" where
  "rs_crlf_after_trailer_value r =
     (if length (rest r) < 2 then Return r
      else let nmatched = strict_crlf_match (rest r) in
        if nmatched = 0 then Return (rs_fail code_error_invalid_data r)
        else Return (rs_token RS_EXPECT_TRAILER_NAME code_skip nmatched r))"

definition rs_crlf_after_trailers :: "response \<Rightarrow> response outcome" where
  "rs_crlf_after_trailers r =
     (if length (rest r) < 2 then Return r
      else let nmatched = strict_crlf_match (rest r) in
        if nmatched = 0 then Return (rs_fail code_error_invalid_data r)
        else Return (rs_token RS_EXPECT_VERSION_STATIC_STR code_end_of_message nmatched
                       (r\<lparr>resp_body_type := RS_UNKNOWN_BODY\<rparr>)))"

definition rs_switch :: "iequals \<Rightarrow> response \<Rightarrow> response outcome" where
  "rs_switch ieq r =
     (case resp_state r of
        RS_EXPECT_VERSION_STATIC_STR \<Rightarrow> rs_version_static_str r
      | RS_EXPECT_VERSION \<Rightarrow> rs_version r
      | RS_EXPECT_SP_AFTER_VERSION \<Rightarrow> rs_sp_after_version r
      | RS_EXPECT_STATUS_CODE \<Rightarrow> rs_status_code r
      | RS_EXPECT_SP_AFTER_STATUS_CODE \<Rightarrow> rs_sp_after_status_code r
      | RS_EXPECT_REASON_PHRASE \<Rightarrow> rs_reason_phrase r
      | RS_EXPECT_CRLF_AFTER_REASON_PHRASE \<Rightarrow> rs_crlf_after_reason_phrase r
      | RS_EXPECT_FIELD_NAME \<Rightarrow> rs_field_name ieq r
      | RS_EXPECT_COLON \<Rightarrow> rs_colon r
      | RS_EXPECT_OWS_AFTER_COLON \<Rightarrow> rs_ows_after_colon r
      | RS_EXPECT_FIELD_VALUE \<Rightarrow> rs_field_value ieq r
      | RS_EXPECT_CRLF_AFTER_FIELD_VALUE \<Rightarrow> rs_crlf_after_field_value r
      | RS_EXPECT_CRLF_AFTER_HEADERS \<Rightarrow> rs_crlf_after_headers r
      | RS_EXPECT_BODY \<Rightarrow> rs_body r
      | RS_EXPECT_UNSAFE_BODY \<Rightarrow> rs_unsafe_body r
      | RS_EXPECT_END_OF_BODY \<Rightarrow> Fault Unreachable
      | RS_EXPECT_END_OF_MESSAGE \<Rightarrow> Fault Unreachable
      | RS_EXPECT_END_OF_CONNECTION_ERROR \<Rightarrow> Fault Unreachable
      | RS_EXPECT_CHUNK_SIZE \<Rightarrow> rs_chunk_size r
      | RS_EXPECT_CHUNK_EXT \<Rightarrow> rs_chunk_ext r
      | RS_EXPECT_CRLF_AFTER_CHUNK_EXT \<Rightarrow> rs_crlf_after_chunk_ext r
      | RS_EXPECT_CHUNK_DATA \<Rightarrow> rs_chunk_data r
      | RS_EXPECT_CRLF_AFTER_CHUNK_DATA \<Rightarrow> rs_crlf_after_chunk_data r
      | RS_EXPECT_TRAILER_NAME \<Rightarrow> rs_trailer_name r
      | RS_EXPECT_TRAILER_COLON \<Rightarrow> rs_trailer_colon r
      | RS_EXPECT_OWS_AFTER_TRAILER_COLON \<Rightarrow> rs_ows_after_trailer_colon r
      | RS_EXPECT_TRAILER_VALUE \<Rightarrow> rs_trailer_value r
      | RS_EXPECT_CRLF_AFTER_TRAILER_VALUE \<Rightarrow> rs_crlf_after_trailer_value r
      | RS_EXPECT_CRLF_AFTER_TRAILERS \<Rightarrow> rs_crlf_after_trailers r
      | RS_ERRORED \<Rightarrow> Fault Unreachable)"

section \<open>next() and set\_buffer()\<close>

text \<open>\<open>return next();\<close> is reached from five states only, and leads to states that do not
  call \<open>next()\<close> again.\<close>

definition rs_tail_calls :: "(rs_state \<times> rs_state) set" where
  "rs_tail_calls =
     {(RS_EXPECT_FIELD_NAME, RS_EXPECT_CRLF_AFTER_HEADERS),
      (RS_EXPECT_OWS_AFTER_COLON, RS_EXPECT_FIELD_VALUE),
      (RS_EXPECT_CHUNK_EXT, RS_EXPECT_CRLF_AFTER_CHUNK_EXT),
      (RS_EXPECT_TRAILER_NAME, RS_EXPECT_CRLF_AFTER_TRAILERS),
      (RS_EXPECT_OWS_AFTER_TRAILER_COLON, RS_EXPECT_TRAILER_VALUE)}"

lemma rs_tail_calls_once: "(s, s') \<in> rs_tail_calls \<Longrightarrow> s' \<notin> Domain rs_tail_calls"
  by (auto simp: rs_tail_calls_def)

lemmas rs_case_defs =
  rs_version_static_str_def rs_version_def rs_sp_after_version_def rs_status_code_def
  rs_sp_after_status_code_def rs_reason_phrase_def rs_crlf_after_reason_phrase_def
  rs_field_name_def rs_known_field_def rs_colon_def
  rs_ows_after_colon_def rs_field_value_def rs_framing_value_def rs_crlf_after_field_value_def
  rs_end_of_headers_def rs_crlf_after_headers_def rs_body_def rs_unsafe_body_def rs_chunk_size_def
  rs_chunk_ext_def rs_crlf_after_chunk_ext_def rs_chunk_data_def rs_crlf_after_chunk_data_def
  rs_trailer_name_def rs_trailer_colon_def rs_ows_after_trailer_colon_def rs_trailer_value_def
  rs_crlf_after_trailer_value_def rs_crlf_after_trailers_def

lemma rs_switch_Tail_next:
  assumes "rs_switch ieq r = Tail_next r'"
  shows "(resp_state r, resp_state r') \<in> rs_tail_calls \<and>
    r' = r\<lparr>resp_state := resp_state r', token_size := token_size r'\<rparr> \<and>
    (token_size r' = token_size r \<or> token_size r' = 0)"
  using assms
  by (cases "resp_state r")
     (auto simp: rs_switch_def rs_case_defs rs_tail_calls_def guarded_Tail_next Let_def
        split: if_splits liberal_crlf_result.splits decode_result.splits prod.splits
          rs_body_type.splits)

text \<open>\<open>next()\<close> when the buffer is exhausted.\<close>

definition rs_exhausted :: "response \<Rightarrow> response" where
  "rs_exhausted r =
     (if \<not> has_flag EOF_RECEIVED r
         \<or> (resp_body_type r = RS_CONTENT_LENGTH_READ \<and> body_size r \<noteq> 0) then r
      else if resp_state r \<noteq> RS_EXPECT_UNSAFE_BODY
      then rs_fail code_error_use_another_connection r
      else r\<lparr>resp_state := RS_EXPECT_END_OF_MESSAGE, cur_code := code_end_of_body, token_size := 0\<rparr>)"

function rs_next :: "iequals \<Rightarrow> response \<Rightarrow> fault + response" where
  "rs_next ieq r =
     (if resp_state r = RS_ERRORED then Inr r
      else if resp_state r = RS_EXPECT_END_OF_BODY
      then Inr (r\<lparr>resp_state := RS_EXPECT_END_OF_MESSAGE, cur_code := code_end_of_body,
                  idx := idx r + token_size r, token_size := 0\<rparr>)
      else if resp_state r = RS_EXPECT_END_OF_MESSAGE
      then Inr (r\<lparr>resp_state := (if resp_body_type r = RS_FORCE_NO_BODY_AND_STOP \<or> has_flag HTTP_1_0 r
                                 then RS_EXPECT_END_OF_CONNECTION_ERROR
                                 else RS_EXPECT_VERSION_STATIC_STR),
                  resp_body_type := RS_UNKNOWN_BODY, cur_code := code_end_of_message,
                  idx := idx r + token_size r, token_size := 0\<rparr>)
      else if resp_state r = RS_EXPECT_END_OF_CONNECTION_ERROR
      then Inr (rs_fail code_error_use_another_connection r)
      else let r = consume r in
        if idx r = length (ibuffer r) then Inr (rs_exhausted r)
        else case rs_switch ieq r of
            Return r' \<Rightarrow> Inr r'
          | Tail_next r' \<Rightarrow> rs_next ieq r'
          | Fault f \<Rightarrow> Inl f)"
  by pat_completeness auto
termination
proof (relation "measure (\<lambda>(ieq, r). if resp_state r \<in> Domain rs_tail_calls then 1 else 0)", goal_cases)
  case (2 ieq r r1 r2)
  then have "(resp_state r1, resp_state r2) \<in> rs_tail_calls"
    using rs_switch_Tail_next [of ieq r1 r2] by simp
  then have "resp_state r1 \<in> Domain rs_tail_calls" "resp_state r2 \<notin> Domain rs_tail_calls"
    using rs_tail_calls_once by blast+
  moreover have "resp_state r1 = resp_state r" using 2(5) by (simp add: consume_def)
  ultimately show ?case by simp
qed simp

declare rs_next.simps [simp del]

definition rs_set_buffer :: "iequals \<Rightarrow> octets \<Rightarrow> response \<Rightarrow> fault + response" where
  "rs_set_buffer ieq buf r =
     (let r = r\<lparr>ibuffer := buf, idx := 0\<rparr> in
      if cur_code r = code_error_insufficient_data then rs_next ieq r else Inr r)"

end
