(* ===== verification/Response_Inv.thy ===== *)
theory Response_Inv
  imports Response
begin

text \<open>
  The invariant of the response reader and its preservation. It has three parts: the current
  token lies in the buffer; \<open>body_type\<close> and \<open>body_size\<close> agree with the state; and a
  partially read token consists of octets that were accepted already.
\<close>

section \<open>The invariant\<close>

text \<open>Values of \<open>body_type\<close> outside of a header field, as the comment in the
  \<open>EXPECT_FIELD_NAME\<close> case lists them.\<close>

definition rs_settled :: "rs_body_type \<Rightarrow> bool" where
  "rs_settled b \<longleftrightarrow> b \<notin> {RS_UNKNOWN_BODY, RS_READING_CONTENT_LENGTH, RS_READING_ENCODING}"

text \<open>Values of \<open>body_type\<close> \<open>set_method\<close> may leave.\<close>

definition rs_by_method :: "rs_body_type \<Rightarrow> bool" where
  "rs_by_method b \<longleftrightarrow> b \<in> {RS_CONNECTION_DELIMITED, RS_FORCE_NO_BODY, RS_FORCE_NO_BODY_AND_STOP}"

definition rs_framing :: "response \<Rightarrow> bool" where
  "rs_framing r =
     (case resp_state r of
        RS_ERRORED \<Rightarrow> True
      | RS_EXPECT_VERSION_STATIC_STR \<Rightarrow> resp_body_type r = RS_UNKNOWN_BODY
      | RS_EXPECT_VERSION \<Rightarrow> resp_body_type r = RS_UNKNOWN_BODY
      | RS_EXPECT_SP_AFTER_VERSION \<Rightarrow> resp_body_type r = RS_UNKNOWN_BODY
      | RS_EXPECT_STATUS_CODE \<Rightarrow> resp_body_type r = RS_UNKNOWN_BODY
      | RS_EXPECT_SP_AFTER_STATUS_CODE \<Rightarrow>
          resp_body_type r = RS_UNKNOWN_BODY \<or> rs_by_method (resp_body_type r)
      | RS_EXPECT_REASON_PHRASE \<Rightarrow> rs_by_method (resp_body_type r)
      | RS_EXPECT_CRLF_AFTER_REASON_PHRASE \<Rightarrow> rs_by_method (resp_body_type r)
      | RS_EXPECT_FIELD_NAME \<Rightarrow> rs_settled (resp_body_type r)
      | RS_EXPECT_COLON \<Rightarrow> resp_body_type r \<noteq> RS_UNKNOWN_BODY
      | RS_EXPECT_OWS_AFTER_COLON \<Rightarrow> resp_body_type r \<noteq> RS_UNKNOWN_BODY
      | RS_EXPECT_FIELD_VALUE \<Rightarrow> resp_body_type r \<noteq> RS_UNKNOWN_BODY
      | RS_EXPECT_CRLF_AFTER_FIELD_VALUE \<Rightarrow> rs_settled (resp_body_type r)
      | RS_EXPECT_CRLF_AFTER_HEADERS \<Rightarrow> rs_settled (resp_body_type r)
      | RS_EXPECT_BODY \<Rightarrow> resp_body_type r = RS_CONTENT_LENGTH_READ \<and> body_size r \<noteq> 0
      | RS_EXPECT_UNSAFE_BODY \<Rightarrow> resp_body_type r = RS_FORCE_NO_BODY_AND_STOP
      | RS_EXPECT_END_OF_BODY \<Rightarrow>
          resp_body_type r = RS_FORCE_NO_BODY \<or> resp_body_type r = RS_FORCE_NO_BODY_AND_STOP \<or>
          resp_body_type r = RS_CONTENT_LENGTH_READ \<and> body_size r = 0
      | RS_EXPECT_END_OF_MESSAGE \<Rightarrow>
          resp_body_type r = RS_FORCE_NO_BODY \<or> resp_body_type r = RS_FORCE_NO_BODY_AND_STOP \<or>
          resp_body_type r = RS_CONTENT_LENGTH_READ \<and> body_size r = 0
      | RS_EXPECT_END_OF_CONNECTION_ERROR \<Rightarrow>
          resp_body_type r = RS_UNKNOWN_BODY \<and> token_size r = 0
      | RS_EXPECT_CHUNK_SIZE \<Rightarrow> resp_body_type r = RS_CHUNKED_ENCODING_READ
      | RS_EXPECT_CHUNK_EXT \<Rightarrow> resp_body_type r = RS_CHUNKED_ENCODING_READ
      | RS_EXPECT_CRLF_AFTER_CHUNK_EXT \<Rightarrow> resp_body_type r = RS_CHUNKED_ENCODING_READ
      | RS_EXPECT_CHUNK_DATA \<Rightarrow> resp_body_type r = RS_CHUNKED_ENCODING_READ \<and> body_size r \<noteq> 0
      | _ \<Rightarrow> resp_body_type r = RS_CHUNKED_ENCODING_READ \<and> body_size r = 0)"

text \<open>The flag for HTTP/1.0 is set by the version of the current message only, and rules a
  transfer encoding out.\<close>

definition rs_flags :: "response \<Rightarrow> bool" where
  "rs_flags r \<longleftrightarrow>
     (resp_state r \<in> {RS_EXPECT_VERSION_STATIC_STR, RS_EXPECT_VERSION} \<or>
      resp_body_type r \<in> {RS_READING_ENCODING, RS_CHUNKED_ENCODING_READ, RS_RANDOM_ENCODING_READ}
      \<longrightarrow> \<not> has_flag HTTP_1_0 r)"

definition rs_partial :: "response \<Rightarrow> bool" where
  "rs_partial r =
     (case resp_state r of
        RS_EXPECT_VERSION_STATIC_STR \<Rightarrow>
          token_size r < length rs_static_str \<and>
          token_prefix r = take (token_size r) rs_static_str
      | RS_EXPECT_CHUNK_EXT \<Rightarrow> list_all is_chunk_ext_char (token_prefix r)
      | RS_EXPECT_END_OF_BODY \<Rightarrow> False
      | RS_EXPECT_END_OF_MESSAGE \<Rightarrow> False
      | RS_EXPECT_END_OF_CONNECTION_ERROR \<Rightarrow> False
      | _ \<Rightarrow> token_size r = 0)"

text \<open>A status code is the only token \<open>set_method\<close> may be called on.\<close>

definition rs_inv :: "response \<Rightarrow> bool" where
  "rs_inv r \<longleftrightarrow> in_range r \<and> rs_framing r \<and> rs_flags r \<and>
     (resp_state r = RS_ERRORED \<longleftrightarrow> final_error (cur_code r)) \<and>
     (cur_code r = code_error_insufficient_data \<longrightarrow> rs_partial r) \<and>
     (cur_code r = code_status_code \<longrightarrow>
      resp_state r = RS_EXPECT_SP_AFTER_STATUS_CODE \<and> token_size r = 3)"

section \<open>The cases under the invariant\<close>

named_theorems rs_case_eqs \<open>the resuming cases, as scans of the whole rest\<close>

lemma rs_version_static_str_eq [rs_case_eqs]:
  assumes "in_range r" and "token_size r < length rs_static_str"
    and "token_prefix r = take (token_size r) rs_static_str"
  shows "rs_version_static_str r =
    Return (if take (length rs_static_str) (rest r) \<noteq> take (length (rest r)) rs_static_str
            then rs_fail code_error_invalid_data r
            else if length (rest r) < length rs_static_str
            then r\<lparr>token_size := length (rest r)\<rparr>
            else rs_token RS_EXPECT_VERSION code_skip (length rs_static_str) r)"
  unfolding rs_version_static_str_def Let_def
    static_token [OF assms(1) less_imp_le [OF assms(2)] assms(3)] guarded_simps
  using assms(1) by (auto simp: in_range_def rs_token_def min_def)

lemma rs_chunk_ext_eq [rs_case_eqs]:
  assumes "in_range r" and "list_all is_chunk_ext_char (token_prefix r)"
  shows "rs_chunk_ext r =
    (let n = match_loop is_chunk_ext_char (rest r) in
     if n = length (rest r) then Return (r\<lparr>token_size := n\<rparr>)
     else if rest r ! n \<noteq> CHR 0x0D then Return (rs_fail code_error_invalid_data r)
     else if n = 0
     then Tail_next (r\<lparr>resp_state := RS_EXPECT_CRLF_AFTER_CHUNK_EXT, token_size := 0\<rparr>)
     else Return (rs_token RS_EXPECT_CRLF_AFTER_CHUNK_EXT code_chunk_ext n r))"
  unfolding rs_chunk_ext_def scan_token [OF assms] guarded_simps Let_def
  using assms(1) by (auto simp: in_range_def rs_token_def rest_def)

section \<open>Preservation by the cases\<close>

text \<open>The situation in which \<open>next()\<close> enters its \<open>switch\<close>: no complete token, and
  data left in the buffer.\<close>

definition rs_ready :: "response \<Rightarrow> bool" where
  "rs_ready r \<longleftrightarrow> rs_inv r \<and> cur_code r = code_error_insufficient_data \<and>
     idx r < length (ibuffer r)"

definition rs_outcome_ok :: "response outcome \<Rightarrow> bool" where
  "rs_outcome_ok x =
     (case x of Return r \<Rightarrow> rs_inv r | Tail_next r \<Rightarrow> rs_ready r | Fault _ \<Rightarrow> False)"

lemma rs_outcome_ok_simps [simp]:
  "rs_outcome_ok (Return r) = rs_inv r"
  "rs_outcome_ok (Tail_next r) = rs_ready r"
  "\<not> rs_outcome_ok (Fault f)"
  by (simp_all add: rs_outcome_ok_def)

lemmas rs_inv_defs =
  rs_ready_def rs_inv_def rs_framing_def rs_flags_def rs_partial_def in_range_def rs_settled_def
  rs_by_method_def

lemma has_flag_updates [simp]:
  "has_flag f (r\<lparr>resp_state := s\<rparr>) = has_flag f r"
  "has_flag f (r\<lparr>resp_body_type := b\<rparr>) = has_flag f r"
  "has_flag f (r\<lparr>cur_code := c\<rparr>) = has_flag f r"
  "has_flag f (r\<lparr>token_size := n\<rparr>) = has_flag f r"
  "has_flag f (r\<lparr>body_size := m\<rparr>) = has_flag f r"
  "has_flag f (r\<lparr>idx := n\<rparr>) = has_flag f r"
  "has_flag f (r\<lparr>ibuffer := v\<rparr>) = has_flag f r"
  by (simp_all add: has_flag_def)

lemma has_flag_consume [simp]: "has_flag f (consume r) = has_flag f r"
  by (simp add: consume_def)

lemma rest_rs_updates [simp]:
  "rest (r\<lparr>resp_state := s\<rparr>) = rest r"
  "rest (r\<lparr>connection_flags := v\<rparr>) = rest r"
  "rest (r\<lparr>resp_body_type := t\<rparr>) = rest r"
  by (simp_all add: rest_def)

lemma token_prefix_rs_updates [simp]: "token_prefix (r\<lparr>resp_state := s\<rparr>) = token_prefix r"
  by (simp add: token_prefix_def)

named_theorems rs_case_ok \<open>one preservation lemma per case\<close>

lemmas rs_step_simps = rs_inv_defs rs_token_def rs_fail_def reader_simps Let_def

lemma rs_version_static_str_ok [rs_case_ok]:
  "rs_ready r \<Longrightarrow> resp_state r = RS_EXPECT_VERSION_STATIC_STR \<Longrightarrow> rs_outcome_ok (rs_version_static_str r)"
  by (auto simp: rs_step_simps rs_version_static_str_eq split: if_splits)

lemma rs_version_ok [rs_case_ok]:
  "rs_ready r \<Longrightarrow> resp_state r = RS_EXPECT_VERSION \<Longrightarrow> rs_outcome_ok (rs_version r)"
  by (auto simp: rs_step_simps rs_version_def split: if_splits)

lemma rs_sp_after_version_ok [rs_case_ok]:
  "rs_ready r \<Longrightarrow> resp_state r = RS_EXPECT_SP_AFTER_VERSION \<Longrightarrow> rs_outcome_ok (rs_sp_after_version r)"
  by (auto simp: rs_step_simps rs_sp_after_version_def split: if_splits)

lemma rs_status_code_ok [rs_case_ok]:
  "rs_ready r \<Longrightarrow> resp_state r = RS_EXPECT_STATUS_CODE \<Longrightarrow> rs_outcome_ok (rs_status_code r)"
  using status_code_match_cases [of "rest r"]
  by (auto simp: rs_step_simps rs_status_code_def split: if_splits)

lemma rs_sp_after_status_code_ok [rs_case_ok]:
  "rs_ready r \<Longrightarrow> resp_state r = RS_EXPECT_SP_AFTER_STATUS_CODE \<Longrightarrow>
   rs_outcome_ok (rs_sp_after_status_code r)"
  by (auto simp: rs_step_simps rs_sp_after_status_code_def split: if_splits)

lemma rs_reason_phrase_ok [rs_case_ok]:
  "rs_ready r \<Longrightarrow> resp_state r = RS_EXPECT_REASON_PHRASE \<Longrightarrow> rs_outcome_ok (rs_reason_phrase r)"
  using matcher_bounds(3) [of r]
  by (auto simp: rs_step_simps rs_reason_phrase_def split: if_splits)

lemma rs_crlf_after_reason_phrase_ok [rs_case_ok]:
  "rs_ready r \<Longrightarrow> resp_state r = RS_EXPECT_CRLF_AFTER_REASON_PHRASE \<Longrightarrow>
   rs_outcome_ok (rs_crlf_after_reason_phrase r)"
  using crlf_bounds [of r]
  by (auto simp: rs_step_simps rs_crlf_after_reason_phrase_def split: if_splits liberal_crlf_result.splits)

lemma rs_unsafe_body_ok [rs_case_ok]:
  "rs_ready r \<Longrightarrow> resp_state r = RS_EXPECT_UNSAFE_BODY \<Longrightarrow> rs_outcome_ok (rs_unsafe_body r)"
  by (auto simp: rs_step_simps rs_unsafe_body_def)

lemma rs_field_name_ok [rs_case_ok]:
  "rs_ready r \<Longrightarrow> resp_state r = RS_EXPECT_FIELD_NAME \<Longrightarrow> rs_outcome_ok (rs_field_name ieq r)"
  using matcher_bounds(1) [of r]
  by (auto simp: rs_step_simps rs_field_name_def rs_value_field_name_def rs_known_field_def split: if_splits rs_body_type.splits)

lemma rs_colon_ok [rs_case_ok]:
  "rs_ready r \<Longrightarrow> resp_state r = RS_EXPECT_COLON \<Longrightarrow> rs_outcome_ok (rs_colon r)"
  using match_loop_le [of is_ows "drop (Suc (idx r)) (ibuffer r)"]
  by (auto simp: rs_step_simps rs_colon_def scan_from_ok split: if_splits)

lemma rs_ows_after_colon_ok [rs_case_ok]:
  "rs_ready r \<Longrightarrow> resp_state r = RS_EXPECT_OWS_AFTER_COLON \<Longrightarrow> rs_outcome_ok (rs_ows_after_colon r)"
  using matcher_bounds(4) [of r]
  by (auto simp: rs_step_simps rs_ows_after_colon_def split: if_splits)

lemma rs_crlf_after_field_value_ok [rs_case_ok]:
  "rs_ready r \<Longrightarrow> resp_state r = RS_EXPECT_CRLF_AFTER_FIELD_VALUE \<Longrightarrow> rs_outcome_ok (rs_crlf_after_field_value r)"
  using crlf_bounds [of r]
  by (auto simp: rs_step_simps rs_crlf_after_field_value_def split: if_splits liberal_crlf_result.splits)

lemma rs_crlf_after_headers_ok [rs_case_ok]:
  "rs_ready r \<Longrightarrow> resp_state r = RS_EXPECT_CRLF_AFTER_HEADERS \<Longrightarrow> rs_outcome_ok (rs_crlf_after_headers r)"
  using crlf_bounds [of r]
  by (auto simp: rs_step_simps rs_crlf_after_headers_def rs_end_of_headers_def split: if_splits liberal_crlf_result.splits rs_body_type.splits)

lemma rs_body_ok [rs_case_ok]:
  "rs_ready r \<Longrightarrow> resp_state r = RS_EXPECT_BODY \<Longrightarrow> rs_outcome_ok (rs_body r)"
  by (auto simp: rs_step_simps rs_body_def split: if_splits)

lemma rs_chunk_size_ok [rs_case_ok]:
  "rs_ready r \<Longrightarrow> resp_state r = RS_EXPECT_CHUNK_SIZE \<Longrightarrow> rs_outcome_ok (rs_chunk_size r)"
  using matcher_bounds(5) [of r]
  by (auto simp: rs_step_simps rs_chunk_size_def split: if_splits prod.splits decode_result.splits)

lemma rs_chunk_ext_ok [rs_case_ok]:
  "rs_ready r \<Longrightarrow> resp_state r = RS_EXPECT_CHUNK_EXT \<Longrightarrow> rs_outcome_ok (rs_chunk_ext r)"
  using match_loop_rest_le [of is_chunk_ext_char r]
  by (auto simp: rs_step_simps rs_chunk_ext_eq split: if_splits)

lemma rs_crlf_after_chunk_ext_ok [rs_case_ok]:
  "rs_ready r \<Longrightarrow> resp_state r = RS_EXPECT_CRLF_AFTER_CHUNK_EXT \<Longrightarrow> rs_outcome_ok (rs_crlf_after_chunk_ext r)"
  using strict_crlf_cases [of "rest r"]
  by (auto simp: rs_step_simps rs_crlf_after_chunk_ext_def split: if_splits)

lemma rs_chunk_data_ok [rs_case_ok]:
  "rs_ready r \<Longrightarrow> resp_state r = RS_EXPECT_CHUNK_DATA \<Longrightarrow> rs_outcome_ok (rs_chunk_data r)"
  by (auto simp: rs_step_simps rs_chunk_data_def split: if_splits)

lemma rs_crlf_after_chunk_data_ok [rs_case_ok]:
  "rs_ready r \<Longrightarrow> resp_state r = RS_EXPECT_CRLF_AFTER_CHUNK_DATA \<Longrightarrow> rs_outcome_ok (rs_crlf_after_chunk_data r)"
  using strict_crlf_cases [of "rest r"]
  by (auto simp: rs_step_simps rs_crlf_after_chunk_data_def split: if_splits)

lemma rs_trailer_name_ok [rs_case_ok]:
  "rs_ready r \<Longrightarrow> resp_state r = RS_EXPECT_TRAILER_NAME \<Longrightarrow> rs_outcome_ok (rs_trailer_name r)"
  using matcher_bounds(1) [of r]
  by (auto simp: rs_step_simps rs_trailer_name_def split: if_splits)

lemma rs_trailer_colon_ok [rs_case_ok]:
  "rs_ready r \<Longrightarrow> resp_state r = RS_EXPECT_TRAILER_COLON \<Longrightarrow> rs_outcome_ok (rs_trailer_colon r)"
  using match_loop_le [of is_ows "drop (Suc (idx r)) (ibuffer r)"]
  by (auto simp: rs_step_simps rs_trailer_colon_def scan_from_ok split: if_splits)

lemma rs_ows_after_trailer_colon_ok [rs_case_ok]:
  "rs_ready r \<Longrightarrow> resp_state r = RS_EXPECT_OWS_AFTER_TRAILER_COLON \<Longrightarrow> rs_outcome_ok (rs_ows_after_trailer_colon r)"
  using matcher_bounds(4) [of r]
  by (auto simp: rs_step_simps rs_ows_after_trailer_colon_def split: if_splits)

lemma rs_trailer_value_ok [rs_case_ok]:
  "rs_ready r \<Longrightarrow> resp_state r = RS_EXPECT_TRAILER_VALUE \<Longrightarrow> rs_outcome_ok (rs_trailer_value r)"
  using matcher_bounds(2) [of r]
  by (auto simp: rs_step_simps rs_trailer_value_def split: if_splits)

lemma rs_crlf_after_trailer_value_ok [rs_case_ok]:
  "rs_ready r \<Longrightarrow> resp_state r = RS_EXPECT_CRLF_AFTER_TRAILER_VALUE \<Longrightarrow> rs_outcome_ok (rs_crlf_after_trailer_value r)"
  using strict_crlf_cases [of "rest r"]
  by (auto simp: rs_step_simps rs_crlf_after_trailer_value_def split: if_splits)

lemma rs_crlf_after_trailers_ok [rs_case_ok]:
  "rs_ready r \<Longrightarrow> resp_state r = RS_EXPECT_CRLF_AFTER_TRAILERS \<Longrightarrow> rs_outcome_ok (rs_crlf_after_trailers r)"
  using strict_crlf_cases [of "rest r"]
  by (auto simp: rs_step_simps rs_crlf_after_trailers_def split: if_splits)

text \<open>The field value case needs a value: on an empty one \<open>decode_field_value\<close> leaves
  its view.\<close>

lemma rs_framing_value_ok:
  assumes "in_range r" and "resp_state r = RS_EXPECT_CRLF_AFTER_FIELD_VALUE"
    and "cur_code r = code_field_value" and "resp_body_type r \<noteq> RS_UNKNOWN_BODY" and "rs_flags r"
  shows "rs_inv (rs_framing_value ieq f r)"
proof (cases "resp_body_type r = RS_READING_CONTENT_LENGTH \<or> resp_body_type r = RS_READING_ENCODING")
  case True
  then show ?thesis
  proof
    assume cl: "resp_body_type r = RS_READING_CONTENT_LENGTH"
    obtain res out where "content_length_decode f (body_size r) = (res, out)" by force
    with assms cl show ?thesis
      by (cases res) (simp_all add: rs_framing_value_def rs_inv_defs rs_fail_def)
  next
    assume te: "resp_body_type r = RS_READING_ENCODING"
    with assms show ?thesis
      by (cases "decode_transfer_encoding ieq f")
         (simp_all add: rs_framing_value_def rs_inv_defs rs_fail_def)
  qed
next
  case False
  then have "rs_framing_value ieq f r = r"
    by (cases "resp_body_type r") (simp_all add: rs_framing_value_def)
  with False assms show ?thesis by (simp add: rs_inv_def rs_framing_def rs_settled_def)
qed

lemma rs_field_value_ok:
  assumes "rs_ready r" and "resp_state r = RS_EXPECT_FIELD_VALUE" and "field_value_match (rest r) \<noteq> 0"
  shows "rs_outcome_ok (rs_field_value ieq r)"
proof (cases "field_value_match (rest r) = length (rest r)")
  case True
  with assms show ?thesis by (simp add: rs_field_value_def rs_ready_def)
next
  case False
  let ?r = "rs_token RS_EXPECT_CRLF_AFTER_FIELD_VALUE code_field_value (field_value_match (rest r)) r"
  have "in_range ?r"
    using assms matcher_bounds(2) [of r] by (simp add: rs_ready_def rs_token_def in_range_def)
  then have "rs_inv (rs_framing_value ieq f ?r)" for f
    using assms
    by (intro rs_framing_value_ok) (auto simp: rs_ready_def rs_inv_def rs_token_def rs_framing_def
        rs_flags_def)
  moreover have "\<exists>f. rs_value_field_value ?r = Inr f"
    using \<open>in_range ?r\<close> assms(1,3)
    by (auto simp: rs_value_field_value_def rs_token_def in_range_def decode_field_value_def rs_ready_def
        rest_def)
  ultimately show ?thesis using False by (auto simp: rs_field_value_def Let_def)
qed

lemma rs_field_value_empty:
  assumes "rs_ready r" and "field_value_match (rest r) = 0"
  shows "rs_field_value ieq r = Fault Out_of_bounds"
  using assms
  by (auto simp: rs_step_simps rs_field_value_def rs_value_field_value_def decode_field_value_def)

section \<open>Preservation by next() and set\_buffer()\<close>

text \<open>The input on which \<open>next()\<close> evaluates \<open>decode_field_value\<close> on an empty view:
  after a colon, the data at hand start with an octet no field value contains.\<close>

definition rs_empty_value :: "response \<Rightarrow> bool" where
  "rs_empty_value r \<longleftrightarrow>
     resp_state r \<in> {RS_EXPECT_OWS_AFTER_COLON, RS_EXPECT_FIELD_VALUE} \<and> rest (consume r) \<noteq> [] \<and>
     \<not> is_field_value_char (hd (rest (consume r)))"

text \<open>The states \<open>next()\<close> handles before it looks at the buffer.\<close>

definition rs_sooner :: "rs_state set" where
  "rs_sooner = {RS_ERRORED, RS_EXPECT_END_OF_BODY, RS_EXPECT_END_OF_MESSAGE,
     RS_EXPECT_END_OF_CONNECTION_ERROR}"

lemma rs_ready_state: "rs_ready r \<Longrightarrow> resp_state r \<notin> rs_sooner"
  by (auto simp: rs_inv_defs rs_sooner_def)

lemma rs_switch_ok:
  assumes "rs_ready r" and "resp_state r = RS_EXPECT_FIELD_VALUE \<longrightarrow> field_value_match (rest r) \<noteq> 0"
  shows "rs_outcome_ok (rs_switch ieq r)"
  using assms rs_ready_state [OF assms(1)]
  by (cases "resp_state r") (simp_all add: rs_switch_def rs_case_ok rs_field_value_ok rs_sooner_def)

lemmas rs_goal_splits =
  if_split liberal_crlf_result.split decode_result.split prod.split
  rs_body_type.split decode_transfer_encoding_result.split

lemmas rs_all_simps = rs_switch_def rs_case_defs rs_token_def rs_fail_def Let_def

lemma rs_switch_frame:
  "outcome_all (\<lambda>r'. idx r' = idx r \<and> ibuffer r' = ibuffer r) (rs_switch ieq r)"
  by (cases "resp_state r") (simp_all add: rs_all_simps split: rs_goal_splits)

text \<open>\<open>next()\<close> in the situation of its \<open>switch\<close>.\<close>

lemma rs_next_ready:
  "rs_ready r \<Longrightarrow> rs_next ieq r =
     (case rs_switch ieq r of Return r' \<Rightarrow> Inr r' | Tail_next r' \<Rightarrow> rs_next ieq r' | Fault f \<Rightarrow> Inl f)"
  using rs_ready_state [of r] by (subst rs_next.simps) (simp add: rs_ready_def rs_sooner_def)

lemma rs_field_value_match_rest:
  "rs_ready r \<Longrightarrow> field_value_match (rest r) = 0 \<longleftrightarrow> \<not> is_field_value_char (hd (rest r))"
  by (rule field_value.zero_iff) (auto simp: rs_ready_def rest_def)

lemma rs_empty_value_ready:
  "rs_ready r \<Longrightarrow> rs_empty_value r \<longleftrightarrow>
     resp_state r \<in> {RS_EXPECT_OWS_AFTER_COLON, RS_EXPECT_FIELD_VALUE} \<and> field_value_match (rest r) = 0"
  by (auto simp: rs_empty_value_def rs_field_value_match_rest) (auto simp: rs_ready_def rest_def)

text \<open>Case analysis for a call of \<open>next()\<close> that enters the \<open>switch\<close>: one pass, or a
  second pass after \<open>return next();\<close>.\<close>

lemma rs_next_ready_cases:
  assumes "rs_ready r"
  obtains (once) r' where "rs_switch ieq r = Return r'" "rs_next ieq r = Inr r'" "rs_inv r'"
      "\<not> rs_empty_value r"
  | (twice) r1 r' where "rs_switch ieq r = Tail_next r1" "rs_ready r1" "rs_switch ieq r1 = Return r'"
      "rs_next ieq r = Inr r'" "rs_inv r'" "\<not> rs_empty_value r"
  | (fault) "rs_next ieq r = Inl Out_of_bounds" "rs_empty_value r"
proof (cases "rs_empty_value r")
  case True
  then have st: "resp_state r \<in> {RS_EXPECT_OWS_AFTER_COLON, RS_EXPECT_FIELD_VALUE}"
    and m: "field_value_match (rest r) = 0"
    using rs_empty_value_ready [OF assms] by auto
  have "rs_next ieq r = Inl Out_of_bounds"
  proof (cases "resp_state r = RS_EXPECT_FIELD_VALUE")
    case True
    then show ?thesis
      using rs_field_value_empty [OF assms m] by (simp add: rs_next_ready [OF assms] rs_switch_def)
  next
    case False
    let ?r1 = "r\<lparr>resp_state := RS_EXPECT_FIELD_VALUE\<rparr>"
    have "ows_match (rest r) = 0"
      using m assms ows_field_value [of "hd (rest r)"] ows.zero_iff [of "rest r"]
      by (auto simp: rs_field_value_match_rest) (auto simp: rs_ready_def rest_def)
    with False st have sw: "rs_switch ieq r = Tail_next ?r1"
      by (simp add: rs_switch_def rs_ows_after_colon_def)
    with assms st have "rs_ready ?r1" using rs_switch_ok [OF assms, of ieq] False by simp
    then show ?thesis
      using rs_field_value_empty [of ?r1 ieq] m sw
      by (simp add: rs_next_ready [OF assms] rs_next_ready rs_switch_def)
  qed
  with True fault show thesis by blast
next
  case False
  then have "rs_outcome_ok (rs_switch ieq r)"
    using rs_empty_value_ready [OF assms] by (intro rs_switch_ok [OF assms]) auto
  then consider r' where "rs_switch ieq r = Return r'" "rs_inv r'"
    | r1 where "rs_switch ieq r = Tail_next r1" "rs_ready r1"
    by (cases "rs_switch ieq r") auto
  then show thesis
  proof cases
    case (1 r')
    with once False show ?thesis by (simp add: rs_next_ready [OF assms])
  next
    case (2 r1)
    note tail = rs_switch_Tail_next [OF 2(1)]
    have "rest r1 = rest r"
      using rs_switch_frame [of r ieq] 2(1) by (simp add: rest_def)
    then have "resp_state r1 = RS_EXPECT_FIELD_VALUE \<Longrightarrow> field_value_match (rest r1) \<noteq> 0"
      using tail False rs_empty_value_ready [OF assms] by (auto simp: rs_tail_calls_def)
    then have "rs_outcome_ok (rs_switch ieq r1)" by (intro rs_switch_ok [OF 2(2)]) simp
    moreover have "rs_switch ieq r1 \<noteq> Tail_next r2" for r2
      using tail rs_switch_Tail_next [of ieq r1 r2] rs_tail_calls_once by blast
    ultimately obtain r' where r': "rs_switch ieq r1 = Return r'" "rs_inv r'"
      by (cases "rs_switch ieq r1") auto
    have "rs_next ieq r = Inr r'" using 2 r' by (simp add: rs_next_ready assms)
    from twice [OF 2 r'(1) this r'(2) False] show ?thesis .
  qed
qed

lemma consume_rs_fields [simp]:
  "resp_state (consume r) = resp_state r" "connection_flags (consume r) = connection_flags r" "resp_body_type (consume r) = resp_body_type r"
  by (simp_all add: consume_def)

text \<open>Case analysis for any call of \<open>next()\<close> under the invariant.\<close>

lemma rs_consume_inv:
  assumes "rs_inv r" and "resp_state r \<notin> rs_sooner"
  shows "rs_inv (consume r)"
  using assms
  by (cases "cur_code r = code_error_insufficient_data"; cases "resp_state r")
     (auto simp: rs_inv_defs consume_def token_prefix_def rs_static_str_def rs_sooner_def)

lemma rs_next_cases:
  assumes "rs_inv r"
  obtains (errored) "resp_state r = RS_ERRORED" "rs_next ieq r = Inr r"
  | (end_of_body) "resp_state r = RS_EXPECT_END_OF_BODY"
      "rs_next ieq r = Inr (r\<lparr>resp_state := RS_EXPECT_END_OF_MESSAGE, cur_code := code_end_of_body,
         idx := idx r + token_size r, token_size := 0\<rparr>)"
  | (end_of_message) "resp_state r = RS_EXPECT_END_OF_MESSAGE"
      "rs_next ieq r =
       Inr (r\<lparr>resp_state := (if resp_body_type r = RS_FORCE_NO_BODY_AND_STOP \<or> has_flag HTTP_1_0 r
                            then RS_EXPECT_END_OF_CONNECTION_ERROR else RS_EXPECT_VERSION_STATIC_STR),
              resp_body_type := RS_UNKNOWN_BODY, cur_code := code_end_of_message,
              idx := idx r + token_size r, token_size := 0\<rparr>)"
  | (end_of_connection) "resp_state r = RS_EXPECT_END_OF_CONNECTION_ERROR"
      "rs_next ieq r = Inr (rs_fail code_error_use_another_connection r)"
  | (starved) "resp_state r \<notin> rs_sooner" "idx (consume r) = length (ibuffer r)"
      "rs_next ieq r = Inr (rs_exhausted (consume r))" "rs_inv (consume r)"
  | (ready) "rs_ready (consume r)" "rs_next ieq r = rs_next ieq (consume r)"
proof -
  consider "resp_state r = RS_ERRORED" | "resp_state r = RS_EXPECT_END_OF_BODY"
    | "resp_state r = RS_EXPECT_END_OF_MESSAGE" | "resp_state r = RS_EXPECT_END_OF_CONNECTION_ERROR"
    | "resp_state r \<notin> rs_sooner"
    by (auto simp: rs_sooner_def)
  then show thesis
  proof cases
    case 5
    note inv = rs_consume_inv [OF assms 5]
    show ?thesis
    proof (cases "idx (consume r) = length (ibuffer r)")
      case True
      with 5 inv show ?thesis
        by (intro starved) (simp_all add: rs_next.simps [of ieq r] rs_sooner_def)
    next
      case False
      with inv have "rs_ready (consume r)"
        using assms consume_idx_le [of r] by (simp add: rs_ready_def rs_inv_def in_range_def)
      with 5 False show ?thesis
        by (intro ready) (simp_all add: rs_next.simps [of ieq r] rs_next_ready rs_sooner_def)
    qed
  qed (simp_all add: errored end_of_body end_of_message end_of_connection rs_next.simps [of ieq r])
qed

text \<open>At the end of the buffer there is no partial token.\<close>

lemma rs_exhausted_inv:
  assumes "rs_inv r" and "cur_code r = code_error_insufficient_data"
  shows "rs_inv (rs_exhausted r)"
  using assms by (auto simp: rs_exhausted_def rs_inv_defs rs_fail_def)

lemma rs_next_inv:
  assumes "rs_inv r" and "rs_next ieq r = Inr r'"
  shows "rs_inv r'"
  using assms(1)
proof (cases rule: rs_next_cases [where ieq = ieq])
  case ready
  then show ?thesis
    using assms(2) by (cases rule: rs_next_ready_cases [OF ready(1), of ieq]) auto
next
  case starved
  then show ?thesis using assms(2) rs_exhausted_inv [of "consume r"] by auto
next
  case end_of_message
  then show ?thesis using assms by (auto simp: rs_inv_defs token_prefix_def rs_static_str_def)
qed (use assms in \<open>auto simp: rs_inv_defs rs_fail_def\<close>)

lemma rs_next_fault_iff:
  assumes "rs_inv r"
  shows "rs_next ieq r = Inl f \<longleftrightarrow> f = Out_of_bounds \<and> rs_empty_value r"
  using assms
proof (cases rule: rs_next_cases [where ieq = ieq])
  case starved
  then have "rest (consume r) = []" by (simp add: rest_def)
  with starved show ?thesis by (simp add: rs_empty_value_def)
next
  case ready
  have "rs_empty_value (consume r) = rs_empty_value r" by (simp add: rs_empty_value_def)
  with ready show ?thesis by (cases rule: rs_next_ready_cases [OF ready(1), of ieq]) auto
qed (auto simp: rs_empty_value_def)

lemma rs_exhausted_frame [simp]:
  "idx (rs_exhausted r) = idx r" "ibuffer (rs_exhausted r) = ibuffer r"
  by (simp_all add: rs_exhausted_def rs_fail_def)

lemma rs_next_frame:
  assumes "rs_inv r" and "rs_next ieq r = Inr r'"
  shows "ibuffer r' = ibuffer r \<and> idx r' = (if resp_state r = RS_ERRORED then idx r else idx (consume r))"
  using assms(1)
proof (cases rule: rs_next_cases [where ieq = ieq])
  case ready
  note frame = rs_switch_frame [THEN outcome_allD]
  have "resp_state r \<noteq> RS_ERRORED" using rs_ready_state [OF ready(1)] by (simp add: rs_sooner_def)
  then show ?thesis
    using assms(2) ready(2) frame
    by (cases rule: rs_next_ready_cases [OF ready(1), of ieq]) fastforce+
next
  case starved
  then show ?thesis using assms(2) by (auto simp: rs_sooner_def)
qed (use assms in \<open>auto simp: consume_def rs_inv_defs rs_fail_def\<close>)

lemma rs_rebuffer_inv:
  "rs_inv r \<Longrightarrow> keeps_token buf r \<Longrightarrow> rs_inv (r\<lparr>ibuffer := buf, idx := 0\<rparr>)"
  by (cases "resp_state r")
     (auto simp: rs_inv_defs keeps_token_def token_prefix_def rest_def)

lemma rs_set_buffer_inv:
  assumes "rs_inv r" and "keeps_token buf r" and "rs_set_buffer ieq buf r = Inr r'"
  shows "rs_inv r'"
  using assms(3) rs_rebuffer_inv [OF assms(1,2)] rs_next_inv
  by (auto simp: rs_set_buffer_def Let_def split: if_splits)

lemma rs_new_inv: "rs_inv (rs_new n)"
  by (simp add: rs_new_def rs_inv_defs token_prefix_def rest_def rs_static_str_def has_flag_def)

lemma rs_reset_inv: "rs_inv (rs_reset r)"
  by (simp add: rs_reset_def rs_inv_defs token_prefix_def rest_def rs_static_str_def has_flag_def)

section \<open>puteof() and set\_method()\<close>

lemma has_flag_puteof [simp]:
  "has_flag HTTP_1_0 (rs_puteof r) = has_flag HTTP_1_0 r" "has_flag EOF_RECEIVED (rs_puteof r)"
proof -
  have "and (or w 1) 2 = and w 2" for w :: "8 word"
    by (rule bit_eqI) (auto simp: bit_simps)
  then show "has_flag HTTP_1_0 (rs_puteof r) = has_flag HTTP_1_0 r"
    by (simp add: has_flag_def rs_puteof_def HTTP_1_0_def EOF_RECEIVED_def)
  have "and (or w 1) 1 = 1" for w :: "8 word"
    by (rule bit_eqI) (auto simp: bit_simps)
  then show "has_flag EOF_RECEIVED (rs_puteof r)"
    by (simp add: has_flag_def rs_puteof_def EOF_RECEIVED_def)
qed

lemma rs_puteof_inv: "rs_inv r \<Longrightarrow> rs_inv (rs_puteof r)"
proof -
  assume inv: "rs_inv r"
  have "rs_flags (rs_puteof r) = rs_flags r"
    unfolding rs_flags_def has_flag_puteof by (simp add: rs_puteof_def)
  moreover have "in_range (rs_puteof r) = in_range r" "rs_framing (rs_puteof r) = rs_framing r"
    "rs_partial (rs_puteof r) = rs_partial r"
    by (cases "resp_state r";
        simp add: in_range_def rs_framing_def rs_partial_def rs_puteof_def token_prefix_def rest_def)+
  ultimately show ?thesis using inv by (simp add: rs_inv_def) (simp add: rs_puteof_def)
qed

text \<open>\<open>set_method\<close> succeeds on a status code, and only there.\<close>

lemma rs_value_status_code_ok:
  assumes "rs_inv r" and "cur_code r = code_status_code"
  shows "\<exists>w. rs_value_status_code r = Inr w"
  using assms by (auto simp: rs_value_status_code_def rs_inv_def in_range_def status_code_decode_def)

lemma rs_by_method_inv:
  assumes "rs_inv r" and "cur_code r = code_status_code" and "rs_by_method b"
  shows "rs_inv (r\<lparr>resp_body_type := b, body_size := n\<rparr>)"
proof -
  have "resp_state r = RS_EXPECT_SP_AFTER_STATUS_CODE" using assms(1,2) by (simp add: rs_inv_def)
  with assms show ?thesis by (auto simp: rs_inv_def in_range_def rs_framing_def rs_flags_def rs_by_method_def)
qed

lemma rs_set_method_cases:
  assumes "rs_set_method meth r = Inr r'"
  obtains b n where "r' = r\<lparr>resp_body_type := b, body_size := n\<rparr>" "rs_by_method b"
    "cur_code r = code_status_code"
proof -
  have "r' = r\<lparr>resp_body_type := RS_FORCE_NO_BODY, body_size := 0\<rparr> \<or>
      r' = r\<lparr>resp_body_type := RS_FORCE_NO_BODY_AND_STOP, body_size := 0\<rparr> \<or>
      r' = r\<lparr>resp_body_type := RS_CONNECTION_DELIMITED, body_size := body_size r\<rparr>"
    and "cur_code r = code_status_code"
    using assms by (auto simp: rs_set_method_def Let_def split: if_splits sum.splits)
  then show thesis
    by (elim disjE) (rule that, assumption, simp add: rs_by_method_def, assumption)+
qed

lemma rs_set_method_inv:
  assumes "rs_inv r" and "rs_set_method meth r = Inr r'"
  shows "rs_inv r'"
  using assms(2)
proof (cases rule: rs_set_method_cases)
  case (1 b n)
  with rs_by_method_inv [OF assms(1)] show ?thesis by simp
qed

end
