(* ===== verification/Response_Resume.thy ===== *)
theory Response_Resume
  imports Response_Inv Request_Resume
begin

text \<open>
  The response reader is incremental: what it reports depends on the octets from the current
  position on, not on where the buffer starts nor on how much of a token was scanned by earlier
  calls. The relation \<open>rs_sim\<close> identifies readers that differ only in these respects; it is
  preserved by \<open>next()\<close>. From it follows that running out of data in the middle of a token
  and resuming with a longer buffer is the same as having had the longer buffer at once.
\<close>

section \<open>The cases as functions of the rest\<close>

lemma rs_ready_rest_hd:
  "rs_ready r \<Longrightarrow> byte_at (ibuffer r) (idx r) = Inr (hd (rest r))"
  by (simp add: rs_ready_def rest_def hd_drop_conv_nth)

lemma rs_version_eq [rs_case_eqs]:
  "rs_ready r \<Longrightarrow> rs_version r =
     Return (if isdigit (hd (rest r))
             then (rs_token RS_EXPECT_SP_AFTER_VERSION code_version 1 r)
               \<lparr>connection_flags := (if hd (rest r) = CHR ''0'' then or (connection_flags r) HTTP_1_0
                                    else connection_flags r)\<rparr>
             else rs_fail code_error_invalid_data r)"
  using rs_ready_rest_hd [of r]
  by (auto simp: rs_version_def rs_token_def isdigit_def Let_def not_less)

lemma rs_sp_after_version_eq [rs_case_eqs]:
  "rs_ready r \<Longrightarrow> rs_sp_after_version r =
     Return (if is_sp (hd (rest r)) then rs_token RS_EXPECT_STATUS_CODE code_skip 1 r
             else rs_fail code_error_invalid_data r)"
  by (simp add: rs_sp_after_version_def rs_ready_rest_hd)

lemma rs_sp_after_status_code_eq [rs_case_eqs]:
  "rs_ready r \<Longrightarrow> rs_sp_after_status_code r =
     Return (if resp_body_type r = RS_UNKNOWN_BODY then rs_fail code_error_set_method r
             else if is_sp (hd (rest r)) then rs_token RS_EXPECT_REASON_PHRASE code_skip 1 r
             else rs_fail code_error_invalid_data r)"
  by (simp add: rs_sp_after_status_code_def rs_ready_rest_hd)

lemma rs_field_name_eq [rs_case_eqs]:
  assumes "rs_ready r"
  shows "rs_field_name ieq r =
     (let n = field_name_match (rest r) in
      if n = 0 then Tail_next (r\<lparr>resp_state := RS_EXPECT_CRLF_AFTER_HEADERS\<rparr>)
      else if n = length (rest r) then Return r
      else rs_known_field ieq (take n (rest r)) (rs_token RS_EXPECT_COLON code_field_name n r))"
  using assms matcher_bounds(1) [of r]
  by (simp add: rs_field_name_def rs_value_field_name_def rs_token_def Let_def rs_ready_def)
     (simp add: rest_def)

lemma rs_colon_scan:
  assumes "rs_ready r"
  shows "scan_from is_ows (ibuffer r) (idx r + 1) = Inr (idx r + 1 + match_loop is_ows (tl (rest r)))"
    and "idx r + 1 + match_loop is_ows (tl (rest r)) = length (ibuffer r) \<longleftrightarrow>
         list_all is_ows (tl (rest r))"
proof -
  show "scan_from is_ows (ibuffer r) (idx r + 1) = Inr (idx r + 1 + match_loop is_ows (tl (rest r)))"
    using assms by (simp add: rs_ready_def scan_from_ok rest_def tl_drop drop_Suc)
  have "length (ibuffer r) = idx r + 1 + length (tl (rest r))"
    using assms unfolding rs_ready_def length_tl rest_length by linarith
  then show "idx r + 1 + match_loop is_ows (tl (rest r)) = length (ibuffer r) \<longleftrightarrow>
      list_all is_ows (tl (rest r))"
    unfolding list_all_iff match_loop_full [symmetric] by linarith
qed

lemma rs_colon_eq [rs_case_eqs]:
  "rs_ready r \<Longrightarrow> rs_colon r =
     Return (if hd (rest r) \<noteq> CHR '':'' then rs_fail code_error_invalid_data r
             else rs_token (if list_all is_ows (tl (rest r)) then RS_EXPECT_OWS_AFTER_COLON
                            else RS_EXPECT_FIELD_VALUE)
                    code_skip (1 + match_loop is_ows (tl (rest r))) r)"
  using rs_colon_scan [of r] by (simp add: rs_colon_def rs_ready_rest_hd)

lemma rs_trailer_colon_eq [rs_case_eqs]:
  "rs_ready r \<Longrightarrow> rs_trailer_colon r =
     Return (if hd (rest r) \<noteq> CHR '':'' then rs_fail code_error_invalid_data r
             else rs_token (if list_all is_ows (tl (rest r)) then RS_EXPECT_OWS_AFTER_TRAILER_COLON
                            else RS_EXPECT_TRAILER_VALUE)
                    code_skip (1 + match_loop is_ows (tl (rest r))) r)"
  using rs_colon_scan [of r] by (simp add: rs_trailer_colon_def rs_ready_rest_hd)

lemma rs_field_value_eq [rs_case_eqs]:
  assumes "rs_ready r"
  shows "rs_field_value ieq r =
     (let n = field_value_match (rest r) in
      if n = length (rest r) then Return r
      else guarded (decode_field_value (take n (rest r))) (\<lambda>field.
        Return (rs_framing_value ieq field
          (rs_token RS_EXPECT_CRLF_AFTER_FIELD_VALUE code_field_value n r))))"
  using assms matcher_bounds(2) [of r]
  by (simp add: rs_field_value_def rs_value_field_value_def rs_token_def Let_def rs_ready_def)
     (simp add: rest_def)

section \<open>Readers at the same point of the stream\<close>

text \<open>Same control state, same octets ahead; the size matters only for a complete token.\<close>

definition rs_sim :: "response \<Rightarrow> response \<Rightarrow> bool" where
  "rs_sim r s \<longleftrightarrow>
     resp_state r = resp_state s \<and> cur_code r = cur_code s \<and> connection_flags r = connection_flags s \<and>
     resp_body_type r = resp_body_type s \<and> body_size r = body_size s \<and> rest r = rest s \<and>
     (symbol_convert (cur_code r) \<noteq> symbol_error \<longrightarrow> token_size r = token_size s)"

lemma rs_sim_refl [simp]: "rs_sim r r"
  by (simp add: rs_sim_def)

lemma rs_sim_updates [intro!, simp]:
  "rs_sim r s \<Longrightarrow> rs_sim (r\<lparr>resp_state := x\<rparr>) (s\<lparr>resp_state := x\<rparr>)"
  "rs_sim r s \<Longrightarrow> rs_sim (r\<lparr>connection_flags := v\<rparr>) (s\<lparr>connection_flags := v\<rparr>)"
  "rs_sim r s \<Longrightarrow> rs_sim (r\<lparr>resp_body_type := t\<rparr>) (s\<lparr>resp_body_type := t\<rparr>)"
  "rs_sim r s \<Longrightarrow> rs_sim (r\<lparr>body_size := n\<rparr>) (s\<lparr>body_size := n\<rparr>)"
  "rs_sim r s \<Longrightarrow>
   rs_sim (r\<lparr>cur_code := c, token_size := k\<rparr>) (s\<lparr>cur_code := c, token_size := k\<rparr>)"
  "rs_sim r s \<Longrightarrow>
   rs_sim (r\<lparr>token_size := k, resp_state := x, cur_code := c\<rparr>)
          (s\<lparr>token_size := k, resp_state := x, cur_code := c\<rparr>)"
  "rs_sim r s \<Longrightarrow>
   rs_sim (r\<lparr>token_size := k, resp_body_type := t, resp_state := x, cur_code := c\<rparr>)
          (s\<lparr>token_size := k, resp_body_type := t, resp_state := x, cur_code := c\<rparr>)"
  "rs_sim r s \<Longrightarrow>
   rs_sim (r\<lparr>resp_state := x, cur_code := c, token_size := k\<rparr>)
          (s\<lparr>resp_state := x, cur_code := c, token_size := k\<rparr>)"
  "rs_sim r s \<Longrightarrow> rs_sim (rs_token x c k r) (rs_token x c k s)"
  "rs_sim r s \<Longrightarrow> final_error c \<Longrightarrow> rs_sim (rs_fail c r) (rs_fail c s)"
  by (simp_all add: rs_sim_def rs_token_def rs_fail_def final_error_def)

lemma rs_sim_token_size [simp]:
  "rs_sim r s \<Longrightarrow> rs_sim (r\<lparr>token_size := k\<rparr>) (s\<lparr>token_size := k\<rparr>)"
  by (simp add: rs_sim_def)

lemma rs_sim_flag: "rs_sim r s \<Longrightarrow> has_flag f r = has_flag f s"
  by (simp add: rs_sim_def has_flag_def)

lemma rs_known_field_sim [intro!, simp]:
  assumes "rs_sim r s"
  shows "rel_outcome rs_sim (rs_known_field ieq f r) (rs_known_field ieq f s)"
proof -
  have "has_flag HTTP_1_0 r = has_flag HTTP_1_0 s" "resp_body_type r = resp_body_type s"
    using assms rs_sim_flag [of r s] by (simp_all add: rs_sim_def)
  then show ?thesis
    using assms unfolding rs_known_field_def
    by (auto split: rs_body_type.split)
qed

lemma rs_framing_value_sim [intro!, simp]:
  assumes "rs_sim r s"
  shows "rs_sim (rs_framing_value ieq f r) (rs_framing_value ieq f s)"
proof -
  have "body_size r = body_size s" "resp_body_type r = resp_body_type s" using assms by (simp_all add: rs_sim_def)
  then show ?thesis
    using assms unfolding rs_framing_value_def Let_def
    by (auto split: rs_body_type.split prod.split decode_result.split
        decode_transfer_encoding_result.split)
qed

lemmas rs_rest_defs =
  rs_crlf_after_reason_phrase_def rs_status_code_def rs_reason_phrase_def rs_unsafe_body_def
  rs_ows_after_colon_def rs_crlf_after_field_value_def
  rs_end_of_headers_def rs_crlf_after_headers_def rs_body_def rs_chunk_size_def
  rs_crlf_after_chunk_ext_def rs_chunk_data_def rs_crlf_after_chunk_data_def rs_trailer_name_def
  rs_ows_after_trailer_colon_def rs_trailer_value_def rs_crlf_after_trailer_value_def
  rs_crlf_after_trailers_def

lemma rs_switch_sim:
  assumes "rs_ready r" and "rs_ready s" and "rs_sim r s"
  shows "rel_outcome rs_sim (rs_switch ieq r) (rs_switch ieq s)"
proof -
  have rs: "rest r = rest s" and st: "resp_state r = resp_state s" and bs: "body_size r = body_size s"
    and bt: "resp_body_type r = resp_body_type s" and vs: "connection_flags r = connection_flags s"
    and cc: "cur_code r = code_error_insufficient_data" "cur_code s = code_error_insufficient_data"
    using assms by (auto simp: rs_sim_def rs_ready_def)
  note prems = assms rs st bs bt vs cc
  show ?thesis
  proof (cases "resp_state s \<in> {RS_EXPECT_VERSION_STATIC_STR, RS_EXPECT_CHUNK_EXT}")
    case True
    then show ?thesis
      using prems assms(1,2) [unfolded rs_ready_def rs_inv_def rs_partial_def]
      by (auto simp: rs_switch_def rs_case_eqs Let_def simp del: rest_length)
  next
    case False
    then show ?thesis using prems
      by (cases "resp_state s")
         (auto simp: rs_switch_def rs_case_eqs rs_rest_defs Let_def simp del: rest_length
           split: liberal_crlf_result.split decode_result.split prod.split rs_body_type.split)
  qed
qed

text \<open>\<open>next()\<close> preserves the relation.\<close>

lemma rs_next_ready_sim:
  assumes "rs_ready r" and "rs_ready s" and "rs_sim r s"
  shows "rel_sum (=) rs_sim (rs_next ieq r) (rs_next ieq s)"
  using assms(1)
proof (cases rule: rs_next_ready_cases [where ieq = ieq])
  case (once r')
  then obtain s' where "rs_switch ieq s = Return s'" "rs_sim r' s'"
    using rs_switch_sim [OF assms, of ieq] by (cases "rs_switch ieq s") auto
  with once show ?thesis by (simp add: rs_next_ready [OF assms(2)])
next
  case (twice r1 r')
  then obtain s1 where s1: "rs_switch ieq s = Tail_next s1" "rs_sim r1 s1"
    using rs_switch_sim [OF assms, of ieq] by (cases "rs_switch ieq s") auto
  have "rs_empty_value s = rs_empty_value r"
    using assms by (simp add: rs_empty_value_ready) (simp add: rs_sim_def)
  with twice s1 have ready: "rs_ready s1"
    using rs_switch_ok [OF assms(2), of ieq] rs_empty_value_ready [OF assms(2)]
    by (auto simp: rs_switch_def)
  obtain s' where "rs_switch ieq s1 = Return s'" "rs_sim r' s'"
    using rs_switch_sim [OF twice(2) ready s1(2), of ieq] twice(3) by (cases "rs_switch ieq s1") auto
  with twice s1 ready show ?thesis by (simp add: rs_next_ready [OF assms(2)] rs_next_ready)
next
  case fault
  then have "rs_empty_value s"
    using assms by (simp add: rs_empty_value_ready) (simp add: rs_sim_def)
  then have "rs_next ieq s = Inl Out_of_bounds"
    using assms(2) by (simp add: rs_next_fault_iff rs_ready_def)
  with fault show ?thesis by simp
qed

lemma rs_consume_sim: "rs_sim r s \<Longrightarrow> in_range r \<Longrightarrow> in_range s \<Longrightarrow> \<not> final_error (cur_code r) \<Longrightarrow>
  rs_sim (consume r) (consume s)"
  by (auto simp: rs_sim_def rest_consume final_error_def)

text \<open>The two zero-sized tokens.\<close>

lemma rs_next_end_sim:
  assumes "rs_inv r" and "rs_inv s" and "rs_sim r s"
    and "resp_state r \<in> {RS_EXPECT_END_OF_BODY, RS_EXPECT_END_OF_MESSAGE}"
  shows "rel_sum (=) rs_sim (rs_next ieq r) (rs_next ieq s)"
proof -
  have "symbol_convert (cur_code r) \<noteq> symbol_error"
    using assms(1,4) by (auto simp: rs_inv_def rs_partial_def final_error_def)
  then have size: "token_size r = token_size s" and st: "resp_state s = resp_state r"
    and same: "resp_body_type r = resp_body_type s" "connection_flags r = connection_flags s"
      "body_size r = body_size s"
    using assms(3) by (simp_all add: rs_sim_def)
  from assms(3) have "rest r = rest s" by (simp add: rs_sim_def)
  then have ahead: "drop (idx r + token_size r) (ibuffer r) = drop (idx s + token_size s) (ibuffer s)"
    by (simp add: rest_advance size)
  note flag = rs_sim_flag [OF assms(3), of HTTP_1_0]
  from assms(4) show ?thesis
  proof (elim insertE emptyE)
    assume "resp_state r = RS_EXPECT_END_OF_BODY"
    with st same ahead show ?thesis
      by (simp add: rs_next.simps [of ieq r] rs_next.simps [of ieq s] rs_sim_def) (simp add: rest_def)
  next
    assume "resp_state r = RS_EXPECT_END_OF_MESSAGE"
    with st same ahead flag show ?thesis
      by (simp add: rs_next.simps [of ieq r] rs_next.simps [of ieq s] rs_sim_def) (simp add: rest_def)
  qed
qed

lemma rs_exhausted_sim:
  assumes "rs_sim r s"
  shows "rs_sim (rs_exhausted r) (rs_exhausted s)"
proof -
  have "resp_state r = resp_state s" "resp_body_type r = resp_body_type s" "body_size r = body_size s"
    using assms by (simp_all add: rs_sim_def)
  with assms rs_sim_flag [OF assms] show ?thesis by (auto simp: rs_exhausted_def)
qed

lemma rs_next_sim:
  assumes "rs_inv r" and "rs_inv s" and "rs_sim r s"
  shows "rel_sum (=) rs_sim (rs_next ieq r) (rs_next ieq s)"
proof (cases "resp_state r \<in> {RS_EXPECT_END_OF_BODY, RS_EXPECT_END_OF_MESSAGE}")
  case True
  with assms show ?thesis by (rule rs_next_end_sim)
next
  case False
  have st: "resp_state s = resp_state r" using assms(3) by (simp add: rs_sim_def)
  show ?thesis
  proof (cases "resp_state r \<in> {RS_ERRORED, RS_EXPECT_END_OF_CONNECTION_ERROR}")
    case True
    with assms st show ?thesis by (auto simp: rs_next.simps [of ieq r] rs_next.simps [of ieq s])
  next
    case run: False
    then have sim: "rs_sim (consume r) (consume s)"
      using assms by (intro rs_consume_sim) (auto simp: rs_inv_def)
    then have "rest (consume r) = rest (consume s)" by (simp add: rs_sim_def)
    then have len: "length (ibuffer r) - idx (consume r) = length (ibuffer s) - idx (consume s)"
      by (metis consume_fields(2) rest_length)
    have le: "idx (consume r) \<le> length (ibuffer r)" "idx (consume s) \<le> length (ibuffer s)"
      using assms consume_idx_le [of r] consume_idx_le [of s]
      by (simp_all add: rs_inv_def in_range_def)
    from assms(1) show ?thesis
    proof (cases rule: rs_next_cases [where ieq = ieq])
      case starved
      with len le have "idx (consume s) = length (ibuffer s)" by simp
      with run False st have "rs_next ieq s = Inr (rs_exhausted (consume s))"
        by (simp add: rs_next.simps [of ieq s])
      with starved rs_exhausted_sim [OF sim] show ?thesis by simp
    next
      case ready
      with len le have "idx (consume s) \<noteq> length (ibuffer s)"
        unfolding rs_ready_def consume_fields by linarith
      with assms(2) obtain "rs_ready (consume s)" "rs_next ieq s = rs_next ieq (consume s)"
        using run False st by (cases rule: rs_next_cases [where ieq = ieq]) auto
      with ready sim show ?thesis by (simp add: rs_next_ready_sim)
    qed (use run False in auto)
  qed
qed

section \<open>Running out of data and resuming\<close>

text \<open>A call that ends without a token only records how far it scanned.\<close>

lemma rs_token_size_id [simp]: "r\<lparr>token_size := token_size r\<rparr> = (r :: response)"
  by (cases r) simp

lemma rs_known_field_code:
  "rs_known_field ieq f r = Return r' \<Longrightarrow> cur_code r \<noteq> code_error_insufficient_data \<Longrightarrow>
   cur_code r' \<noteq> code_error_insufficient_data"
  by (auto simp: rs_known_field_def rs_fail_def split: if_splits rs_body_type.splits)

lemma rs_framing_value_code:
  "cur_code r \<noteq> code_error_insufficient_data \<Longrightarrow>
   cur_code (rs_framing_value ieq f r) \<noteq> code_error_insufficient_data"
  by (auto simp: rs_framing_value_def rs_fail_def Let_def
      split: rs_body_type.split prod.split decode_result.split decode_transfer_encoding_result.split)

lemma rs_switch_starved:
  assumes "rs_ready r" and "rs_switch ieq r = Return r'"
    and "cur_code r' = code_error_insufficient_data"
  shows "\<exists>n. r' = r\<lparr>token_size := n\<rparr>"
proof (cases "resp_state r \<in> {RS_EXPECT_VERSION_STATIC_STR, RS_EXPECT_CHUNK_EXT}")
  case True
  then show ?thesis
    using assms assms(1) [unfolded rs_ready_def rs_inv_def rs_partial_def]
    by (auto simp: rs_switch_def rs_case_eqs Let_def rs_fail_def rs_token_def split: if_splits)
next
  case False
  have "\<exists>n. r = r\<lparr>token_size := n\<rparr>" by (rule exI [of _ "token_size r"]) simp
  with False show ?thesis
    using assms
    by (cases "resp_state r")
       (auto simp: rs_switch_def rs_case_eqs rs_rest_defs Let_def rs_fail_def rs_token_def guarded_Return
         rs_framing_value_code
         dest: rs_known_field_code
         split: if_splits liberal_crlf_result.splits decode_result.splits prod.splits rs_body_type.splits)
qed

text \<open>More data behind the buffer do not change the decision to go on to another state.\<close>

lemma rs_inv_more: "rs_inv r \<Longrightarrow> rs_inv (r\<lparr>ibuffer := ibuffer r @ d\<rparr>)"
proof -
  assume inv: "rs_inv r"
  let ?r = "r\<lparr>ibuffer := ibuffer r @ d\<rparr>"
  have "in_range r" using inv by (simp add: rs_inv_def)
  then have "rs_partial ?r = rs_partial r"
    using token_prefix_more [of r d] by (cases "resp_state r") (simp_all add: rs_partial_def)
  moreover have "rs_framing ?r = rs_framing r"
    by (cases "resp_state r") (simp_all add: rs_framing_def)
  moreover have "rs_flags ?r = rs_flags r" by (simp add: rs_flags_def)
  ultimately show ?thesis using inv by (simp add: rs_inv_def) (simp add: in_range_def)
qed

lemma rs_known_field_Tail_next [simp]: "rs_known_field ieq f r \<noteq> Tail_next r'"
  by (auto simp: rs_known_field_def split: if_splits rs_body_type.splits)

lemma rs_switch_tail_more:
  assumes "rs_ready r" and "rs_switch ieq r = Tail_next r1"
  shows "rs_switch ieq (r\<lparr>ibuffer := ibuffer r @ d\<rparr>) = Tail_next (r1\<lparr>ibuffer := ibuffer r @ d\<rparr>)"
proof -
  let ?r = "r\<lparr>ibuffer := ibuffer r @ d\<rparr>"
  have inv: "rs_inv r" and range: "in_range r" and ne: "rest r \<noteq> []"
    using assms(1) by (auto simp: rs_ready_def rs_inv_def rest_def)
  have ready: "rs_ready ?r" using assms(1) rs_inv_more [of r d] by (simp add: rs_ready_def)
  note rest = rest_more [OF range, of d]
  show ?thesis
  proof (cases "resp_state r = RS_EXPECT_CHUNK_EXT")
    case True
    then have "list_all is_chunk_ext_char (token_prefix r)" "list_all is_chunk_ext_char (token_prefix ?r)"
      and "in_range ?r"
      using assms(1) ready by (auto simp: rs_ready_def rs_inv_def rs_partial_def)
    note eqs = rs_chunk_ext_eq [OF range this(1)] rs_chunk_ext_eq [OF this(3,2)]
    have "match_loop is_chunk_ext_char (rest r) = 0"
      using assms(2) True by (auto simp: rs_switch_def eqs Let_def split: if_splits)
    then have "match_loop is_chunk_ext_char (rest r @ d) = 0"
      using ne by (simp add: match_loop_zero)
    with assms(2) True ne show ?thesis
      by (auto simp: rs_switch_def eqs Let_def rest nth_append split: if_splits)
  next
    case False
    then show ?thesis
      using rs_switch_Tail_next [OF assms(2)] assms rest ne
       field_name.zero_more_data [of "rest r" d] ows.zero_more_data [of "rest r" d]
      by (auto simp: rs_tail_calls_def rs_switch_def rs_field_name_eq rs_ows_after_colon_def
          rs_trailer_name_def rs_ows_after_trailer_colon_def ready Let_def split: if_splits)
  qed
qed

text \<open>The part of \<open>next()\<close> in front of the \<open>switch\<close> is idempotent.\<close>

lemma rs_next_consume:
  assumes "resp_state r \<notin> rs_sooner"
  shows "rs_next ieq (consume r) = rs_next ieq r"
  using assms by (simp add: rs_next.simps [of ieq r] rs_next.simps [of ieq "consume r"] rs_sooner_def)

text \<open>A reader stopped in a token, given the rest of its buffer and more, is where a reader with
  the longer buffer is.\<close>

lemma rs_refill_sim:
  assumes "rs_inv s" and "cur_code s = code_error_insufficient_data"
    and "rs_inv (s\<lparr>token_size := n\<rparr>)"
  shows "rel_sum (=) rs_sim (rs_next ieq (s\<lparr>ibuffer := ibuffer s @ d\<rparr>))
           (rs_set_buffer ieq (rest s @ d) (s\<lparr>token_size := n\<rparr>))"
proof -
  let ?s = "s\<lparr>ibuffer := ibuffer s @ d\<rparr>"
  let ?t = "s\<lparr>token_size := n, ibuffer := rest s @ d, idx := 0\<rparr>"
  have range: "in_range (s\<lparr>token_size := n\<rparr>)" using assms(3) by (simp add: rs_inv_def)
  then have "n \<le> length (rest s)" by (simp add: in_range_def)
  then have "keeps_token (rest s @ d) (s\<lparr>token_size := n\<rparr>)" by (simp add: keeps_token_def)
  from rs_rebuffer_inv [OF assms(3) this] have t: "rs_inv ?t" .
  have "rest ?t = rest s @ d" by (simp add: rest_def)
  moreover have "rest ?s = rest s @ d" using assms(1) by (intro rest_more) (simp add: rs_inv_def)
  ultimately have "rs_sim ?s ?t" using assms(2) by (simp add: rs_sim_def)
  with rs_inv_more [OF assms(1)] t show ?thesis
    using assms(2) rs_next_sim by (simp add: rs_set_buffer_def)
qed

lemma rs_next_ready_resume:
  assumes "rs_ready s" and "rs_next ieq s = Inr r1" and "cur_code r1 = code_error_insufficient_data"
  shows "rel_sum (=) rs_sim (rs_next ieq (s\<lparr>ibuffer := ibuffer s @ d\<rparr>))
           (rs_set_buffer ieq (rest r1 @ d) r1)"
  using assms(1)
proof (cases rule: rs_next_ready_cases [where ieq = ieq])
  case (once r')
  then have "r' = r1" using assms(2) by simp
  with once assms rs_switch_starved [OF assms(1), of ieq r1] obtain n where "r1 = s\<lparr>token_size := n\<rparr>"
    by blast
  with once \<open>r' = r1\<close> assms(1) rs_refill_sim [of s n ieq d] show ?thesis by (simp add: rs_ready_def)
next
  case (twice s1 r')
  then have "r' = r1" using assms(2) by simp
  with twice assms rs_switch_starved [OF twice(2), of ieq r1] obtain n where n: "r1 = s1\<lparr>token_size := n\<rparr>"
    by blast
  have "ibuffer s1 = ibuffer s" using rs_switch_frame [of s ieq] twice(1) by simp
  moreover have "rs_ready (s\<lparr>ibuffer := ibuffer s @ d\<rparr>)"
    using assms(1) rs_inv_more [of s d] by (simp add: rs_ready_def)
  ultimately have "rs_next ieq (s\<lparr>ibuffer := ibuffer s @ d\<rparr>) = rs_next ieq (s1\<lparr>ibuffer := ibuffer s1 @ d\<rparr>)"
    using rs_switch_tail_more [OF assms(1) twice(1), of d] by (simp add: rs_next_ready)
  with n twice \<open>r' = r1\<close> rs_refill_sim [of s1 n ieq d] show ?thesis by (simp add: rs_ready_def)
next
  case fault
  with assms(2) show ?thesis by simp
qed

lemma rs_next_resume:
  assumes "rs_inv r" and "rs_next ieq r = Inr r1" and "cur_code r1 = code_error_insufficient_data"
  shows "rel_sum (=) rs_sim (rs_next ieq (r\<lparr>ibuffer := ibuffer r @ d\<rparr>))
           (rs_set_buffer ieq (rest r1 @ d) r1)"
  using assms(1)
proof (cases rule: rs_next_cases [where ieq = ieq])
  case starved
  then have r1: "r1 = consume r"
    using assms(2,3) by (auto simp: rs_exhausted_def rs_fail_def split: if_splits)
  have "rs_next ieq (r\<lparr>ibuffer := ibuffer r @ d\<rparr>) = rs_next ieq (consume r\<lparr>ibuffer := ibuffer r @ d\<rparr>)"
    using starved rs_next_consume [of "r\<lparr>ibuffer := ibuffer r @ d\<rparr>" ieq] by (simp add: consume_more)
  then show ?thesis
    using rs_refill_sim [of "consume r" "token_size (consume r)" ieq d] starved(4) by (simp add: r1)
next
  case ready
  note st = rs_ready_state [OF ready(1)]
  have "rs_next ieq (r\<lparr>ibuffer := ibuffer r @ d\<rparr>) = rs_next ieq (consume r\<lparr>ibuffer := ibuffer r @ d\<rparr>)"
    using st rs_next_consume [of "r\<lparr>ibuffer := ibuffer r @ d\<rparr>" ieq] by (simp add: consume_more)
  then show ?thesis
    using rs_next_ready_resume [OF ready(1), of ieq r1 d] ready(2) assms by simp
next
  case errored
  with assms show ?thesis by (auto simp: rs_inv_def final_error_def)
qed (use assms in \<open>auto simp: rs_fail_def\<close>)

end
