(* ===== verification/Response_Order.thy ===== *)
theory Response_Order
  imports Response_Resume Request_Order
begin

text \<open>
  The response reader as a provider of the two interfaces: the order of its tokens follows the
  grammar of responses whatever the client does within the contract, and the client's loop ends.
\<close>

section \<open>Phases\<close>

definition status_line :: "symbol list" where
  "status_line = [symbol_version, symbol_status_code, symbol_reason_phrase]"

definition rs_phase :: "response \<Rightarrow> phase option" where
  "rs_phase r =
     (case resp_state r of
        RS_ERRORED \<Rightarrow> None
      | RS_EXPECT_VERSION_STATIC_STR \<Rightarrow> Some (Start_line status_line)
      | RS_EXPECT_VERSION \<Rightarrow> Some (Start_line status_line)
      | RS_EXPECT_END_OF_CONNECTION_ERROR \<Rightarrow> Some (Start_line status_line)
      | RS_EXPECT_SP_AFTER_VERSION \<Rightarrow> Some (Start_line (tl status_line))
      | RS_EXPECT_STATUS_CODE \<Rightarrow> Some (Start_line (tl status_line))
      | RS_EXPECT_SP_AFTER_STATUS_CODE \<Rightarrow> Some (Start_line (tl (tl status_line)))
      | RS_EXPECT_REASON_PHRASE \<Rightarrow> Some (Start_line (tl (tl status_line)))
      | RS_EXPECT_CRLF_AFTER_REASON_PHRASE \<Rightarrow> Some In_fields
      | RS_EXPECT_FIELD_NAME \<Rightarrow> Some In_fields
      | RS_EXPECT_COLON \<Rightarrow> Some In_value
      | RS_EXPECT_OWS_AFTER_COLON \<Rightarrow> Some In_value
      | RS_EXPECT_FIELD_VALUE \<Rightarrow> Some In_value
      | RS_EXPECT_CRLF_AFTER_FIELD_VALUE \<Rightarrow> Some In_fields
      | RS_EXPECT_CRLF_AFTER_HEADERS \<Rightarrow> Some In_fields
      | RS_EXPECT_END_OF_MESSAGE \<Rightarrow> Some In_trailers
      | RS_EXPECT_TRAILER_NAME \<Rightarrow> Some In_trailers
      | RS_EXPECT_CRLF_AFTER_TRAILER_VALUE \<Rightarrow> Some In_trailers
      | RS_EXPECT_CRLF_AFTER_TRAILERS \<Rightarrow> Some In_trailers
      | RS_EXPECT_TRAILER_COLON \<Rightarrow> Some In_trailer_value
      | RS_EXPECT_OWS_AFTER_TRAILER_COLON \<Rightarrow> Some In_trailer_value
      | RS_EXPECT_TRAILER_VALUE \<Rightarrow> Some In_trailer_value
      | _ \<Rightarrow> Some In_body)"

lemmas rs_phase_simps = rs_phase_def follows_def report_def status_line_def

lemma rs_known_field_follows:
  assumes "resp_state r = RS_EXPECT_COLON" and "cur_code r = code_field_name"
  shows "outcome_all (\<lambda>r'. follows line (Some In_fields) (cur_code r') (rs_phase r'))
    (rs_known_field ieq f r)"
  using assms
  by (auto simp: rs_known_field_def rs_fail_def rs_phase_simps
      split: rs_body_type.split)

lemma rs_framing_value_follows:
  assumes "resp_state r = RS_EXPECT_CRLF_AFTER_FIELD_VALUE" and "cur_code r = code_field_value"
  shows "follows line (Some In_value) (cur_code (rs_framing_value ieq f r))
    (rs_phase (rs_framing_value ieq f r))"
  using assms
  by (auto simp: rs_framing_value_def rs_fail_def rs_phase_simps Let_def
      split: rs_body_type.split prod.split decode_result.split decode_transfer_encoding_result.split)

lemmas rs_plain_case_defs =
  rs_version_static_str_def rs_version_def rs_sp_after_version_def rs_status_code_def
  rs_sp_after_status_code_def rs_reason_phrase_def rs_crlf_after_reason_phrase_def
  rs_field_name_def rs_colon_def rs_ows_after_colon_def rs_field_value_def
  rs_crlf_after_field_value_def rs_end_of_headers_def rs_crlf_after_headers_def rs_body_def
  rs_unsafe_body_def rs_chunk_size_def rs_chunk_ext_def rs_crlf_after_chunk_ext_def
  rs_chunk_data_def rs_crlf_after_chunk_data_def rs_trailer_name_def
  rs_trailer_colon_def rs_ows_after_trailer_colon_def rs_trailer_value_def
  rs_crlf_after_trailer_value_def rs_crlf_after_trailers_def

lemma rs_switch_follows:
  assumes "cur_code r = code_error_insufficient_data"
  shows "outcome_all (\<lambda>r'. follows status_line (rs_phase r) (cur_code r') (rs_phase r'))
    (rs_switch ieq r)"
  using assms
proof (cases "resp_state r")
  case RS_EXPECT_FIELD_NAME
  then show ?thesis
    using assms rs_known_field_follows [of "rs_token RS_EXPECT_COLON code_field_name n r" status_line ieq for n]
    by (auto simp: rs_switch_def rs_field_name_def rs_token_def Let_def rs_phase_def)
       (auto simp: follows_def report_def)
next
  case RS_EXPECT_FIELD_VALUE
  then show ?thesis
    using assms rs_framing_value_follows
    by (auto simp: rs_switch_def rs_field_value_def rs_token_def Let_def rs_phase_def)
       (auto simp: follows_def report_def)
qed (auto simp: rs_switch_def rs_plain_case_defs rs_token_def rs_fail_def Let_def rs_phase_simps
    split: rs_body_type.split prod.split decode_result.split
      liberal_crlf_result.split)

lemma rs_tail_phase:
  assumes "rs_ready r" and "rs_switch ieq r = Tail_next r1"
  shows "rs_phase r1 = rs_phase r"
  using rs_switch_Tail_next [OF assms(2)] by (auto simp: rs_tail_calls_def rs_phase_def)

lemma rs_exhausted_follows:
  assumes "resp_state r \<notin> rs_sooner" and "cur_code r = code_error_insufficient_data"
  shows "follows status_line (rs_phase r) (cur_code (rs_exhausted r)) (rs_phase (rs_exhausted r))"
proof (cases "rs_exhausted r = r")
  case True
  with assms show ?thesis by (cases "resp_state r") (simp_all add: rs_sooner_def rs_phase_simps)
next
  case False
  then show ?thesis
    by (auto simp: rs_exhausted_def rs_fail_def rs_phase_simps split: if_splits option.split)
qed

lemma rs_next_follows:
  assumes "rs_inv r" and "rs_next ieq r = Inr r'"
  shows "follows status_line (rs_phase r) (cur_code r') (rs_phase r')"
  using assms(1)
proof (cases rule: rs_next_cases [where ieq = ieq])
  case ready
  have phase: "rs_phase (consume r) = rs_phase r" by (simp add: rs_phase_def)
  from ready(1) show ?thesis
  proof (cases rule: rs_next_ready_cases [where ieq = ieq])
    case (once r2)
    then show ?thesis
      using ready assms(2) rs_switch_follows [of "consume r" ieq] phase by simp
  next
    case (twice r1 r2)
    then have "cur_code r1 = code_error_insufficient_data" by (simp add: rs_ready_def)
    from rs_switch_follows [OF this, of ieq] twice ready assms(2) rs_tail_phase [OF ready(1)] phase
    show ?thesis by simp
  next
    case fault
    then show ?thesis using ready assms(2) by simp
  qed
next
  case starved
  then show ?thesis
    using assms(2) rs_exhausted_follows [of "consume r"] by (simp add: rs_phase_def)
qed (use assms in \<open>auto simp: rs_phase_simps rs_inv_def rs_fail_def\<close>)

section \<open>The calls of a client\<close>

datatype rs_call = RS_call_next | RS_call_set_buffer octets | RS_call_set_method octets | RS_call_puteof

fun rs_do_call :: "iequals \<Rightarrow> rs_call \<Rightarrow> response \<Rightarrow> fault + response" where
  "rs_do_call ieq RS_call_next r = rs_next ieq r"
| "rs_do_call ieq (RS_call_set_buffer buf) r = rs_set_buffer ieq buf r"
| "rs_do_call ieq (RS_call_set_method meth) r = rs_set_method meth r"
| "rs_do_call ieq RS_call_puteof r = Inr (rs_puteof r)"

text \<open>\<open>set_method\<close> asserts that the current token is a status code.\<close>

fun rs_allowed :: "rs_call \<Rightarrow> response \<Rightarrow> bool" where
  "rs_allowed RS_call_next r = True"
| "rs_allowed (RS_call_set_buffer buf) r = keeps_token buf r"
| "rs_allowed (RS_call_set_method meth) r = (cur_code r = code_status_code)"
| "rs_allowed RS_call_puteof r = True"

fun rs_reads :: "rs_call \<Rightarrow> response \<Rightarrow> bool" where
  "rs_reads RS_call_next r = True"
| "rs_reads (RS_call_set_buffer buf) r = (cur_code r = code_error_insufficient_data)"
| "rs_reads (RS_call_set_method meth) r = False"
| "rs_reads RS_call_puteof r = False"

lemma rs_phase_rebuffer [simp]: "rs_phase (r\<lparr>ibuffer := b, idx := i\<rparr>) = rs_phase r"
  by (simp add: rs_phase_def)

interpretation rs: token_reader "rs_do_call ieq" rs_allowed rs_reads cur_code rs_inv rs_phase status_line
  for ieq
proof (unfold_locales, goal_cases)
  case (1 r c r')
  then show ?case
    using rs_next_inv [of r ieq r'] rs_set_buffer_inv [of r _ ieq r'] rs_set_method_inv [of r _ r']
      rs_puteof_inv [of r]
    by (cases c) auto
next
  case (2 r c r')
  show ?case
  proof (cases c)
    case RS_call_next
    with 2 show ?thesis using rs_next_follows [of r ieq r'] by simp
  next
    case (RS_call_set_buffer buf)
    with 2 have "rs_inv (r\<lparr>ibuffer := buf, idx := 0\<rparr>)"
      and "rs_next ieq (r\<lparr>ibuffer := buf, idx := 0\<rparr>) = Inr r'"
      using rs_rebuffer_inv by (auto simp: rs_set_buffer_def)
    from rs_next_follows [OF this] show ?thesis by simp
  qed (use 2 in simp_all)
next
  case (3 r c r')
  then show ?case
    by (cases c) (auto simp: rs_set_buffer_def rs_phase_def rs_puteof_def elim: rs_set_method_cases)
qed (simp add: status_line_def)

section \<open>Progress\<close>

text \<open>Four tokens may be empty: the end of the body and of the message when there are no
  chunks, a trailer value and a reason phrase. Each is followed by a token of another kind.\<close>

definition rs_rank :: "rs_state \<Rightarrow> nat" where
  "rs_rank s =
     (case s of
        RS_EXPECT_UNSAFE_BODY \<Rightarrow> 2
      | RS_EXPECT_END_OF_BODY \<Rightarrow> 2
      | RS_EXPECT_END_OF_MESSAGE \<Rightarrow> 1
      | RS_EXPECT_OWS_AFTER_TRAILER_COLON \<Rightarrow> 1
      | RS_EXPECT_TRAILER_VALUE \<Rightarrow> 1
      | RS_EXPECT_REASON_PHRASE \<Rightarrow> 1
      | _ \<Rightarrow> 0)"

definition rs_pending :: "response \<Rightarrow> nat" where
  "rs_pending r = 3 * (length (ibuffer r) - (idx r + token_size r)) + rs_rank (resp_state r)"

lemma rs_rank_le: "rs_rank s \<le> 2"
  by (simp add: rs_rank_def split: rs_state.split)

lemma rs_known_field_size:
  "outcome_all (\<lambda>r'. token_size r' = token_size r) (rs_known_field ieq f r)"
  by (auto simp: rs_known_field_def rs_fail_def split: rs_body_type.split)

lemma rs_framing_value_fields [simp]:
  "token_size (rs_framing_value ieq f r) = token_size r"
  "resp_state (rs_framing_value ieq f r) \<in> {resp_state r, RS_ERRORED}"
  by (auto simp: rs_framing_value_def rs_fail_def Let_def
      split: rs_body_type.split prod.split decode_result.split decode_transfer_encoding_result.split)

lemma rs_switch_progress:
  assumes "rs_ready r" and "rs_switch ieq r = Return r'" and "symbol_convert (cur_code r') \<noteq> symbol_error"
  shows "0 < token_size r' \<or> rs_rank (resp_state r') < rs_rank (resp_state r)"
proof -
  have size: "0 < unat (body_size r) \<longleftrightarrow> body_size r \<noteq> 0" by (simp add: unat_gt_0)
  have data: "0 < length (ibuffer r) - idx r" and cc: "cur_code r = code_error_insufficient_data"
    using assms(1) by (simp_all add: rs_ready_def)
  note inv = assms(1) [unfolded rs_ready_def rs_inv_def rs_partial_def rs_framing_def]
  note prems = assms size data cc inv
  show ?thesis
  proof (cases "resp_state r")
    case RS_EXPECT_FIELD_NAME
    then show ?thesis
      using prems rs_known_field_size [THEN outcome_allD]
      by (fastforce simp: rs_switch_def rs_field_name_eq rs_token_def Let_def split: if_splits)
  next
    case RS_EXPECT_FIELD_VALUE
    then show ?thesis
      using prems
      by (auto simp: rs_switch_def rs_field_value_eq rs_token_def Let_def guarded_Return
          decode_field_value_def split: if_splits)
  qed (use prems in \<open>auto simp: rs_switch_def rs_case_eqs rs_rest_defs rs_token_def rs_fail_def
      rs_rank_def Let_def rs_static_str_def
      split: if_splits rs_body_type.splits prod.splits decode_result.splits liberal_crlf_result.splits
      dest: strict_crlf_cases\<close>)
qed

lemma rs_next_ready_progress:
  assumes "rs_ready r" and "rs_next ieq r = Inr r'" and "symbol_convert (cur_code r') \<noteq> symbol_error"
  shows "0 < token_size r' \<or> rs_rank (resp_state r') < rs_rank (resp_state r)"
  using assms(1)
proof (cases rule: rs_next_ready_cases [where ieq = ieq])
  case (once r2)
  with assms show ?thesis using rs_switch_progress [OF assms(1)] by simp
next
  case (twice r1 r2)
  have "rs_rank (resp_state r1) \<le> rs_rank (resp_state r)"
    using rs_switch_Tail_next [OF twice(1)] by (auto simp: rs_tail_calls_def rs_rank_def)
  with twice assms rs_switch_progress [OF twice(2), of ieq r2] show ?thesis by auto
next
  case fault
  with assms(2) show ?thesis by simp
qed

lemma rs_next_pending:
  assumes "rs_inv r" and "symbol_convert (cur_code r) \<noteq> symbol_error"
    and "rs_next ieq r = Inr r'" and "symbol_convert (cur_code r') \<noteq> symbol_error"
  shows "rs_pending r' < rs_pending r"
proof -
  have "rs_inv r'" by (rule rs_next_inv [OF assms(1,3)])
  then have range: "idx r' + token_size r' \<le> length (ibuffer r')" by (simp add: rs_inv_defs)
  have "resp_state r \<noteq> RS_ERRORED" using assms(1,2) by (auto simp: rs_inv_def final_error_def)
  moreover have "cur_code r \<noteq> code_error_insufficient_data" using assms(2) by auto
  ultimately have frame: "ibuffer r' = ibuffer r" "idx r' = idx r + token_size r"
    using rs_next_frame [OF assms(1,3)] by (simp_all add: consume_def)
  have "0 < token_size r' \<or> rs_rank (resp_state r') < rs_rank (resp_state r)"
    using assms(1)
  proof (cases rule: rs_next_cases [where ieq = ieq])
    case ready
    with assms rs_next_ready_progress [OF ready(1), of ieq r'] show ?thesis by simp
  next
    case starved
    with assms show ?thesis
      by (auto simp: rs_exhausted_def rs_fail_def rs_rank_def split: if_splits)
  qed (use assms \<open>resp_state r \<noteq> RS_ERRORED\<close> in \<open>auto simp: rs_rank_def rs_fail_def\<close>)
  moreover have "length (ibuffer r) - (idx r + token_size r) =
      (length (ibuffer r') - (idx r' + token_size r')) + token_size r'"
    using frame range by simp
  ultimately show ?thesis
    using rs_rank_le [of "resp_state r'"] unfolding rs_pending_def by (elim disjE) linarith+
qed

interpretation rs: pulled_reader "rs_next ieq" cur_code rs_inv rs_pending for ieq
  by unfold_locales (rule rs_next_inv, assumption+, rule rs_next_pending)

text \<open>A complete token is consumed by the next call of \<open>next()\<close>.\<close>

lemma rs_next_rest:
  assumes "rs_inv r" and "symbol_convert (cur_code r) \<noteq> symbol_error" and "rs_next ieq r = Inr r'"
  shows "rest r = token_prefix r @ rest r'"
proof -
  have "resp_state r \<noteq> RS_ERRORED" using assms(1,2) by (auto simp: rs_inv_def final_error_def)
  moreover have "cur_code r \<noteq> code_error_insufficient_data" using assms(2) by auto
  ultimately have "ibuffer r' = ibuffer r" "idx r' = idx r + token_size r"
    using rs_next_frame [OF assms(1,3)] by (simp_all add: consume_def)
  then have "rest r' = drop (token_size r) (rest r)" by (simp add: rest_def add.commute)
  then show ?thesis by (simp add: token_prefix_def)
qed

interpretation rs: partitioning_reader "rs_next ieq" cur_code rs_inv rs_pending token_prefix rest
  for ieq
  by unfold_locales (rule rs_next_rest)

section \<open>expected\_token()\<close>

text \<open>Where the reader has to give a token other than the expected one, and which: as for requests, and
  at the end of the connection, which ends a body that it delimits.\<close>

definition rs_instead :: "response \<Rightarrow> code option" where
  "rs_instead r =
     (let c = hd (rest (consume r)) in
      case resp_state r of
        RS_EXPECT_FIELD_NAME \<Rightarrow> if is_tchar c then None else Some code_end_of_headers
      | RS_EXPECT_TRAILER_NAME \<Rightarrow> if is_tchar c then None else Some code_end_of_message
      | RS_EXPECT_OWS_AFTER_COLON \<Rightarrow> if is_ows c then None else Some code_field_value
      | RS_EXPECT_OWS_AFTER_TRAILER_COLON \<Rightarrow> if is_ows c then None else Some code_trailer_value
      | RS_EXPECT_CHUNK_EXT \<Rightarrow>
          if is_chunk_ext_char c then None
          else Some (if body_size r = 0 then code_end_of_body else code_skip)
      | RS_EXPECT_CRLF_AFTER_CHUNK_EXT \<Rightarrow> if body_size r = 0 then Some code_end_of_body else None
      | RS_EXPECT_CRLF_AFTER_HEADERS \<Rightarrow> Some code_end_of_headers
      | RS_EXPECT_CRLF_AFTER_TRAILERS \<Rightarrow> Some code_end_of_message
      | RS_EXPECT_UNSAFE_BODY \<Rightarrow> if rest (consume r) = [] then Some code_end_of_body else None
      | _ \<Rightarrow> None)"

definition rs_reports :: "response \<Rightarrow> code" where
  "rs_reports r = (case rs_instead r of None \<Rightarrow> rs_expected_token r | Some c \<Rightarrow> c)"

lemma rs_instead_unexpected: "rs_instead r = Some c \<Longrightarrow> c \<noteq> rs_expected_token r"
  by (cases "resp_state r") (auto simp: rs_instead_def rs_expected_token_def Let_def split: if_splits)

lemma rs_reports_consume:
  "resp_state r \<noteq> RS_ERRORED \<Longrightarrow> rs_reports (consume r) = rs_reports r"
  by (cases "resp_state r") (simp_all add: rs_reports_def rs_instead_def rs_expected_token_def)

definition rs_reports_ok :: "response \<Rightarrow> response outcome \<Rightarrow> bool" where
  "rs_reports_ok r x =
     (case x of
        Return r' \<Rightarrow> symbol_convert (cur_code r') = symbol_error \<or> cur_code r' = rs_reports r
      | Tail_next r1 \<Rightarrow> rs_reports r1 = rs_reports r
      | Fault _ \<Rightarrow> True)"

lemma rs_reports_ok_simps [simp]:
  "rs_reports_ok r (Return r') \<longleftrightarrow> symbol_convert (cur_code r') = symbol_error \<or> cur_code r' = rs_reports r"
  "rs_reports_ok r (Tail_next r1) \<longleftrightarrow> rs_reports r1 = rs_reports r"
  "rs_reports_ok r (Fault f)"
  by (simp_all add: rs_reports_ok_def)

lemma rs_reports_ok_guarded [simp]: "rs_reports_ok r (guarded x g) \<longleftrightarrow> (\<forall>a. x = Inr a \<longrightarrow> rs_reports_ok r (g a))"
  by (cases x) simp_all

lemma rs_known_field_reports:
  "cur_code r = code_field_name \<Longrightarrow> rs_reports s = code_field_name \<Longrightarrow> rs_reports_ok s (rs_known_field ieq f r)"
  by (auto simp: rs_known_field_def rs_fail_def split: rs_body_type.split)

lemma rs_framing_value_reports:
  "cur_code r = code_field_value \<Longrightarrow>
   symbol_convert (cur_code (rs_framing_value ieq f r)) = symbol_error \<or>
   cur_code (rs_framing_value ieq f r) = code_field_value"
  by (auto simp: rs_framing_value_def rs_fail_def Let_def
      split: rs_body_type.split prod.split decode_result.split decode_transfer_encoding_result.split)

lemma rs_switch_reports:
  assumes "rs_ready r"
  shows "rs_reports_ok r (rs_switch ieq r)"
proof -
  have ne: "rest r \<noteq> []" and wait: "cur_code r = code_error_insufficient_data" and inv: "rs_inv r"
    using assms by (auto simp: rs_ready_def rest_def)
  note first = field_name.zero_iff [OF ne] ows.zero_iff [OF ne]
  note defs = rs_reports_def rs_instead_def rs_expected_token_def Let_def wait
  show ?thesis
  proof (cases "resp_state r")
    case RS_EXPECT_FIELD_NAME
    then have "rs_reports r = (if is_tchar (hd (rest r)) then code_field_name else code_end_of_headers)"
      "rs_reports (r\<lparr>resp_state := RS_EXPECT_CRLF_AFTER_HEADERS\<rparr>) = code_end_of_headers"
      by (simp_all add: defs)
    with RS_EXPECT_FIELD_NAME show ?thesis
      using first by (auto simp: rs_switch_def rs_field_name_def wait rs_token_def Let_def
          intro!: rs_known_field_reports)
  next
    case RS_EXPECT_FIELD_VALUE
    then show ?thesis
      using rs_framing_value_reports
      by (auto simp: rs_switch_def rs_field_value_def rs_token_def defs)
  next
    case RS_EXPECT_CHUNK_EXT
    then have "list_all is_chunk_ext_char (token_prefix r)" "in_range r"
      using inv wait by (simp_all add: rs_inv_def rs_partial_def)
    with RS_EXPECT_CHUNK_EXT ne show ?thesis
      by (auto simp: rs_switch_def rs_chunk_ext_eq rs_token_def rs_fail_def match_loop_zero defs)
  qed (use first ne in \<open>auto simp: rs_switch_def rs_plain_case_defs rs_token_def rs_fail_def defs
      split: rs_body_type.split prod.split decode_result.split liberal_crlf_result.split\<close>)
qed

lemma rs_next_reports:
  assumes "rs_inv r" and "rs_next ieq r = Inr r'" and "symbol_convert (cur_code r') \<noteq> symbol_error"
  shows "cur_code r' = rs_reports r"
  using assms(1)
proof (cases rule: rs_next_cases [where ieq = ieq])
  case ready
  have same: "rs_reports (consume r) = rs_reports r"
    using rs_ready_state [OF ready(1)] by (intro rs_reports_consume) (auto simp: rs_sooner_def)
  from ready(1) show ?thesis
  proof (cases rule: rs_next_ready_cases [where ieq = ieq])
    case (once r2)
    then show ?thesis using ready assms same rs_switch_reports [OF ready(1), of ieq] by simp
  next
    case (twice r1 r2)
    then show ?thesis
      using ready assms same rs_switch_reports [OF ready(1), of ieq] rs_switch_reports [OF twice(2), of ieq] by simp
  next
    case fault
    then show ?thesis using ready assms(2) by simp
  qed
next
  case starved
  then have "rest (consume r) = []" by (simp add: rest_def)
  with starved assms(2,3) show ?thesis
    by (auto simp: rs_exhausted_def rs_fail_def rs_reports_def rs_instead_def split: if_splits)
qed (use assms in \<open>auto simp: rs_reports_def rs_instead_def rs_expected_token_def rs_fail_def\<close>)

end
