(* ===== verification/Response_Body.thy ===== *)
theory Response_Body
  imports Response_Order
begin

text \<open>
  Two facts about single calls that the properties of the response reader rest on: a message
  whose method or status code rules a body out stays without one until its end is reported, and
  which codes a response reader can report.
\<close>

section \<open>Messages without a body\<close>

definition rs_bodyless :: "response \<Rightarrow> bool" where
  "rs_bodyless r \<longleftrightarrow>
     resp_body_type r \<in> {RS_FORCE_NO_BODY, RS_FORCE_NO_BODY_AND_STOP} \<and>
     resp_state r \<in> {RS_EXPECT_SP_AFTER_STATUS_CODE, RS_EXPECT_REASON_PHRASE,
       RS_EXPECT_CRLF_AFTER_REASON_PHRASE, RS_EXPECT_FIELD_NAME, RS_EXPECT_COLON,
       RS_EXPECT_OWS_AFTER_COLON, RS_EXPECT_FIELD_VALUE, RS_EXPECT_CRLF_AFTER_FIELD_VALUE,
       RS_EXPECT_CRLF_AFTER_HEADERS, RS_EXPECT_END_OF_BODY}"

text \<open>The message stays without a body, or its body has ended, or there is an error.\<close>

definition rs_bodyless_step :: "response \<Rightarrow> bool" where
  "rs_bodyless_step r \<longleftrightarrow>
     rs_bodyless r \<and> symbol_convert (cur_code r) \<notin> {symbol_body_chunk, symbol_end_of_body} \<or>
     cur_code r = code_end_of_body \<or> resp_state r = RS_ERRORED \<and> final_error (cur_code r)"

lemma rs_switch_bodyless:
  assumes "rs_bodyless r" and "cur_code r = code_error_insufficient_data"
  shows "outcome_all rs_bodyless_step (rs_switch ieq r)"
  using assms unfolding rs_bodyless_def
  by (elim conjE insertE emptyE)
     (simp_all add: rs_switch_def rs_case_defs rs_token_def rs_fail_def Let_def rs_bodyless_step_def
       rs_bodyless_def split: liberal_crlf_result.split)

lemma rs_next_bodyless:
  assumes "rs_inv r" and "rs_bodyless r" and "rs_next ieq r = Inr r'"
  shows "rs_bodyless_step r'"
  using assms(1)
proof (cases rule: rs_next_cases [where ieq = ieq])
  case ready
  have bodyless: "rs_bodyless (consume r)" using assms(2) by (simp add: rs_bodyless_def)
  from ready(1) show ?thesis
  proof (cases rule: rs_next_ready_cases [where ieq = ieq])
    case (once r2)
    then show ?thesis
      using ready assms(3) rs_switch_bodyless [OF bodyless, of ieq] by simp
  next
    case (twice r1 r2)
    then have cc: "cur_code r1 = code_error_insufficient_data" by (simp add: rs_ready_def)
    then have "rs_bodyless r1"
      using twice(1) rs_switch_bodyless [OF bodyless, of ieq] by (simp add: rs_bodyless_step_def)
    from rs_switch_bodyless [OF this cc, of ieq] twice ready assms(3) show ?thesis by simp
  next
    case fault
    then show ?thesis using ready assms(3) by simp
  qed
next
  case starved
  have "rs_bodyless (consume r)" using assms(2) by (simp add: rs_bodyless_def)
  with starved assms(3) show ?thesis
    by (auto simp: rs_exhausted_def rs_bodyless_step_def rs_fail_def)
qed (use assms(2,3) in \<open>auto simp: rs_bodyless_def rs_bodyless_step_def\<close>)

lemma rs_call_bodyless:
  assumes "rs_inv r" and "rs_bodyless r" and "rs_allowed c r" and "rs_do_call ieq c r = Inr r'"
    and "c \<notin> range RS_call_set_method"
  shows "if rs_reads c r then rs_bodyless_step r' else rs_bodyless r'"
proof (cases c)
  case RS_call_next
  with assms show ?thesis using rs_next_bodyless [of r ieq r'] by simp
next
  case (RS_call_set_buffer buf)
  let ?r = "r\<lparr>ibuffer := buf, idx := 0\<rparr>"
  have "rs_inv ?r" using assms RS_call_set_buffer by (intro rs_rebuffer_inv) simp_all
  moreover have "rs_bodyless ?r" using assms(2) by (simp add: rs_bodyless_def)
  ultimately show ?thesis
    using assms(4) RS_call_set_buffer rs_next_bodyless [of ?r ieq r']
    by (auto simp: rs_set_buffer_def Let_def)
next
  case RS_call_puteof
  with assms show ?thesis by (auto simp: rs_puteof_def rs_bodyless_def)
qed (use assms in auto)

lemma rs_run_bodyless:
  assumes "rs_inv r" and "rs_bodyless r" and "keeps_contract (rs_do_call ieq) rs_allowed cs r"
    and "set cs \<inter> range RS_call_set_method = {}"
    and "run_calls (rs_do_call ieq) rs_reads cur_code cs r = Inr (xs, r')"
  shows "symbol_body_chunk \<notin> set (takeWhile (\<lambda>s. s \<noteq> symbol_end_of_body) xs)"
  using assms
proof (induction cs arbitrary: r xs)
  case (Cons c cs)
  then obtain r1 ys where r1: "rs_do_call ieq c r = Inr r1"
    and run: "run_calls (rs_do_call ieq) rs_reads cur_code cs r1 = Inr (ys, r')"
    and xs: "xs = (if rs_reads c r then report (cur_code r1) else []) @ ys"
    by (auto split: sum.splits prod.splits)
  have contract: "keeps_contract (rs_do_call ieq) rs_allowed cs r1" and allowed: "rs_allowed c r"
    using Cons.prems(3) r1 by auto
  have inv: "rs_inv r1" by (rule rs.call_inv [OF Cons.prems(1) allowed r1])
  have step: "if rs_reads c r then rs_bodyless_step r1 else rs_bodyless r1"
    using Cons.prems(1,2,4) allowed r1 by (intro rs_call_bodyless) auto
  have IH: "rs_bodyless r1 \<Longrightarrow> symbol_body_chunk \<notin> set (takeWhile (\<lambda>s. s \<noteq> symbol_end_of_body) ys)"
    using Cons.IH [OF inv _ contract _ run] Cons.prems(4) by auto
  show ?case
  proof (cases "rs_reads c r \<and> resp_state r1 = RS_ERRORED")
    case True
    then have "ys = []" using rs.run_path [OF inv contract run] by (simp add: rs_phase_def)
    with True step xs show ?thesis
      by (auto simp: rs_bodyless_step_def rs_bodyless_def report_def final_error_def)
  next
    case False
    with step xs IH show ?thesis
      by (auto simp: rs_bodyless_step_def report_def split: if_splits)
  qed
qed simp

section \<open>Codes of a response\<close>

definition request_only_codes :: "code set" where
  "request_only_codes = {code_error_no_host, code_method, code_request_target}"

lemma rs_switch_codes:
  assumes "cur_code r \<notin> request_only_codes"
  shows "outcome_all (\<lambda>r'. cur_code r' \<notin> request_only_codes) (rs_switch ieq r)"
  using assms
  by (cases "resp_state r") (simp_all add: rs_all_simps request_only_codes_def split: rs_goal_splits)

lemma rs_next_codes:
  "cur_code r \<notin> request_only_codes \<Longrightarrow> rs_next ieq r = Inr r' \<Longrightarrow> cur_code r' \<notin> request_only_codes"
proof (induction ieq r rule: rs_next.induct)
  case (1 ieq r)
  have "cur_code (consume r) \<notin> request_only_codes" by (simp add: request_only_codes_def)
  note switch = rs_switch_codes [OF this, of ieq]
  have exhausted: "cur_code (rs_exhausted (consume r)) \<notin> request_only_codes"
    by (simp add: rs_exhausted_def rs_fail_def request_only_codes_def)
  show ?case
  proof (cases "rs_switch ieq (consume r)")
    case (Tail_next r1)
    with switch have "cur_code r1 \<notin> request_only_codes" by simp
    with 1 Tail_next exhausted show ?thesis
      by (auto simp: rs_next.simps [of ieq r] request_only_codes_def Let_def rs_fail_def split: if_splits)
  qed (use 1 switch exhausted in \<open>auto simp: rs_next.simps [of ieq r] request_only_codes_def Let_def
        rs_fail_def split: if_splits\<close>)
qed

lemma rs_call_codes:
  assumes "cur_code r \<notin> request_only_codes" and "rs_do_call ieq c r = Inr r'"
  shows "cur_code r' \<notin> request_only_codes"
proof (cases c)
  case RS_call_next
  with assms show ?thesis using rs_next_codes [of r ieq r'] by simp
next
  case (RS_call_set_buffer buf)
  with assms show ?thesis
    using rs_next_codes [of "r\<lparr>ibuffer := buf, idx := 0\<rparr>" ieq r']
    by (auto simp: rs_set_buffer_def Let_def split: if_splits)
next
  case (RS_call_set_method meth)
  with assms(2) have "rs_set_method meth r = Inr r'" by simp
  then show ?thesis using assms(1) by (cases rule: rs_set_method_cases) auto
next
  case RS_call_puteof
  with assms show ?thesis by (auto simp: rs_puteof_def)
qed

lemma rs_run_codes:
  "cur_code r \<notin> request_only_codes \<Longrightarrow> run_calls (rs_do_call ieq) rs_reads cur_code cs r = Inr (xs, r') \<Longrightarrow>
   cur_code r' \<notin> request_only_codes"
proof (induction cs arbitrary: r xs)
  case (Cons c cs)
  then obtain r1 ys where r1: "rs_do_call ieq c r = Inr r1"
    and run: "run_calls (rs_do_call ieq) rs_reads cur_code cs r1 = Inr (ys, r')"
    by (auto split: sum.splits prod.splits)
  from Cons.IH [OF rs_call_codes [OF Cons.prems(1) r1] run] show ?case .
qed simp

end
