(* ===== verification/Response_Props.thy ===== *)
theory Response_Props
  imports Response_Body Syntax_Props
begin

text \<open>
  The properties of the response reader, for every behaviour \<open>ieq\<close> of the case-insensitive
  comparison the library calls. The concrete runs use an exact comparison.
\<close>

section \<open>A concrete client\<close>

abbreviation rs_exact :: iequals where
  "rs_exact \<equiv> (=)"

abbreviation rs_run :: "iequals \<Rightarrow> rs_call list \<Rightarrow> response \<Rightarrow> fault + (symbol list \<times> response)" where
  "rs_run ieq \<equiv> run_calls (rs_do_call ieq) rs_reads cur_code"

abbreviation rs_contract :: "iequals \<Rightarrow> rs_call list \<Rightarrow> response \<Rightarrow> bool" where
  "rs_contract ieq \<equiv> keeps_contract (rs_do_call ieq) rs_allowed"

definition sample_head :: octets where
  "sample_head = ''HTTP/1.1 200 OK'' @ [CHR 0x0D, CHR 0x0A]"

definition sample_response :: octets where
  "sample_response = sample_head @ ''Content-Length: 2'' @ [CHR 0x0D, CHR 0x0A, CHR 0x0D, CHR 0x0A] @ ''hi''"

definition response_calls :: "rs_call list" where
  "response_calls = RS_call_set_buffer sample_response # replicate 3 RS_call_next @
     RS_call_set_method ''GET'' # replicate 12 RS_call_next"

definition response_symbols :: "symbol list" where
  "response_symbols =
     [symbol_version, symbol_status_code, symbol_reason_phrase, symbol_field_name, symbol_field_value,
      symbol_end_of_headers, symbol_body_chunk, symbol_end_of_body, symbol_end_of_message]"

text \<open>A reader that has just given the version to its client.\<close>

definition sample_at_version :: response where
  "sample_at_version = \<lparr>body_size = 0, cur_code = code_version, idx = 7, token_size = 1,
     ibuffer = sample_response, connection_flags = 0, resp_body_type = RS_UNKNOWN_BODY,
     resp_state = RS_EXPECT_SP_AFTER_VERSION\<rparr>"

lemma sample_at_version_inv: "rs_inv sample_at_version"
  by (simp add: sample_at_version_def sample_response_def sample_head_def rs_inv_defs)

section \<open>Resuming, order, safety\<close>

text \<open>C5: the response reader is incremental in the same sense as the request reader: running
  out of data inside a token and continuing with a buffer that holds the unparsed octets and more
  is the same as having had the longer buffer at once.\<close>

theorem response_resume:
  assumes "rs_inv r" and "rs_next ieq r = Inr r1" and "cur_code r1 = code_error_insufficient_data"
  shows "rel_sum (=) rs_sim (rs_next ieq (r\<lparr>ibuffer := ibuffer r @ d\<rparr>))
           (rs_set_buffer ieq (rest r1 @ d) r1)"
  by (rule rs_next_resume [OF assms])

definition sample_split :: response where
  "sample_split = sample_at_version\<lparr>ibuffer := ''HTTP/1.1 20'', cur_code := code_skip, idx := 8,
     resp_state := RS_EXPECT_STATUS_CODE\<rparr>"

theorem response_resume_witness:
  "rs_inv sample_split \<and>
   (\<exists>r1. rs_next rs_exact sample_split = Inr r1 \<and> cur_code r1 = code_error_insufficient_data \<and>
     rel_sum (=) rs_sim (rs_next rs_exact (sample_split\<lparr>ibuffer := ''HTTP/1.1 204 ''\<rparr>))
       (rs_set_buffer rs_exact ''204 '' r1))"
proof -
  have inv: "rs_inv sample_split"
    by (simp add: sample_split_def sample_at_version_def rs_inv_defs)
  let ?r1 = "sample_split\<lparr>idx := 9, token_size := 0, cur_code := code_error_insufficient_data\<rparr>"
  have next_r: "rs_next rs_exact sample_split = Inr ?r1" by code_simp
  have "rest ?r1 = ''20''" and "ibuffer sample_split = ''HTTP/1.1 20''" by code_simp+
  with response_resume [OF inv next_r, of "''4 ''"] next_r inv
  show ?thesis by (intro conjI exI [of _ ?r1]) simp_all
qed

text \<open>C6: whatever calls of \<open>next()\<close>, \<open>set_buffer()\<close>, \<open>set_method()\<close> and
  \<open>puteof()\<close> a client makes within their contract on a new reader, the tokens it is given are
  those of whole responses, one after another, and then the beginning of another one, tokens that
  others complete to a response. Unless it has failed, the reader is at the point of the message
  these tokens lead to.\<close>

theorem response_messages:
  assumes "rs_contract ieq cs (rs_new n)" and "rs_run ieq cs (rs_new n) = Inr (xs, r)"
  shows "whole_messages status_line xs \<and>
    (resp_state r \<noteq> RS_ERRORED \<longrightarrow>
     (\<exists>q. rs_phase r = Some q \<and> grammar_path status_line (Start_line status_line) xs q))"
proof -
  have "rs_phase (rs_new n) = Some (Start_line status_line)" by (simp add: rs_phase_def rs_new_def)
  moreover have "rs_phase r = None \<longleftrightarrow> resp_state r = RS_ERRORED"
    by (cases "resp_state r") (simp_all add: rs_phase_def)
  ultimately show ?thesis using rs.run_messages [OF rs_new_inv _ assms] by auto
qed

theorem response_messages_witness:
  "rs_contract rs_exact response_calls (rs_new 0) \<and>
   map_sum id fst (rs_run rs_exact response_calls (rs_new 0)) = Inr response_symbols \<and>
   whole_messages status_line response_symbols"
proof -
  have contract: "rs_contract rs_exact response_calls (rs_new 0)" by code_simp
  have run: "map_sum id fst (rs_run rs_exact response_calls (rs_new 0)) = Inr response_symbols"
    by code_simp
  then obtain r where "rs_run rs_exact response_calls (rs_new 0) = Inr (response_symbols, r)"
    by (cases "rs_run rs_exact response_calls (rs_new 0)") auto
  from response_messages [OF contract this] contract run show ?thesis by simp
qed

lemma rs_call_fault:
  assumes "rs_inv r" and "rs_allowed c r" and "rs_do_call ieq c r = Inl f"
  shows "f = Out_of_bounds"
proof (cases c)
  case RS_call_next
  then show ?thesis using assms rs_next_fault_iff [of r ieq f] by simp
next
  case (RS_call_set_buffer buf)
  with assms show ?thesis
    using rs_rebuffer_inv [of r buf] rs_next_fault_iff [of "r\<lparr>ibuffer := buf, idx := 0\<rparr>" ieq f]
    by (auto simp: rs_set_buffer_def Let_def split: if_splits)
next
  case (RS_call_set_method meth)
  with assms rs_value_status_code_ok [of r] show ?thesis
    by (auto simp: rs_set_method_def Let_def split: if_splits)
qed (use assms in simp)

lemma rs_run_fault:
  "rs_inv r \<Longrightarrow> rs_contract ieq cs r \<Longrightarrow> rs_run ieq cs r = Inl f \<Longrightarrow> f = Out_of_bounds"
proof (induction cs arbitrary: r)
  case (Cons c cs)
  then show ?case
    using rs_call_fault [of r c ieq f] rs.call_inv [of r c ieq]
    by (auto split: sum.splits prod.splits)
qed simp

text \<open>C7: the invariant of the response reader holds after every sequence of calls within the
  contract: the current token lies in the buffer, \<open>body_type\<close> and \<open>body_size\<close> agree
  with the state, no chunked body is read for HTTP/1.0, a status code has three octets, and the
  reader is in its error state exactly when it reports an error other than the lack of data. No
  assertion fails and no statement marked unreachable is reached.\<close>

theorem response_invariant:
  assumes "rs_contract ieq cs (rs_new n)"
  shows "case rs_run ieq cs (rs_new n) of Inl f \<Rightarrow> f = Out_of_bounds | Inr (xs, r) \<Rightarrow> rs_inv r"
  using rs.run_inv [OF rs_new_inv assms] rs_run_fault [OF rs_new_inv assms]
  by (auto split: sum.split)

theorem response_invariant_witness:
  "rs_contract rs_exact response_calls (rs_new 0) \<and>
   (case rs_run rs_exact response_calls (rs_new 0) of
      Inl f \<Rightarrow> f = Out_of_bounds | Inr (xs, r) \<Rightarrow> rs_inv r)"
proof -
  have "rs_contract rs_exact response_calls (rs_new 0)" by code_simp
  with response_invariant [OF this] show ?thesis by blast
qed

text \<open>C8: the response reader, too, stays inside its buffer and its views except on an empty header
  value, where \<open>decode_field_value\<close> indexes outside of an empty view. C++ leaves that undefined, and
  it is the fault \<open>Out_of_bounds\<close> here; a comment in \<open>next()\<close> speaks of empty field values as
  tokens of size 0, which only address arithmetic that wraps around gives. Otherwise \<open>next()\<close>
  returns and keeps the invariant.\<close>

theorem response_fault_iff:
  assumes "rs_inv r"
  shows "if rs_empty_value r then rs_next ieq r = Inl Out_of_bounds
    else \<exists>r'. rs_next ieq r = Inr r' \<and> rs_inv r'"
proof (cases "rs_next ieq r")
  case (Inl f)
  with rs_next_fault_iff [OF assms, of ieq f] show ?thesis by auto
next
  case (Inr r')
  with rs_next_fault_iff [OF assms, of ieq Out_of_bounds] rs_next_inv [OF assms Inr] show ?thesis by auto
qed

definition response_at_colon :: response where
  "response_at_colon = \<lparr>body_size = 0, cur_code = code_skip, idx = 3, token_size = 1,
     ibuffer = ''Via:'' @ [CHR 0x0D, CHR 0x0A], connection_flags = 0,
     resp_body_type = RS_CONNECTION_DELIMITED, resp_state = RS_EXPECT_FIELD_VALUE\<rparr>"

theorem response_fault_iff_witness:
  "rs_inv response_at_colon \<and> rs_empty_value response_at_colon \<and>
   rs_next rs_exact response_at_colon = Inl Out_of_bounds"
proof -
  have inv: "rs_inv response_at_colon" by (simp add: response_at_colon_def rs_inv_defs)
  have "rs_empty_value response_at_colon" by code_simp
  with inv response_fault_iff [OF inv, of rs_exact] show ?thesis by simp
qed

section \<open>The client's loop\<close>

text \<open>C23: the client's loop ends on every buffer, also after the end of the connection.\<close>

theorem response_pull_ends:
  assumes "rs_inv r"
  shows "\<exists>es x. pull (rs_next ieq) cur_code view r = Some (es, x) \<and>
    length es \<le> 3 * length (ibuffer r) + 3 \<and>
    (\<forall>r'. x = Inr r' \<longrightarrow> rs_inv r' \<and> symbol_convert (cur_code r') = symbol_error)"
proof -
  have "rs_pending r \<le> 3 * length (ibuffer r) + 2"
    using rs_rank_le [of "resp_state r"] by (simp add: rs_pending_def)
  with rs.pull_ends [OF assms, of ieq view] show ?thesis by fastforce
qed

theorem response_pull_ends_witness:
  "rs_inv sample_at_version \<and>
   (\<exists>es x. pull (rs_next rs_exact) cur_code cur_code sample_at_version = Some (es, x) \<and>
     length es \<le> 3 * length (ibuffer sample_at_version) + 3)"
  using sample_at_version_inv response_pull_ends [OF sample_at_version_inv, of rs_exact cur_code] by blast

text \<open>C24: the tokens of a response, too, are consecutive parts of the buffer.\<close>

theorem response_pull_partition:
  assumes "rs_inv r" and "pull (rs_next ieq) cur_code token_prefix r = Some (es, Inr r')"
  shows "rest r = concat es @ rest r'"
  by (rule rs.pull_partition [OF assms])

definition response_eof :: response where
  "response_eof = rs_puteof \<lparr>body_size = 0, cur_code = code_end_of_headers, idx = 0, token_size = 2,
     ibuffer = [CHR 0x0D, CHR 0x0A] @ ''hi'', connection_flags = 0,
     resp_body_type = RS_FORCE_NO_BODY_AND_STOP, resp_state = RS_EXPECT_UNSAFE_BODY\<rparr>"

lemma response_eof_inv: "rs_inv response_eof"
  unfolding response_eof_def by (rule rs_puteof_inv) (simp add: rs_inv_defs)

theorem response_pull_partition_witness:
  "rs_inv response_eof \<and>
   (\<exists>r'. pull (rs_next rs_exact) cur_code token_prefix response_eof =
       Some ([[CHR 0x0D, CHR 0x0A], ''hi'', [], []], Inr r') \<and>
     rest response_eof = concat [[CHR 0x0D, CHR 0x0A], ''hi'', [], []] @ rest r')"
proof -
  have "map_option (apsnd (map_sum id cur_code)) (pull (rs_next rs_exact) cur_code token_prefix response_eof) =
      Some ([[CHR 0x0D, CHR 0x0A], ''hi'', [], []], Inr code_error_use_another_connection)"
    by code_simp
  then obtain r' where run: "pull (rs_next rs_exact) cur_code token_prefix response_eof =
      Some ([[CHR 0x0D, CHR 0x0A], ''hi'', [], []], Inr r')"
    by (auto simp: apsnd_def) (metis Inl_Inr_False map_sum.simps(1) obj_sumE)
  with response_eof_inv response_pull_partition [OF response_eof_inv run] show ?thesis by blast
qed

text \<open>C38: what \<open>expected_token()\<close> of the response reader is worth. The token \<open>next()\<close> reports,
  errors apart, is the announced one unless \<open>rs_instead\<close> gives another, and it is then that one: where
  the next octet shows that an optional element is absent, behind the size of the last chunk, where the
  end of the connection ends a body, and where the end of the line after all headers or trailers has
  been cut in two.\<close>

theorem response_expected_token:
  assumes "rs_inv r" and "rs_next ieq r = Inr r'" and "symbol_convert (cur_code r') \<noteq> symbol_error"
  shows "cur_code r' = (case rs_instead r of None \<Rightarrow> rs_expected_token r | Some c \<Rightarrow> c) \<and>
    (cur_code r' = rs_expected_token r \<longleftrightarrow> rs_instead r = None)"
  using rs_next_reports [OF assms] rs_instead_unexpected [of r]
  by (auto simp: rs_reports_def split: option.split)

theorem response_expected_token_witness:
  "\<exists>r1 r2. rs_next rs_exact response_eof = Inr r1 \<and> cur_code r1 = rs_expected_token response_eof \<and>
     rs_next rs_exact r1 = Inr r2 \<and> rs_instead r1 = Some code_end_of_body \<and> cur_code r2 = code_end_of_body"
proof -
  let ?r1 = "response_eof\<lparr>idx := 2, token_size := 2, cur_code := code_body_chunk\<rparr>"
  let ?r2 = "response_eof\<lparr>idx := 4, token_size := 0, cur_code := code_end_of_body,
    resp_state := RS_EXPECT_END_OF_MESSAGE\<rparr>"
  have run: "rs_next rs_exact response_eof = Inr ?r1" "rs_next rs_exact ?r1 = Inr ?r2" by code_simp+
  have inv: "rs_inv ?r1" by (rule rs_next_inv [OF response_eof_inv run(1)])
  have "rs_instead response_eof = None" "rs_instead ?r1 = Some code_end_of_body" by code_simp+
  with response_expected_token [OF response_eof_inv run(1)] response_expected_token [OF inv run(2)] run
  show ?thesis by (intro exI [of _ ?r1] exI [of _ ?r2]) simp
qed

section \<open>Bodies\<close>

text \<open>What \<open>set_method\<close> decides, in numbers.\<close>

definition no_body_message :: "octets \<Rightarrow> nat \<Rightarrow> bool" where
  "no_body_message meth status \<longleftrightarrow>
     status div 100 = 1 \<or> status = 204 \<or> status = 304 \<or> meth = ''HEAD'' \<or>
     (status div 100 = 2 \<and> meth = ''CONNECT'')"

lemma rs_set_method_bodyless:
  assumes "rs_inv r" and "cur_code r = code_status_code" and "rs_value_status_code r = Inr status"
    and "no_body_message meth (unat status)"
  shows "\<exists>r1. rs_set_method meth r = Inr r1 \<and> rs_bodyless r1"
proof -
  have "resp_state r = RS_EXPECT_SP_AFTER_STATUS_CODE" using assms(1,2) by (simp add: rs_inv_def)
  moreover have "unat (status div 100) = unat status div 100" by (simp add: unat_div)
  then have "status div 100 = 1 \<longleftrightarrow> unat status div 100 = 1" "status div 100 = 2 \<longleftrightarrow> unat status div 100 = 2"
    by (simp_all add: word_unat_eq_iff)
  moreover have "status = 204 \<longleftrightarrow> unat status = 204" "status = 304 \<longleftrightarrow> unat status = 304"
    by (auto simp: word_unat_eq_iff)
  ultimately show ?thesis
    using assms by (auto simp: no_body_message_def rs_set_method_def Let_def rs_bodyless_def)
qed

text \<open>C25: a response to \<open>HEAD\<close>, one with a status code of class 1xx, 204 or 304, and a 2xx
  response to \<open>CONNECT\<close> have no body, whatever their header fields say: after
  \<open>set_method\<close>, which then succeeds, no sequence of calls gives the client a chunk of a body
  before the end of the body is reported.\<close>

theorem response_without_body:
  assumes "rs_inv r" and "cur_code r = code_status_code" and "rs_value_status_code r = Inr status"
    and "no_body_message meth (unat status)"
  shows "\<exists>r1. rs_set_method meth r = Inr r1 \<and>
    (\<forall>cs xs r2. rs_contract ieq cs r1 \<longrightarrow> set cs \<inter> range RS_call_set_method = {} \<longrightarrow>
       rs_run ieq cs r1 = Inr (xs, r2) \<longrightarrow>
       symbol_body_chunk \<notin> set (takeWhile (\<lambda>s. s \<noteq> symbol_end_of_body) xs))"
proof -
  obtain r1 where r1: "rs_set_method meth r = Inr r1" "rs_bodyless r1"
    using rs_set_method_bodyless [OF assms] by blast
  with rs_run_bodyless [OF rs_set_method_inv [OF assms(1) r1(1)] r1(2), of ieq] show ?thesis by blast
qed

definition sample_at_status :: response where
  "sample_at_status = \<lparr>body_size = 0, cur_code = code_status_code, idx = 9, token_size = 3,
     ibuffer = sample_response, connection_flags = 0, resp_body_type = RS_UNKNOWN_BODY,
     resp_state = RS_EXPECT_SP_AFTER_STATUS_CODE\<rparr>"

lemma sample_at_status_inv: "rs_inv sample_at_status"
  by (simp add: sample_at_status_def sample_response_def sample_head_def rs_inv_defs)

theorem response_without_body_witness:
  "rs_inv sample_at_status \<and> rs_value_status_code sample_at_status = Inr 200 \<and> no_body_message ''HEAD'' 200 \<and>
   (\<exists>r1 xs r2. rs_set_method ''HEAD'' sample_at_status = Inr r1 \<and>
     rs_run rs_exact (replicate 9 RS_call_next) r1 = Inr (xs, r2) \<and>
     xs = [symbol_reason_phrase, symbol_field_name, symbol_field_value, symbol_end_of_headers,
       symbol_end_of_body] \<and>
     symbol_body_chunk \<notin> set (takeWhile (\<lambda>s. s \<noteq> symbol_end_of_body) xs))"
proof -
  let ?r1 = "sample_at_status\<lparr>resp_body_type := RS_FORCE_NO_BODY, body_size := 0\<rparr>"
  let ?cs = "replicate 9 RS_call_next"
  let ?xs = "[symbol_reason_phrase, symbol_field_name, symbol_field_value, symbol_end_of_headers,
       symbol_end_of_body]"
  have code: "cur_code sample_at_status = code_status_code" by (simp add: sample_at_status_def)
  have status: "rs_value_status_code sample_at_status = Inr 200"
    by (simp add: rs_value_status_code_def sample_at_status_def sample_response_def sample_head_def
        status_code_decode_def)
  have head: "no_body_message ''HEAD'' 200" by (simp add: no_body_message_def)
  have r1: "rs_set_method ''HEAD'' sample_at_status = Inr ?r1"
    using code status by (simp add: rs_set_method_def)
  have "map_sum id fst (rs_run rs_exact ?cs ?r1) = Inr ?xs" by code_simp
  then obtain r2 where run: "rs_run rs_exact ?cs ?r1 = Inr (?xs, r2)"
    by (cases "rs_run rs_exact ?cs ?r1") auto
  have "rs_contract rs_exact ?cs ?r1" by code_simp
  moreover have "set ?cs \<inter> range RS_call_set_method = {}" by auto
  moreover have "no_body_message ''HEAD'' (unat (200 :: 16 word))" using head by simp
  from response_without_body [OF sample_at_status_inv code status this, of rs_exact] r1
  have "\<forall>cs xs r2. rs_contract rs_exact cs ?r1 \<longrightarrow> set cs \<inter> range RS_call_set_method = {} \<longrightarrow>
       rs_run rs_exact cs ?r1 = Inr (xs, r2) \<longrightarrow>
       symbol_body_chunk \<notin> set (takeWhile (\<lambda>s. s \<noteq> symbol_end_of_body) xs)" by auto
  ultimately have "symbol_body_chunk \<notin> set (takeWhile (\<lambda>s. s \<noteq> symbol_end_of_body) ?xs)"
    using run by blast
  with sample_at_status_inv status head r1 run show ?thesis by blast
qed

text \<open>C26: a body delimited by the end of the connection is closed by it: with the buffer
  exhausted and \<open>puteof()\<close> called, \<open>next()\<close> reports the end of the body, then the end of
  the message, then that another connection is needed, without consuming anything.\<close>

theorem response_end_of_connection:
  assumes "rs_inv r" and "resp_state r = RS_EXPECT_UNSAFE_BODY" and "rest (consume r) = []"
  shows "\<exists>r1 r2 r3. rs_next ieq (rs_puteof r) = Inr r1 \<and> cur_code r1 = code_end_of_body \<and>
    rs_next ieq r1 = Inr r2 \<and> cur_code r2 = code_end_of_message \<and>
    rs_next ieq r2 = Inr r3 \<and> cur_code r3 = code_error_use_another_connection \<and>
    token_size r1 = 0 \<and> token_size r2 = 0"
proof -
  let ?r = "consume (rs_puteof r)"
  have flag: "has_flag EOF_RECEIVED ?r" by simp
  have st: "resp_state ?r = RS_EXPECT_UNSAFE_BODY" using assms(2) by (simp add: rs_puteof_def)
  have bt: "resp_body_type ?r = RS_FORCE_NO_BODY_AND_STOP"
    using assms(1,2) by (simp add: rs_inv_def rs_framing_def) (simp add: rs_puteof_def)
  have "idx (consume r) = length (ibuffer r)"
    using assms consume_idx_le [of r] by (simp add: rs_inv_def in_range_def rest_def)
  then have "idx ?r = length (ibuffer ?r)"
    by (auto simp: rs_puteof_def consume_def split: if_splits)
  with st have "rs_next ieq (rs_puteof r) = Inr (rs_exhausted ?r)"
    by (simp add: rs_next.simps [of ieq "rs_puteof r"])
  moreover have "rs_exhausted ?r =
      ?r\<lparr>resp_state := RS_EXPECT_END_OF_MESSAGE, cur_code := code_end_of_body, token_size := 0\<rparr>"
    using flag st bt by (simp add: rs_exhausted_def)
  ultimately show ?thesis
    using bt by (simp add: rs_next.simps rs_fail_def)
qed

theorem response_end_of_connection_witness:
  "rs_inv response_eof \<and> (\<exists>r. rs_next rs_exact response_eof = Inr r \<and> rs_inv r \<and>
     resp_state r = RS_EXPECT_UNSAFE_BODY \<and> rest (consume r) = [] \<and>
     (\<exists>r1 r2 r3. rs_next rs_exact (rs_puteof r) = Inr r1 \<and> cur_code r1 = code_end_of_body \<and>
        rs_next rs_exact r1 = Inr r2 \<and> cur_code r2 = code_end_of_message \<and>
        rs_next rs_exact r2 = Inr r3 \<and> cur_code r3 = code_error_use_another_connection))"
proof -
  let ?r = "response_eof\<lparr>idx := 2, token_size := 2, cur_code := code_body_chunk\<rparr>"
  have run: "rs_next rs_exact response_eof = Inr ?r" by code_simp
  have inv: "rs_inv ?r" by (rule rs_next_inv [OF response_eof_inv run])
  have st: "resp_state ?r = RS_EXPECT_UNSAFE_BODY" "rest (consume ?r) = []" by code_simp+
  with response_end_of_connection [OF inv st, of rs_exact] inv run response_eof_inv show ?thesis
    by blast
qed

text \<open>C35: a response reader never reports the codes of requests: no method, no request target,
  no missing host.\<close>

theorem response_codes:
  assumes "rs_run ieq cs (rs_new n) = Inr (xs, r)"
  shows "cur_code r \<notin> {code_error_no_host, code_method, code_request_target}"
proof -
  have "cur_code (rs_new n) \<notin> request_only_codes" by (simp add: rs_new_def request_only_codes_def)
  from rs_run_codes [OF this assms] show ?thesis unfolding request_only_codes_def .
qed

theorem response_codes_witness:
  "\<exists>xs r. rs_run rs_exact response_calls (rs_new 0) = Inr (xs, r) \<and>
     cur_code r \<notin> {code_error_no_host, code_method, code_request_target}"
proof -
  have "map_sum id fst (rs_run rs_exact response_calls (rs_new 0)) = Inr response_symbols"
    by code_simp
  then obtain r where "rs_run rs_exact response_calls (rs_new 0) = Inr (response_symbols, r)"
    by (cases "rs_run rs_exact response_calls (rs_new 0)") auto
  with response_codes [OF this] show ?thesis by blast
qed

end
