(* ===== verification/Message_Stream.thy ===== *)
theory Message_Stream
  imports Reader_Interface
begin

text \<open>
  Messages as a sender writes them, and what it means that a reader gives their tokens back.

  A message is rendered from its parts: a start line, header fields, a body with or without
  chunks, trailers. \<open>gives nxt r ts r'\<close> says that the calls of \<open>next()\<close> on \<open>r\<close>
  report the tokens \<open>ts\<close>, codes with their octets, and end in \<open>r'\<close>;
  \<open>yields nxt P s ts Q s'\<close> is the triple over it: from every reader that satisfies \<open>P\<close>
  and has the octets \<open>s\<close> ahead, the tokens are \<open>ts\<close>, and then \<open>Q\<close> holds with
  \<open>s'\<close> ahead. The locales \<open>field_section\<close> and \<open>chunked_body\<close> hold the
  triples of the single tokens of these parts and derive those of whole sections; both readers
  interpret them.
\<close>

section \<open>Rendering\<close>

abbreviation CRLF :: octets where
  "CRLF \<equiv> [CHR 0x0D, CHR 0x0A]"

type_synonym token = "code \<times> octets"

text \<open>A field line: the white space before the value and behind it is not part of the value.\<close>

record header_field =
  hf_name :: octets
  hf_ows :: octets
  hf_value :: octets
  hf_trail :: octets

definition wf_field :: "header_field \<Rightarrow> bool" where
  "wf_field f \<longleftrightarrow>
     hf_name f \<noteq> [] \<and> list_all is_tchar (hf_name f) \<and> list_all is_ows (hf_ows f) \<and>
     hf_value f \<noteq> [] \<and> list_all is_field_value_char (hf_value f) \<and>
     \<not> is_ows (hd (hf_value f)) \<and> \<not> is_ows (last (hf_value f)) \<and> list_all is_ows (hf_trail f)"

definition render_field :: "header_field \<Rightarrow> octets" where
  "render_field f = hf_name f @ CHR '':'' # hf_ows f @ hf_value f @ hf_trail f @ CRLF"

definition field_tokens :: "code \<Rightarrow> code \<Rightarrow> header_field \<Rightarrow> token list" where
  "field_tokens cn cv f =
     [(cn, hf_name f), (code_skip, CHR '':'' # hf_ows f), (cv, hf_value f @ hf_trail f),
      (code_skip, CRLF)]"

abbreviation render_fields :: "header_field list \<Rightarrow> octets" where
  "render_fields fs \<equiv> concat (map render_field fs)"

abbreviation fields_tokens :: "code \<Rightarrow> code \<Rightarrow> header_field list \<Rightarrow> token list" where
  "fields_tokens cn cv fs \<equiv> concat (map (field_tokens cn cv) fs)"

text \<open>A chunk: its size as it is written, its extension, its data.\<close>

record chunk =
  ck_size :: octets
  ck_ext :: octets
  ck_data :: octets

definition wf_chunk :: "chunk \<Rightarrow> bool" where
  "wf_chunk c \<longleftrightarrow>
     hexadecimal_value (ck_size c) = Some (length (ck_data c)) \<and> length (ck_data c) < 2 ^ 64 \<and>
     list_all is_chunk_ext_char (ck_ext c) \<and> (ck_ext c = [] \<or> \<not> is_hexdigit (hd (ck_ext c)))"

definition render_chunk_line :: "chunk \<Rightarrow> octets" where
  "render_chunk_line c = ck_size c @ ck_ext c @ CRLF"

definition render_chunk :: "chunk \<Rightarrow> octets" where
  "render_chunk c = render_chunk_line c @ ck_data c @ CRLF"

definition chunk_line_tokens :: "code \<Rightarrow> chunk \<Rightarrow> token list" where
  "chunk_line_tokens c_end c =
     [(code_skip, ck_size c)] @ (if ck_ext c = [] then [] else [(code_chunk_ext, ck_ext c)]) @
     [(c_end, CRLF)]"

definition chunk_tokens :: "chunk \<Rightarrow> token list" where
  "chunk_tokens c =
     chunk_line_tokens code_skip c @ [(code_body_chunk, ck_data c), (code_skip, CRLF)]"

text \<open>The three kinds of framing: no body, a body of a given length, and chunks up to one of
  size zero with trailers behind it.\<close>

datatype body =
    No_body
  | Sized octets
  | Chunked "chunk list" chunk "header_field list"

fun wf_body :: "body \<Rightarrow> bool" where
  "wf_body No_body = True"
| "wf_body (Sized b) = (length b < 2 ^ 64)"
| "wf_body (Chunked cs l ts) =
     (list_all (\<lambda>c. wf_chunk c \<and> ck_data c \<noteq> []) cs \<and> wf_chunk l \<and> ck_data l = [] \<and>
      list_all wf_field ts)"

fun render_body :: "body \<Rightarrow> octets" where
  "render_body No_body = []"
| "render_body (Sized b) = b"
| "render_body (Chunked cs l ts) =
     concat (map render_chunk cs) @ render_chunk_line l @ render_fields ts @ CRLF"

fun body_tokens :: "body \<Rightarrow> token list" where
  "body_tokens No_body = [(code_end_of_body, []), (code_end_of_message, [])]"
| "body_tokens (Sized b) =
     (if b = [] then [] else [(code_body_chunk, b)]) @
     [(code_end_of_body, []), (code_end_of_message, [])]"
| "body_tokens (Chunked cs l ts) =
     concat (map chunk_tokens cs) @ chunk_line_tokens code_end_of_body l @
     fields_tokens code_trailer_name code_trailer_value ts @ [(code_end_of_message, CRLF)]"

text \<open>The octets a body stands for.\<close>

fun body_octets :: "body \<Rightarrow> octets" where
  "body_octets No_body = []"
| "body_octets (Sized b) = b"
| "body_octets (Chunked cs l ts) = concat (map ck_data cs)"

fun body_trailers :: "body \<Rightarrow> header_field list" where
  "body_trailers (Chunked cs l ts) = ts"
| "body_trailers _ = []"

text \<open>The fields that matter for the framing of a message, and when a header section announces a
  body: no field does, one length does, or one list of codings that ends with chunked.\<close>

datatype field_kind = Host_field | Coding_field | Length_field | Other_field

definition values_of :: "(octets \<Rightarrow> field_kind) \<Rightarrow> field_kind \<Rightarrow> header_field list \<Rightarrow> octets list" where
  "values_of kind k hs = map hf_value (filter (\<lambda>h. kind (hf_name h) = k) hs)"

fun framed_as :: "iequals \<Rightarrow> (octets \<Rightarrow> field_kind) \<Rightarrow> header_field list \<Rightarrow> body \<Rightarrow> bool" where
  "framed_as ieq kind hs No_body =
     (values_of kind Coding_field hs = [] \<and> values_of kind Length_field hs = [])"
| "framed_as ieq kind hs (Sized b) =
     (values_of kind Coding_field hs = [] \<and>
      (case values_of kind Length_field hs of
         [v] \<Rightarrow> decimal_value v = Some (length b) | _ \<Rightarrow> False))"
| "framed_as ieq kind hs (Chunked cs l ts) =
     (values_of kind Length_field hs = [] \<and>
      (case values_of kind Coding_field hs of
         [v] \<Rightarrow> chunked_role (map (\<lambda>e. ieq e ''chunked'') (list_elements v)) = CHUNKED_AT_END
       | _ \<Rightarrow> False))"

section \<open>Tokens of a reader\<close>

text \<open>What a client sees of a token.\<close>

definition seen :: "'x reader_data_scheme \<Rightarrow> token" where
  "seen r = (cur_code r, token_prefix r)"

fun gives ::
  "('x reader_data_scheme \<Rightarrow> fault + 'x reader_data_scheme) \<Rightarrow> 'x reader_data_scheme \<Rightarrow> token list \<Rightarrow>
   'x reader_data_scheme \<Rightarrow> bool" where
  "gives nxt r [] r' = (r' = r)"
| "gives nxt r (t # ts) r' =
     (\<exists>r1. nxt r = Inr r1 \<and> (cur_code r1, token_prefix r1) = t \<and> gives nxt r1 ts r')"

lemma gives_append:
  "gives nxt r (ts @ us) r' \<longleftrightarrow> (\<exists>r1. gives nxt r ts r1 \<and> gives nxt r1 us r')"
  by (induction ts arbitrary: r) auto

lemma gives_last: "gives nxt r ts r' \<Longrightarrow> ts \<noteq> [] \<Longrightarrow> (cur_code r', token_prefix r') = last ts"
  by (induction ts arbitrary: r) auto

text \<open>At the boundary of a token, with the octets \<open>s\<close> ahead.\<close>

definition ahead :: "'x reader_data_scheme \<Rightarrow> octets \<Rightarrow> bool" where
  "ahead r s \<longleftrightarrow>
     in_range r \<and> drop (token_size r) (rest r) = s \<and> \<not> final_error (cur_code r) \<and>
     (cur_code r = code_error_insufficient_data \<longrightarrow> token_size r = 0)"

definition yields ::
  "('x reader_data_scheme \<Rightarrow> fault + 'x reader_data_scheme) \<Rightarrow> ('x reader_data_scheme \<Rightarrow> bool) \<Rightarrow> octets \<Rightarrow>
   token list \<Rightarrow> ('x reader_data_scheme \<Rightarrow> bool) \<Rightarrow> octets \<Rightarrow> bool" where
  "yields nxt P s ts Q s' \<longleftrightarrow>
     (\<forall>r. P r \<longrightarrow> ahead r s \<longrightarrow> (\<exists>r'. gives nxt r ts r' \<and> Q r' \<and> ahead r' s'))"

lemma yieldsD:
  "yields nxt P s ts Q s' \<Longrightarrow> P r \<Longrightarrow> ahead r s \<Longrightarrow> \<exists>r'. gives nxt r ts r' \<and> Q r' \<and> ahead r' s'"
  by (simp add: yields_def)

lemma yields_Nil: "yields nxt P s [] P s"
  by (simp add: yields_def)

lemma yields_trans [trans]:
  "yields nxt P s ts Q s' \<Longrightarrow> yields nxt Q s' us R s'' \<Longrightarrow> yields nxt P s (ts @ us) R s''"
  by (force simp: yields_def gives_append)

lemma yields_trans_Cons:
  "yields nxt P s [t] Q s' \<Longrightarrow> yields nxt Q s' us R s'' \<Longrightarrow> yields nxt P s (t # us) R s''"
  using yields_trans [of nxt P s "[t]" Q s' us R s''] by simp

lemma yields_conseq:
  "yields nxt P s ts Q s' \<Longrightarrow> (\<And>r. P' r \<Longrightarrow> P r) \<Longrightarrow> (\<And>r. Q r \<Longrightarrow> Q' r) \<Longrightarrow> yields nxt P' s ts Q' s'"
  unfolding yields_def by blast

text \<open>One call of \<open>next()\<close>.\<close>

lemma yields_one:
  assumes "\<And>r. P r \<Longrightarrow> ahead r s \<Longrightarrow>
    \<exists>r'. nxt r = Inr r' \<and> cur_code r' = c \<and> token_prefix r' = t \<and> Q r' \<and> ahead r' s'"
  shows "yields nxt P s [(c, t)] Q s'"
  using assms by (fastforce simp: yields_def)

text \<open>Repeating a part.\<close>

lemma yields_concat:
  assumes "\<And>x s. x \<in> set xs \<Longrightarrow> yields nxt P (render x @ s) (toks x) P s"
  shows "yields nxt P (concat (map render xs) @ s) (concat (map toks xs)) P s"
  using assms
proof (induction xs)
  case Nil
  then show ?case by (simp add: yields_Nil)
next
  case (Cons x xs)
  have "yields nxt P (render x @ concat (map render xs) @ s) (toks x) P (concat (map render xs) @ s)"
    by (rule Cons.prems) simp
  then show ?case using Cons by (auto intro!: yields_trans)
qed

text \<open>A loop that pulls the tokens sees exactly those a reader gives.\<close>

lemma pull_gives:
  assumes "gives nxt r ts r'" and "ts \<noteq> []" and "\<forall>t \<in> set ts. symbol_convert (fst t) \<noteq> symbol_error"
    and "nxt r = Inr r0" and "nxt r' = Inr r''" and "symbol_convert (cur_code r'') = symbol_error"
  shows "pull nxt cur_code (\<lambda>r. (cur_code r, token_prefix r)) r0 = Some (ts, Inr r'')"
  using assms(1-4)
proof (induction ts arbitrary: r r0)
  case (Cons t ts)
  then have t: "(cur_code r0, token_prefix r0) = t" "gives nxt r0 ts r'"
    and no_err: "symbol_convert (cur_code r0) \<noteq> symbol_error" by auto
  show ?case
  proof (cases ts)
    case Nil
    with t no_err assms(5,6) show ?thesis
      by (simp add: pull.simps [of nxt cur_code _ r0] pull.simps [of nxt cur_code _ r''])
  next
    case (Cons u us)
    with t obtain r1 where r1: "nxt r0 = Inr r1" by auto
    with Cons.IH [OF t(2)] Cons.prems Cons have
      "pull nxt cur_code (\<lambda>r. (cur_code r, token_prefix r)) r1 = Some (ts, Inr r'')" by simp
    with t no_err r1 show ?thesis by (simp add: pull.simps [of nxt cur_code _ r0])
  qed
qed simp

lemma body_tokens_no_error: "t \<in> set (body_tokens b) \<Longrightarrow> symbol_convert (fst t) \<noteq> symbol_error"
  by (cases b) (auto simp: field_tokens_def chunk_tokens_def chunk_line_tokens_def split: if_splits)

lemma fields_tokens_no_error:
  "t \<in> set (fields_tokens code_field_name code_field_value hs) \<Longrightarrow> symbol_convert (fst t) \<noteq> symbol_error"
  by (auto simp: field_tokens_def)

section \<open>Inside next()\<close>

text \<open>The reader inside \<open>next()\<close>, at its \<open>switch\<close>, with the octets \<open>s\<close> ahead.\<close>

definition idle :: "octets \<Rightarrow> 'x reader_data_scheme \<Rightarrow> bool" where
  "idle s r \<longleftrightarrow> in_range r \<and> rest r = s \<and> token_size r = 0 \<and>
     cur_code r = code_error_insufficient_data"

lemma idle_consume: "ahead r s \<Longrightarrow> idle s (consume r)"
  using rest_consume [of r] by (auto simp: ahead_def idle_def in_range_def consume_def)

lemma idle_token_prefix: "idle s r \<Longrightarrow> token_prefix r = []"
  by (simp add: idle_def token_prefix_def)

text \<open>Reading at the current index.\<close>

lemma idle_byte:
  assumes "idle (x # s) r"
  shows "byte_at (ibuffer r) (idx r) = Inr x"
    and "scan_from p (ibuffer r) (Suc (idx r)) = Inr (Suc (idx r) + match_loop p s)"
    and "length (ibuffer r) = Suc (idx r) + length s"
proof -
  have rest: "drop (idx r) (ibuffer r) = x # s" using assms by (simp add: idle_def rest_def)
  then have len: "idx r < length (ibuffer r)" by (metis drop_eq_Nil2 leI list.distinct(1))
  have "ibuffer r ! idx r = x" using rest len by (metis hd_drop_conv_nth list.sel(1))
  then show "byte_at (ibuffer r) (idx r) = Inr x" using len by simp
  have "drop (Suc (idx r)) (ibuffer r) = s" using rest by (metis drop_Suc list.sel(3) tl_drop)
  then show "scan_from p (ibuffer r) (Suc (idx r)) = Inr (Suc (idx r) + match_loop p s)"
    using len by (simp add: scan_from_ok)
  show "length (ibuffer r) = Suc (idx r) + length s"
    using arg_cong [OF rest, of length] len by simp
qed

lemma idle_view:
  assumes "idle (t @ u) r" and "idx r' = idx r" and "ibuffer r' = ibuffer r" and "token_size r' = length t"
  shows "token_view r' = Inr t"
proof -
  have rest: "drop (idx r) (ibuffer r) = t @ u" and range: "idx r \<le> length (ibuffer r)"
    using assms(1) by (simp_all add: idle_def rest_def in_range_def)
  have "length (ibuffer r) - idx r = length t + length u"
    unfolding length_drop [symmetric] rest by simp
  with range have "idx r + length t \<le> length (ibuffer r)" by linarith
  with rest assms show ?thesis by (simp add: token_view_def)
qed

section \<open>Decoding what was rendered\<close>

lemma liberal_crlf_CRLF [simp]: "liberal_crlf_match (CHR 0x0D # CHR 0x0A # s) = crlf_crlf"
  by (simp add: liberal_crlf_match_def)

lemma strict_crlf_CRLF [simp]: "strict_crlf_match (CHR 0x0D # CHR 0x0A # s) = 2"
  by (simp add: strict_crlf_match_def)

lemma CR_not_chunk_ext [simp]: "\<not> is_chunk_ext_char (CHR 0x0D)"
  by (simp add: class_defs)


lemma match_delimited: "list_all p t \<Longrightarrow> \<not> p c \<Longrightarrow> match_loop p (t @ c # s) = length t"
  by (simp add: match_loop_append list_all_iff)

lemma content_length_decode_u64:
  assumes "decimal_value s = Some n" and "n < 2 ^ 64"
  shows "content_length_decode s (out :: u64) = (decode_ok, of_nat n)"
proof -
  have "s \<noteq> []" using assms(1) by (auto simp: decimal_value_def)
  with assms decimal.decode_correct [of s] show ?thesis
    by (simp add: content_length_decode_def decimal_value_def)
qed

lemma chunk_size_decode_u64:
  assumes "hexadecimal_value s = Some n" and "n < 2 ^ 64"
  shows "chunk_size_decode s (out :: u64) = (decode_ok, of_nat n)"
proof -
  have "s \<noteq> []" using assms(1) by (auto simp: hexadecimal_value_def)
  with assms hexadecimal.decode_correct [of s] show ?thesis
    by (simp add: chunk_size_decode_def hexadecimal_value_def)
qed

lemma hexadecimal_value_digits:
  "hexadecimal_value s = Some n \<Longrightarrow> s \<noteq> [] \<and> list_all is_hexdigit s"
  by (simp add: hexadecimal_value_def numeral_value_little chunk_size_digit_iff list_all_iff
      del: not_None_eq split: if_splits)

lemma decode_transfer_encoding_role:
  "decode_transfer_encoding ieq v = chunked_role (map (\<lambda>e. ieq e ''chunked'') (list_elements v))"
  using visit_transfer_encoding [of 0 ieq "list_elements v"]
  by (simp add: decode_transfer_encoding_def header_value_any_of_elements te_initial_def)

text \<open>\<open>decode_field_value\<close> removes the white space behind a value.\<close>

lemma decode_field_value_trail:
  assumes "v \<noteq> []" and "\<not> is_ows (last v)" and "list_all is_ows w"
  shows "decode_field_value (v @ w) = Inr v"
proof -
  obtain u c where v: "v = u @ [c]" using assms(1) by (metis rev_exhaust)
  have "match_loop is_ows (rev (tl (v @ w))) = length w"
  proof (cases u)
    case Nil
    with v assms(3) match_loop_full [of is_ows "rev w"] show ?thesis by (simp add: list_all_iff)
  next
    case (Cons a u')
    with v assms match_delimited [of is_ows "rev w" c "rev u'"] show ?thesis by simp
  qed
  with assms(1) show ?thesis by (simp add: decode_field_value_def)
qed

section \<open>Sections of a message\<close>

text \<open>
  A section of field lines, headers or trailers. \<open>named\<close> and \<open>valued\<close> say what a name
  and a value do to the framing data, \<open>None\<close> where the reader refuses them.
\<close>

fun section_effect ::
  "(octets \<Rightarrow> 'f \<Rightarrow> 'f option) \<Rightarrow> (octets \<Rightarrow> 'f \<Rightarrow> 'f option) \<Rightarrow> header_field list \<Rightarrow> 'f \<Rightarrow> 'f option" where
  "section_effect named valued [] f = Some f"
| "section_effect named valued (h # hs) f =
     Option.bind (named (hf_name h) f) (\<lambda>f1.
       Option.bind (valued (hf_value h) f1) (section_effect named valued hs))"

lemma section_effect_unit: "section_effect (\<lambda>_. Some) (\<lambda>_. Some) hs f = Some f"
  by (induction hs) simp_all

locale field_section =
  fixes nxt :: "'x reader_data_scheme \<Rightarrow> fault + 'x reader_data_scheme"
    and at_name at_colon at_value at_end :: "'f \<Rightarrow> 'x reader_data_scheme \<Rightarrow> bool"
    and named valued :: "octets \<Rightarrow> 'f \<Rightarrow> 'f option"
    and cn cv :: code
  assumes name: "n \<noteq> [] \<Longrightarrow> list_all is_tchar n \<Longrightarrow> named n f = Some f' \<Longrightarrow>
      yields nxt (at_name f) (n @ CHR '':'' # s) [(cn, n)] (at_colon f') (CHR '':'' # s)"
    and colon: "list_all is_ows w \<Longrightarrow> \<not> is_ows c \<Longrightarrow>
      yields nxt (at_colon f) (CHR '':'' # w @ c # s) [(code_skip, CHR '':'' # w)] (at_value f) (c # s)"
    and content: "v \<noteq> [] \<Longrightarrow> list_all is_field_value_char v \<Longrightarrow> \<not> is_ows (hd v) \<Longrightarrow> \<not> is_ows (last v) \<Longrightarrow>
      list_all is_ows w \<Longrightarrow> valued v f = Some f' \<Longrightarrow>
      yields nxt (at_value f) (v @ w @ CRLF @ s) [(cv, v @ w)] (at_end f') (CRLF @ s)"
    and line_end: "yields nxt (at_end f) (CRLF @ s) [(code_skip, CRLF)] (at_name f) s"
begin

lemma one_field:
  assumes "wf_field h" and "named (hf_name h) f = Some f1" and "valued (hf_value h) f1 = Some f2"
  shows "yields nxt (at_name f) (render_field h @ s) (field_tokens cn cv h) (at_name f2) s"
proof -
  obtain c v where v: "hf_value h = c # v" "\<not> is_ows c"
    using assms(1) by (cases "hf_value h") (auto simp: wf_field_def)
  note wf = assms(1) [unfolded wf_field_def]
  have "yields nxt (at_colon f1) (CHR '':'' # hf_ows h @ hf_value h @ hf_trail h @ CRLF @ s)
      [(code_skip, CHR '':'' # hf_ows h)] (at_value f1) (hf_value h @ hf_trail h @ CRLF @ s)"
    using colon [of "hf_ows h" c f1 "v @ hf_trail h @ CRLF @ s"] wf v by simp
  moreover have "yields nxt (at_name f) (hf_name h @ CHR '':'' # hf_ows h @ hf_value h @ hf_trail h @ CRLF @ s)
      [(cn, hf_name h)] (at_colon f1) (CHR '':'' # hf_ows h @ hf_value h @ hf_trail h @ CRLF @ s)"
    using wf assms(2) by (intro name) simp_all
  moreover have "yields nxt (at_value f1) (hf_value h @ hf_trail h @ CRLF @ s)
      [(cv, hf_value h @ hf_trail h)] (at_end f2) (CRLF @ s)"
    using wf assms(3) by (intro content) simp_all
  ultimately show ?thesis
    using line_end [of f2 s] unfolding render_field_def field_tokens_def
    by (auto intro: yields_trans_Cons)
qed

lemma whole_section:
  assumes "list_all wf_field hs" and "section_effect named valued hs f = Some f'"
  shows "yields nxt (at_name f) (render_fields hs @ s) (fields_tokens cn cv hs) (at_name f') s"
  using assms
proof (induction hs arbitrary: f)
  case Nil
  then show ?case by (simp add: yields_Nil)
next
  case (Cons h hs)
  then obtain f1 f2 where "named (hf_name h) f = Some f1" "valued (hf_value h) f1 = Some f2"
    "section_effect named valued hs f2 = Some f'"
    by (auto simp: bind_eq_Some_conv)
  with Cons one_field [of h f f1 f2 "render_fields hs @ s"] show ?case
    by (auto intro!: yields_trans)
qed

end

text \<open>A body in chunks. The argument of a situation is the size of the current chunk.\<close>

locale chunked_body =
  fixes nxt :: "'x reader_data_scheme \<Rightarrow> fault + 'x reader_data_scheme"
    and at_size at_data_end at_trailers :: "'x reader_data_scheme \<Rightarrow> bool"
    and at_ext at_ext_end at_data :: "nat \<Rightarrow> 'x reader_data_scheme \<Rightarrow> bool"
  assumes size_line: "hexadecimal_value ds = Some k \<Longrightarrow> k < 2 ^ 64 \<Longrightarrow> \<not> is_hexdigit c \<Longrightarrow>
      yields nxt at_size (ds @ c # s) [(code_skip, ds)] (at_ext k) (c # s)"
    and ext: "e \<noteq> [] \<Longrightarrow> list_all is_chunk_ext_char e \<Longrightarrow> k < 2 ^ 64 \<Longrightarrow>
      yields nxt (at_ext k) (e @ CRLF @ s) [(code_chunk_ext, e)] (at_ext_end k) (CRLF @ s)"
    and no_ext: "0 < k \<Longrightarrow> k < 2 ^ 64 \<Longrightarrow>
      yields nxt (at_ext k) (CRLF @ s) [(code_skip, CRLF)] (at_data k) s"
    and ext_end: "0 < k \<Longrightarrow> k < 2 ^ 64 \<Longrightarrow>
      yields nxt (at_ext_end k) (CRLF @ s) [(code_skip, CRLF)] (at_data k) s"
    and no_ext_last: "yields nxt (at_ext 0) (CRLF @ s) [(code_end_of_body, CRLF)] at_trailers s"
    and ext_end_last: "yields nxt (at_ext_end 0) (CRLF @ s) [(code_end_of_body, CRLF)] at_trailers s"
    and data: "d \<noteq> [] \<Longrightarrow> length d < 2 ^ 64 \<Longrightarrow>
      yields nxt (at_data (length d)) (d @ s) [(code_body_chunk, d)] at_data_end s"
    and data_end: "yields nxt at_data_end (CRLF @ s) [(code_skip, CRLF)] at_size s"
begin

lemma chunk_line:
  assumes "wf_chunk c"
    and "yields nxt (at_ext (length (ck_data c))) (CRLF @ s) [(c_end, CRLF)] Q s"
    and "yields nxt (at_ext_end (length (ck_data c))) (CRLF @ s) [(c_end, CRLF)] Q s"
  shows "yields nxt at_size (render_chunk_line c @ s) (chunk_line_tokens c_end c) Q s"
proof (cases "ck_ext c")
  case Nil
  have "\<not> is_hexdigit (CHR 0x0D)" by (simp add: is_hexdigit_def)
  then have "yields nxt at_size (ck_size c @ CRLF @ s) [(code_skip, ck_size c)]
      (at_ext (length (ck_data c))) (CRLF @ s)"
    using assms(1) size_line [of "ck_size c" _ "CHR 0x0D" "CHR 0x0A # s"] by (simp add: wf_chunk_def)
  with assms(2) Nil show ?thesis
    by (auto simp: render_chunk_line_def chunk_line_tokens_def intro: yields_trans_Cons)
next
  case (Cons x e)
  then have "yields nxt at_size (ck_size c @ ck_ext c @ CRLF @ s) [(code_skip, ck_size c)]
      (at_ext (length (ck_data c))) (ck_ext c @ CRLF @ s)"
    using assms(1) size_line [of "ck_size c" _ x "e @ CRLF @ s"] by (simp add: wf_chunk_def)
  moreover have "yields nxt (at_ext (length (ck_data c))) (ck_ext c @ CRLF @ s)
      [(code_chunk_ext, ck_ext c)] (at_ext_end (length (ck_data c))) (CRLF @ s)"
    using assms(1) Cons by (intro ext) (simp_all add: wf_chunk_def)
  ultimately show ?thesis
    using assms(3) Cons
    by (auto simp: render_chunk_line_def chunk_line_tokens_def intro: yields_trans_Cons)
qed

lemma one_chunk:
  assumes "wf_chunk c" and "ck_data c \<noteq> []"
  shows "yields nxt at_size (render_chunk c @ s) (chunk_tokens c) at_size s"
proof -
  have k: "0 < length (ck_data c)" "length (ck_data c) < 2 ^ 64"
    using assms by (simp_all add: wf_chunk_def)
  have line: "yields nxt at_size (render_chunk_line c @ ck_data c @ CRLF @ s) (chunk_line_tokens code_skip c)
      (at_data (length (ck_data c))) (ck_data c @ CRLF @ s)"
    using assms(1) k by (intro chunk_line no_ext ext_end)
  have "yields nxt (at_data (length (ck_data c))) (ck_data c @ CRLF @ s)
      [(code_body_chunk, ck_data c)] at_data_end (CRLF @ s)"
    using assms(2) k by (intro data)
  from yields_trans [OF line yields_trans_Cons [OF this data_end]] show ?thesis
    by (simp add: render_chunk_def chunk_tokens_def)
qed

lemma chunks:
  assumes "list_all (\<lambda>c. wf_chunk c \<and> ck_data c \<noteq> []) cs" and "wf_chunk l" and "ck_data l = []"
  shows "yields nxt at_size (concat (map render_chunk cs) @ render_chunk_line l @ s)
    (concat (map chunk_tokens cs) @ chunk_line_tokens code_end_of_body l) at_trailers s"
proof (rule yields_trans)
  show "yields nxt at_size (concat (map render_chunk cs) @ render_chunk_line l @ s)
      (concat (map chunk_tokens cs)) at_size (render_chunk_line l @ s)"
    using assms(1) by (intro yields_concat one_chunk) (auto simp: list_all_iff)
  show "yields nxt at_size (render_chunk_line l @ s) (chunk_line_tokens code_end_of_body l) at_trailers s"
    using chunk_line [OF assms(2)] no_ext_last ext_end_last by (simp add: assms(3))
qed

end

end
