(* ===== verification/Request_Stream.thy ===== *)
theory Request_Stream
  imports Request_Order Message_Stream
begin

text \<open>
  The request reader on rendered requests: one triple per token, the two sections as
  interpretations of the locales of \<open>Message_Stream\<close>, and the triple of a whole request.
\<close>

section \<open>One token\<close>

definition rq_in :: "rq_state \<Rightarrow> rq_body_type \<times> rq_version_flag \<times> u64 \<Rightarrow> request \<Rightarrow> bool" where
  "rq_in st f r \<longleftrightarrow> state r = st \<and> (body_type r, version r, body_size r) = f"

lemma rq_in_consume [simp]: "rq_in st f (consume r) = rq_in st f r"
  by (simp add: rq_in_def)

lemma rq_next_idle:
  assumes "idle s r" and "s \<noteq> []"
    and "state r \<notin> {RQ_ERRORED, RQ_EXPECT_END_OF_BODY, RQ_EXPECT_END_OF_MESSAGE}"
  shows "rq_next ieq r =
    (case rq_switch ieq r of Return r' \<Rightarrow> Inr r' | Tail_next r' \<Rightarrow> rq_next ieq r' | Fault f \<Rightarrow> Inl f)"
proof -
  have "idx r \<noteq> length (ibuffer r)" using assms(1,2) by (auto simp: idle_def rest_def)
  with assms show ?thesis by (subst rq_next.simps) (simp add: idle_def)
qed

lemma rq_next_ahead:
  assumes "ahead r s" and "s \<noteq> []"
    and "state r \<notin> {RQ_ERRORED, RQ_EXPECT_END_OF_BODY, RQ_EXPECT_END_OF_MESSAGE}"
  shows "rq_next ieq r = rq_next ieq (consume r)"
proof -
  have "idx (consume r) \<noteq> length (ibuffer (consume r))"
    using idle_consume [OF assms(1)] assms(2) by (auto simp: idle_def rest_def)
  then show ?thesis
    using assms(3) by (subst (1 2) rq_next.simps) (simp add: consume_idle)
qed

text \<open>A token that one pass through the \<open>switch\<close> completes, or a second one after
  \<open>return next();\<close>.\<close>

definition rq_pass :: "iequals \<Rightarrow> request \<Rightarrow> request \<Rightarrow> bool" where
  "rq_pass ieq r r' \<longleftrightarrow> rq_switch ieq r = Return r' \<or>
     (\<exists>r1. rq_switch ieq r = Tail_next r1 \<and> rq_switch ieq r1 = Return r')"

lemma rq_next_pass:
  assumes "idle s r" and "s \<noteq> []"
    and "state r \<notin> {RQ_ERRORED, RQ_EXPECT_END_OF_BODY, RQ_EXPECT_END_OF_MESSAGE}"
    and "rq_pass ieq r r'"
  shows "rq_next ieq r = Inr r'" and "idx r' = idx r" and "ibuffer r' = ibuffer r"
proof -
  have "rq_next ieq r = Inr r' \<and> idx r' = idx r \<and> ibuffer r' = ibuffer r"
  proof (cases "rq_switch ieq r")
    case (Return r2)
    with assms(4) have "r2 = r'" by (auto simp: rq_pass_def)
    with Return show ?thesis
      using rq_next_idle [OF assms(1-3)] rq_switch_frame [of r ieq] by simp
  next
    case (Tail_next r1)
    with assms(4) have pass: "rq_switch ieq r1 = Return r'" by (auto simp: rq_pass_def)
    have frame: "idx r1 = idx r" "ibuffer r1 = ibuffer r"
      using rq_switch_frame [of r ieq] Tail_next by simp_all
    have "state r1 \<notin> {RQ_ERRORED, RQ_EXPECT_END_OF_BODY, RQ_EXPECT_END_OF_MESSAGE}"
      and "token_size r1 = 0" and "cur_code r1 = cur_code r"
      using rq_switch_Tail_next [OF Tail_next] assms(1)
        arg_cong [OF rq_switch_Tail_next [OF Tail_next, THEN conjunct2, THEN conjunct1], of cur_code]
      by (auto simp: rq_tail_calls_def idle_def)
    with assms(1) frame have "idle s r1" by (auto simp: idle_def in_range_def rest_def)
    from rq_next_idle [OF this assms(2), of ieq] \<open>state r1 \<notin> _\<close> Tail_next pass frame show ?thesis
      using rq_next_idle [OF assms(1-3), of ieq] rq_switch_frame [of r1 ieq] by simp
  next
    case (Fault f)
    with assms(4) show ?thesis by (simp add: rq_pass_def)
  qed
  then show "rq_next ieq r = Inr r'" "idx r' = idx r" "ibuffer r' = ibuffer r" by simp_all
qed

lemma rq_yields:
  assumes "st \<notin> {RQ_ERRORED, RQ_EXPECT_END_OF_BODY, RQ_EXPECT_END_OF_MESSAGE}"
    and "t @ s' \<noteq> []" and "symbol_convert c \<noteq> symbol_error"
    and pass: "\<And>r. state r = st \<Longrightarrow> P r \<Longrightarrow> idle (t @ s') r \<Longrightarrow>
      \<exists>r'. rq_pass ieq r r' \<and> cur_code r' = c \<and> token_size r' = length t \<and> Q r'"
    and "\<And>r. P r \<Longrightarrow> state r = st" and "\<And>r. P r \<Longrightarrow> P (consume r)"
  shows "yields (rq_next ieq) P (t @ s') [(c, t)] Q s'"
proof (rule yields_one)
  fix r assume r: "P r" "ahead r (t @ s')"
  let ?r = "consume r"
  have idle: "idle (t @ s') ?r" by (rule idle_consume [OF r(2)])
  have st: "state r = st" "state ?r = st" using assms(5) r(1) by simp_all
  from pass [OF st(2) assms(6) [OF r(1)] idle] obtain r' where
    r': "rq_pass ieq ?r r'" "cur_code r' = c" "token_size r' = length t" "Q r'" by blast
  have out: "state ?r \<notin> {RQ_ERRORED, RQ_EXPECT_END_OF_BODY, RQ_EXPECT_END_OF_MESSAGE}"
    using assms(1) st(2) by simp
  have next_r: "rq_next ieq r = Inr r'"
    using rq_next_ahead [OF r(2) assms(2), of ieq] rq_next_pass(1) [OF idle assms(2) out r'(1)] out
    by simp
  have "rest r' = t @ s'"
    using rq_next_pass(2,3) [OF idle assms(2) out r'(1)] idle by (simp add: rest_def idle_def)
  moreover from this have "in_range r'"
    using rest_length [of r'] r'(3) idle rq_next_pass(2,3) [OF idle assms(2) out r'(1)] consume_idx_le [of r]
    by (auto simp: in_range_def idle_def)
  ultimately have "token_prefix r' = t" "ahead r' s'"
    using r'(2,3) assms(3) by (auto simp: token_prefix_def ahead_def final_error_def)
  with next_r r' show "\<exists>r'. rq_next ieq r = Inr r' \<and> cur_code r' = c \<and> token_prefix r' = t \<and> Q r' \<and>
    ahead r' s'" by blast
qed

lemma rq_yields_in:
  assumes "st \<notin> {RQ_ERRORED, RQ_EXPECT_END_OF_BODY, RQ_EXPECT_END_OF_MESSAGE}"
    and "t @ s' \<noteq> []" and "symbol_convert c \<noteq> symbol_error"
    and "\<And>r. rq_in st f r \<Longrightarrow> idle (t @ s') r \<Longrightarrow>
      byte_at (ibuffer r) (idx r) = Inr (hd (t @ s')) \<Longrightarrow>
      \<exists>r'. rq_pass ieq r r' \<and> cur_code r' = c \<and> token_size r' = length t \<and> Q r'"
  shows "yields (rq_next ieq) (rq_in st f) (t @ s') [(c, t)] Q s'"
proof (rule rq_yields [where st = st])
  fix r assume r: "rq_in st f r" "idle (t @ s') r"
  obtain x u where "t @ s' = x # u" using assms(2) by (cases "t @ s'") auto
  with idle_byte(1) [of x u r] r(2) have "byte_at (ibuffer r) (idx r) = Inr (hd (t @ s'))" by simp
  with r show "\<exists>r'. rq_pass ieq r r' \<and> cur_code r' = c \<and> token_size r' = length t \<and> Q r'"
    by (rule assms(4))
qed (use assms in \<open>simp_all add: rq_in_def\<close>)

section \<open>The request line\<close>

lemmas rq_pass_simps = rq_pass_def rq_switch_def rq_in_def rq_token_def Let_def

lemma rq_reads_method:
  assumes "m \<noteq> []" and "list_all is_tchar m" and "\<not> is_tchar c"
  shows "yields (rq_next ieq) (rq_in RQ_EXPECT_METHOD f) (m @ c # s) [(code_method, m)]
    (rq_in RQ_EXPECT_SP_AFTER_METHOD f) (c # s)"
proof (rule rq_yields_in)
  fix r assume r: "rq_in RQ_EXPECT_METHOD f r" "idle (m @ c # s) r"
  have "rq_method r = Return (rq_token RQ_EXPECT_SP_AFTER_METHOD code_method (length m) r)"
    using r(2) assms idle_token_prefix [OF r(2)]
    by (subst rq_method_eq) (auto simp: idle_def match_delimited)
  with r(1) show "\<exists>r'. rq_pass ieq r r' \<and> cur_code r' = code_method \<and> token_size r' = length m \<and>
      rq_in RQ_EXPECT_SP_AFTER_METHOD f r'"
    by (simp add: rq_pass_simps)
qed simp_all

lemma rq_reads_sp:
  "yields (rq_next ieq) (rq_in RQ_EXPECT_SP_AFTER_METHOD f) ('' '' @ s) [(code_skip, '' '')]
    (rq_in RQ_EXPECT_REQUEST_TARGET f) s"
  by (rule rq_yields_in)
     (auto simp: rq_pass_simps rq_sp_after_method_def is_sp_def)

lemma rq_reads_target:
  assumes "m \<noteq> []" and "list_all is_request_target_char m" and "\<not> is_request_target_char c"
  shows "yields (rq_next ieq) (rq_in RQ_EXPECT_REQUEST_TARGET f) (m @ c # s) [(code_request_target, m)]
    (rq_in RQ_EXPECT_STATIC_STR_AFTER_TARGET f) (c # s)"
proof (rule rq_yields_in)
  fix r assume r: "rq_in RQ_EXPECT_REQUEST_TARGET f r" "idle (m @ c # s) r"
  have "rq_request_target r =
      Return (rq_token RQ_EXPECT_STATIC_STR_AFTER_TARGET code_request_target (length m) r)"
    using r(2) assms idle_token_prefix [OF r(2)]
    by (subst rq_request_target_eq) (auto simp: idle_def match_delimited)
  with r(1) show "\<exists>r'. rq_pass ieq r r' \<and> cur_code r' = code_request_target \<and>
      token_size r' = length m \<and> rq_in RQ_EXPECT_STATIC_STR_AFTER_TARGET f r'"
    by (simp add: rq_pass_simps)
qed simp_all

lemma rq_reads_static_str:
  "yields (rq_next ieq) (rq_in RQ_EXPECT_STATIC_STR_AFTER_TARGET f) (rq_static_str @ s)
    [(code_skip, rq_static_str)] (rq_in RQ_EXPECT_VERSION f) s"
proof (rule rq_yields_in)
  fix r assume r: "rq_in RQ_EXPECT_STATIC_STR_AFTER_TARGET f r" "idle (rq_static_str @ s) r"
  have "rq_static_str_after_target r =
      Return (rq_token RQ_EXPECT_VERSION code_skip (length rq_static_str) r)"
    using r(2) idle_token_prefix [OF r(2)]
    by (subst rq_static_str_after_target_eq) (auto simp: idle_def rq_static_str_def)
  with r(1) show "\<exists>r'. rq_pass ieq r r' \<and> cur_code r' = code_skip \<and>
      token_size r' = length rq_static_str \<and> rq_in RQ_EXPECT_VERSION f r'"
    by (simp add: rq_pass_simps)
qed (simp_all add: rq_static_str_def)

definition rq_version_of :: "char \<Rightarrow> rq_version_flag" where
  "rq_version_of d = (if d = CHR ''0'' then RQ_HTTP_1_0 else RQ_NOT_HTTP_1_0_AND_HOST_NOT_READ)"

lemma rq_reads_version:
  assumes "isdigit d"
  shows "yields (rq_next ieq) (rq_in RQ_EXPECT_VERSION (bt, v, n)) ([d] @ s) [(code_version, [d])]
    (rq_in RQ_EXPECT_CRLF_AFTER_VERSION (bt, rq_version_of d, n)) s"
proof (rule rq_yields_in)
  fix r assume r: "rq_in RQ_EXPECT_VERSION (bt, v, n) r" "idle ([d] @ s) r"
    and "byte_at (ibuffer r) (idx r) = Inr (hd ([d] @ s))"
  moreover have "byte d = 48 \<longleftrightarrow> d = CHR ''0''" by (simp add: char_eq_byte)
  ultimately show "\<exists>r'. rq_pass ieq r r' \<and> cur_code r' = code_version \<and> token_size r' = length [d] \<and>
      rq_in RQ_EXPECT_CRLF_AFTER_VERSION (bt, rq_version_of d, n) r'"
    using assms
    by (auto simp: rq_pass_simps rq_version_def rq_value_version_def isdigit_def rq_version_of_def)
qed simp_all

lemma rq_reads_crlf_after_version:
  "yields (rq_next ieq) (rq_in RQ_EXPECT_CRLF_AFTER_VERSION f) (CRLF @ s) [(code_skip, CRLF)]
    (rq_in RQ_EXPECT_FIELD_NAME f) s"
  by (rule rq_yields_in) (simp_all add: rq_pass_simps rq_crlf_after_version_def idle_def)

section \<open>The header section\<close>

text \<open>What a field does to \<open>body_type\<close>, \<open>version\<close> and \<open>body_size\<close>.\<close>

definition rq_kind :: "iequals \<Rightarrow> octets \<Rightarrow> field_kind" where
  "rq_kind ieq n =
     (if ieq n ''Host'' then Host_field
      else if ieq n ''Transfer-Encoding'' then Coding_field
      else if ieq n ''Content-Length'' then Length_field
      else Other_field)"

type_synonym rq_framing_data = "rq_body_type \<times> rq_version_flag \<times> u64"

fun rq_named :: "iequals \<Rightarrow> octets \<Rightarrow> rq_framing_data \<Rightarrow> rq_framing_data option" where
  "rq_named ieq n (bt, v, k) =
     (case rq_kind ieq n of
        Host_field \<Rightarrow>
          (case v of RQ_HTTP_1_0 \<Rightarrow> Some (bt, v, k)
           | RQ_NOT_HTTP_1_0_AND_HOST_NOT_READ \<Rightarrow> Some (bt, RQ_NOT_HTTP_1_0_AND_HOST_READ, k)
           | RQ_NOT_HTTP_1_0_AND_HOST_READ \<Rightarrow> None)
      | Coding_field \<Rightarrow> if bt = RQ_NO_BODY then Some (RQ_READING_ENCODING, v, k) else None
      | Length_field \<Rightarrow> if bt = RQ_NO_BODY then Some (RQ_READING_CONTENT_LENGTH, v, k) else None
      | Other_field \<Rightarrow> Some (bt, v, k))"

fun rq_valued :: "iequals \<Rightarrow> octets \<Rightarrow> rq_framing_data \<Rightarrow> rq_framing_data option" where
  "rq_valued ieq x (bt, v, k) =
     (case bt of
        RQ_READING_CONTENT_LENGTH \<Rightarrow>
          (case decimal_value x of
             None \<Rightarrow> None
           | Some n \<Rightarrow> if n < 2 ^ 64 then Some (RQ_CONTENT_LENGTH_READ, v, of_nat n) else None)
      | RQ_READING_ENCODING \<Rightarrow>
          if chunked_role (map (\<lambda>e. ieq e ''chunked'') (list_elements x)) = CHUNKED_AT_END
          then Some (RQ_CHUNKED_ENCODING_READ, v, k) else None
      | _ \<Rightarrow> Some (bt, v, k))"

lemma rq_known_field_named:
  assumes "rq_named ieq n (body_type r, version r, body_size r) = Some (bt, v, k)"
  shows "rq_known_field ieq n r = Return (r\<lparr>body_type := bt, version := v, body_size := k\<rparr>)"
  using assms
  by (auto simp: rq_known_field_def rq_kind_def
      split: if_splits field_kind.splits rq_version_flag.splits rq_body_type.splits)

lemma rq_framing_value_valued:
  assumes "rq_valued ieq x (body_type r, version r, body_size r) = Some (bt, v, k)"
  shows "rq_framing_value ieq x r = r\<lparr>body_type := bt, version := v, body_size := k\<rparr>"
  using assms
  by (auto simp: rq_framing_value_def decode_transfer_encoding_role content_length_decode_u64
      split: if_splits rq_body_type.splits option.splits)

lemma rq_reads_field_name:
  assumes "n \<noteq> []" and "list_all is_tchar n" and "rq_named ieq n f = Some f'"
  shows "yields (rq_next ieq) (rq_in RQ_EXPECT_FIELD_NAME f) (n @ CHR '':'' # s) [(code_field_name, n)]
    (rq_in RQ_EXPECT_COLON f') (CHR '':'' # s)"
proof (rule rq_yields_in)
  fix r assume r: "rq_in RQ_EXPECT_FIELD_NAME f r" "idle (n @ CHR '':'' # s) r"
  let ?r = "rq_token RQ_EXPECT_COLON code_field_name (length n) r"
  have match: "field_name_match (rest r) = length n"
    using r(2) assms(2)
    by (simp add: idle_def field_name.delimited list_all_iff)
  obtain bt v k where f': "f' = (bt, v, k)" by (cases f')
  have "rq_value_field_name ?r = Inr n"
    using idle_view [OF r(2), of ?r]
    by (simp add: rq_value_field_name_def rq_token_def)
  moreover have "rq_known_field ieq n ?r = Return (?r\<lparr>body_type := bt, version := v, body_size := k\<rparr>)"
    using assms(3) r(1) f' by (intro rq_known_field_named) (simp add: rq_in_def rq_token_def)
  moreover have "length n \<noteq> length (rest r)" using r(2) by (simp add: idle_def del: rest_length)
  ultimately show "\<exists>r'. rq_pass ieq r r' \<and> cur_code r' = code_field_name \<and> token_size r' = length n \<and>
      rq_in RQ_EXPECT_COLON f' r'"
    using r(1) assms(1) match f'
    by (simp add: rq_pass_def rq_switch_def rq_in_def rq_field_name_def Let_def del: rest_length)
       (simp add: rq_token_def)
qed simp_all

lemma rq_reads_colon:
  assumes "list_all is_ows w" and "\<not> is_ows c"
  shows "yields (rq_next ieq) (rq_in RQ_EXPECT_COLON f) (CHR '':'' # w @ c # s) [(code_skip, CHR '':'' # w)]
    (rq_in RQ_EXPECT_FIELD_VALUE f) (c # s)"
proof -
  have "yields (rq_next ieq) (rq_in RQ_EXPECT_COLON f) ((CHR '':'' # w) @ c # s)
      [(code_skip, CHR '':'' # w)] (rq_in RQ_EXPECT_FIELD_VALUE f) (c # s)"
  proof (rule rq_yields_in)
    fix r assume r: "rq_in RQ_EXPECT_COLON f r" "idle ((CHR '':'' # w) @ c # s) r"
    from r(2) have idle: "idle (CHR '':'' # (w @ c # s)) r" by simp
    have "scan_from is_ows (ibuffer r) (Suc (idx r)) = Inr (Suc (idx r) + length w)"
      using idle_byte(2) [OF idle, of is_ows] assms by (simp add: match_delimited)
    then have "rq_colon r = Return (rq_token RQ_EXPECT_FIELD_VALUE code_skip (Suc (length w)) r)"
      using idle_byte(1,3) [OF idle] by (simp add: rq_colon_def)
    with r(1) show "\<exists>r'. rq_pass ieq r r' \<and> cur_code r' = code_skip \<and>
        token_size r' = length (CHR '':'' # w) \<and> rq_in RQ_EXPECT_FIELD_VALUE f r'"
      by (simp add: rq_pass_simps)
  qed simp_all
  then show ?thesis by simp
qed

lemma rq_reads_field_value:
  assumes "x \<noteq> []" and "list_all is_field_value_char x" and "\<not> is_ows (last x)"
    and "list_all is_ows w" and "rq_valued ieq x f = Some f'"
  shows "yields (rq_next ieq) (rq_in RQ_EXPECT_FIELD_VALUE f) (x @ w @ CRLF @ s)
    [(code_field_value, x @ w)] (rq_in RQ_EXPECT_CRLF_AFTER_FIELD_VALUE f') (CRLF @ s)"
proof -
  have "yields (rq_next ieq) (rq_in RQ_EXPECT_FIELD_VALUE f) ((x @ w) @ CRLF @ s)
      [(code_field_value, x @ w)] (rq_in RQ_EXPECT_CRLF_AFTER_FIELD_VALUE f') (CRLF @ s)"
  proof (rule rq_yields_in)
    fix r assume r: "rq_in RQ_EXPECT_FIELD_VALUE f r" "idle ((x @ w) @ CRLF @ s) r"
    let ?r = "rq_token RQ_EXPECT_CRLF_AFTER_FIELD_VALUE code_field_value (length (x @ w)) r"
    have match: "field_value_match (rest r) = length (x @ w)"
      using r(2) assms(2,4) ows_field_value
        field_value.delimited [of "x @ w" "CHR 0x0D" "CHR 0x0A # s"]
      by (auto simp: idle_def list_all_iff class_defs)
    obtain bt v k where f': "f' = (bt, v, k)" by (cases f')
    have "rq_value_field_value ?r = Inr x"
      using idle_view [OF r(2), of ?r] decode_field_value_trail [OF assms(1,3,4)]
      by (simp add: rq_value_field_value_def rq_token_def)
    moreover have "rq_framing_value ieq x ?r = ?r\<lparr>body_type := bt, version := v, body_size := k\<rparr>"
      using assms(5) r(1) f' by (intro rq_framing_value_valued) (simp add: rq_in_def rq_token_def)
    moreover have "length (x @ w) \<noteq> length (rest r)"
      using r(2) by (simp add: idle_def del: rest_length)
    ultimately show "\<exists>r'. rq_pass ieq r r' \<and> cur_code r' = code_field_value \<and>
        token_size r' = length (x @ w) \<and> rq_in RQ_EXPECT_CRLF_AFTER_FIELD_VALUE f' r'"
      using r(1) match f'
      by (simp add: rq_pass_def rq_switch_def rq_in_def rq_field_value_def Let_def
          del: rest_length length_append) (simp add: rq_token_def)
  qed simp_all
  then show ?thesis by simp
qed

lemma rq_reads_crlf_after_field_value:
  "yields (rq_next ieq) (rq_in RQ_EXPECT_CRLF_AFTER_FIELD_VALUE f) (CRLF @ s) [(code_skip, CRLF)]
    (rq_in RQ_EXPECT_FIELD_NAME f) s"
  by (rule rq_yields_in) (simp_all add: rq_pass_simps rq_crlf_after_field_value_def idle_def)

interpretation rq_headers: field_section "rq_next ieq" "rq_in RQ_EXPECT_FIELD_NAME"
  "rq_in RQ_EXPECT_COLON" "rq_in RQ_EXPECT_FIELD_VALUE" "rq_in RQ_EXPECT_CRLF_AFTER_FIELD_VALUE"
  "rq_named ieq" "rq_valued ieq" code_field_name code_field_value for ieq
  by unfold_locales
     (rule rq_reads_field_name rq_reads_colon rq_reads_field_value rq_reads_crlf_after_field_value;
      assumption)+

section \<open>The body\<close>

lemma rq_reads_end_of_headers:
  assumes "v \<noteq> RQ_NOT_HTTP_1_0_AND_HOST_NOT_READ"
    and "bt \<in> {RQ_NO_BODY, RQ_CONTENT_LENGTH_READ, RQ_CHUNKED_ENCODING_READ}"
  shows "yields (rq_next ieq) (rq_in RQ_EXPECT_FIELD_NAME (bt, v, k)) (CRLF @ s)
    [(code_end_of_headers, CRLF)]
    (rq_in (if bt = RQ_CHUNKED_ENCODING_READ then RQ_EXPECT_CHUNK_SIZE
            else if bt = RQ_CONTENT_LENGTH_READ \<and> k \<noteq> 0 then RQ_EXPECT_BODY
            else RQ_EXPECT_END_OF_BODY) (bt, v, k)) s"
proof (rule rq_yields_in)
  fix r assume r: "rq_in RQ_EXPECT_FIELD_NAME (bt, v, k) r" "idle (CRLF @ s) r"
  have "field_name_match (rest r) = 0"
    using r(2) field_name.zero_iff [of "CRLF @ s"] by (simp add: idle_def)
  then have "rq_field_name ieq r = Tail_next (r\<lparr>state := RQ_EXPECT_CRLF_AFTER_HEADERS\<rparr>)"
    by (simp add: rq_field_name_def)
  with r assms show "\<exists>r'. rq_pass ieq r r' \<and> cur_code r' = code_end_of_headers \<and>
      token_size r' = length CRLF \<and>
      rq_in (if bt = RQ_CHUNKED_ENCODING_READ then RQ_EXPECT_CHUNK_SIZE
            else if bt = RQ_CONTENT_LENGTH_READ \<and> k \<noteq> 0 then RQ_EXPECT_BODY
            else RQ_EXPECT_END_OF_BODY) (bt, v, k) r'"
    by (auto simp: rq_pass_simps rq_crlf_after_headers_def rq_end_of_headers_def idle_def)
qed simp_all

lemma rq_reads_sized:
  assumes "b \<noteq> []" and "length b < 2 ^ 64"
  shows "yields (rq_next ieq) (rq_in RQ_EXPECT_BODY (bt, v, of_nat (length b))) (b @ s)
    [(code_body_chunk, b)] (rq_in RQ_EXPECT_END_OF_BODY (bt, v, 0)) s"
proof (rule rq_yields_in)
  fix r assume r: "rq_in RQ_EXPECT_BODY (bt, v, of_nat (length b)) r" "idle (b @ s) r"
  have "unat (of_nat (length b) :: u64) = length b"
    using assms(2) by (simp add: unat_of_nat)
  moreover have "length (rest r) = length b + length s" using r(2) by (simp add: idle_def del: rest_length)
  ultimately show "\<exists>r'. rq_pass ieq r r' \<and> cur_code r' = code_body_chunk \<and> token_size r' = length b \<and>
      rq_in RQ_EXPECT_END_OF_BODY (bt, v, 0) r'"
    using r(1) by (simp add: rq_pass_simps rq_body_def del: rest_length)
qed (use assms in simp_all)

definition rq_at_start :: "request \<Rightarrow> bool" where
  "rq_at_start r \<longleftrightarrow> state r = RQ_EXPECT_METHOD \<and> body_type r = RQ_NO_BODY"

lemma rq_reads_end_of_body:
  "yields (rq_next ieq) (rq_in RQ_EXPECT_END_OF_BODY f) s
    [(code_end_of_body, []), (code_end_of_message, [])] rq_at_start s"
proof (rule yields_trans_Cons)
  show "yields (rq_next ieq) (rq_in RQ_EXPECT_END_OF_BODY f) s [(code_end_of_body, [])]
      (rq_in RQ_EXPECT_END_OF_MESSAGE f) s"
    by (rule yields_one)
       (auto simp: rq_in_def rq_next.simps ahead_def in_range_def rest_def token_prefix_def add.commute
         final_error_def)
  show "yields (rq_next ieq) (rq_in RQ_EXPECT_END_OF_MESSAGE f) s [(code_end_of_message, [])]
      rq_at_start s"
    by (rule yields_one)
       (auto simp: rq_at_start_def rq_in_def rq_next.simps ahead_def in_range_def rest_def token_prefix_def add.commute
         final_error_def)
qed

section \<open>Chunks\<close>

definition rq_chunk :: "rq_state \<Rightarrow> nat \<Rightarrow> request \<Rightarrow> bool" where
  "rq_chunk st k r \<longleftrightarrow> state r = st \<and> body_size r = of_nat k"

definition rq_st :: "rq_state \<Rightarrow> request \<Rightarrow> bool" where
  "rq_st st r \<longleftrightarrow> state r = st"

lemmas rq_st_simps = rq_st_def rq_chunk_def

lemma rq_reads_chunk_size:
  assumes "hexadecimal_value ds = Some k" and "k < 2 ^ 64" and "\<not> is_hexdigit c"
  shows "yields (rq_next ieq) (rq_st RQ_EXPECT_CHUNK_SIZE) (ds @ c # s) [(code_skip, ds)]
    (rq_chunk RQ_EXPECT_CHUNK_EXT k) (c # s)"
proof (rule rq_yields [where st = RQ_EXPECT_CHUNK_SIZE])
  fix r :: request assume r: "idle (ds @ c # s) r" "state r = RQ_EXPECT_CHUNK_SIZE"
  have ds: "ds \<noteq> []" "list_all is_hexdigit ds" using hexadecimal_value_digits [OF assms(1)] by simp_all
  then have match: "chunk_size_match (rest r) = length ds"
    using r(1) assms(3) chunk_size.delimited [of ds c s] by (simp add: idle_def list_all_iff)
  have len: "length ds \<noteq> length (rest r)" using r(1) by (simp add: idle_def del: rest_length)
  have "take (length ds) (rest r) = ds" using r(1) by (simp add: idle_def)
  then have "rq_chunk_size r =
      Return (rq_token RQ_EXPECT_CHUNK_EXT code_skip (length ds) (r\<lparr>body_size := of_nat k\<rparr>))"
    using match len ds chunk_size_decode_u64 [OF assms(1,2)]
    by (simp add: rq_chunk_size_def Let_def del: rest_length)
  with r(2) show "\<exists>r'. rq_pass ieq r r' \<and> cur_code r' = code_skip \<and> token_size r' = length ds \<and>
      rq_chunk RQ_EXPECT_CHUNK_EXT k r'"
    by (simp add: rq_pass_simps rq_st_simps)
qed (simp_all add: rq_st_simps)

lemma rq_reads_chunk_ext:
  assumes "e \<noteq> []" and "list_all is_chunk_ext_char e"
  shows "yields (rq_next ieq) (rq_chunk RQ_EXPECT_CHUNK_EXT k) (e @ CRLF @ s) [(code_chunk_ext, e)]
    (rq_chunk RQ_EXPECT_CRLF_AFTER_CHUNK_EXT k) (CRLF @ s)"
proof (rule rq_yields [where st = RQ_EXPECT_CHUNK_EXT])
  fix r :: request assume r: "idle (e @ CRLF @ s) r" "state r = RQ_EXPECT_CHUNK_EXT"
    "rq_chunk RQ_EXPECT_CHUNK_EXT k r"
  have "match_loop is_chunk_ext_char (rest r) = length e"
    using r(1) assms(2) match_delimited [of is_chunk_ext_char e "CHR 0x0D"] by (simp add: idle_def)
  moreover have "length e \<noteq> length (rest r)" "rest r ! length e = CHR 0x0D"
    using r(1) by (simp_all add: idle_def del: rest_length)
  ultimately have "rq_chunk_ext r =
      Return (rq_token RQ_EXPECT_CRLF_AFTER_CHUNK_EXT code_chunk_ext (length e) r)"
    using r(1) assms(1) idle_token_prefix [OF r(1)]
    by (subst rq_chunk_ext_eq) (simp_all add: Let_def idle_def del: rest_length)
  with r show "\<exists>r'. rq_pass ieq r r' \<and> cur_code r' = code_chunk_ext \<and> token_size r' = length e \<and>
      rq_chunk RQ_EXPECT_CRLF_AFTER_CHUNK_EXT k r'"
    by (simp add: rq_pass_simps rq_st_simps)
qed (use assms in \<open>simp_all add: rq_st_simps\<close>)

text \<open>The end of the line that announces a chunk, with an extension before it or without.\<close>

lemma rq_chunk_line_end:
  assumes "idle (CRLF @ s) r" and "state r = RQ_EXPECT_CRLF_AFTER_CHUNK_EXT"
  shows "rq_switch ieq r =
    Return (if body_size r \<noteq> 0 then rq_token RQ_EXPECT_CHUNK_DATA code_skip 2 r
            else rq_token RQ_EXPECT_TRAILER_NAME code_end_of_body 2 r)"
proof -
  have "\<not> length (rest r) < 2" "strict_crlf_match (rest r) = 2"
    using assms(1) by (simp_all add: idle_def del: rest_length)
  with assms(2) show ?thesis
    by (simp add: rq_switch_def rq_crlf_after_chunk_ext_def Let_def del: rest_length)
qed

lemma rq_no_chunk_ext:
  assumes "idle (CRLF @ s) r" and "state r = RQ_EXPECT_CHUNK_EXT"
  shows "rq_switch ieq r = Tail_next (r\<lparr>state := RQ_EXPECT_CRLF_AFTER_CHUNK_EXT, token_size := 0\<rparr>)"
    and "idle (CRLF @ s) (r\<lparr>state := RQ_EXPECT_CRLF_AFTER_CHUNK_EXT, token_size := 0\<rparr>)"
  using assms idle_token_prefix [OF assms(1)]
  by (simp_all add: rq_switch_def rq_chunk_ext_eq idle_def in_range_def Let_def del: rest_length)

lemma rq_reads_chunk_line_end:
  assumes "st \<in> {RQ_EXPECT_CHUNK_EXT, RQ_EXPECT_CRLF_AFTER_CHUNK_EXT}" and "k < 2 ^ 64"
  shows "yields (rq_next ieq) (rq_chunk st k) (CRLF @ s)
    [(if k = 0 then code_end_of_body else code_skip, CRLF)]
    (rq_chunk (if k = 0 then RQ_EXPECT_TRAILER_NAME else RQ_EXPECT_CHUNK_DATA) k) s"
proof (rule rq_yields [where st = st])
  fix r :: request assume r: "idle (CRLF @ s) r" "state r = st" "rq_chunk st k r"
  have k: "(of_nat k :: u64) = 0 \<longleftrightarrow> k = 0"
    using assms(2) by (auto simp: word_unat_eq_iff unat_of_nat)
  let ?r1 = "r\<lparr>state := RQ_EXPECT_CRLF_AFTER_CHUNK_EXT, token_size := 0\<rparr>"
  show "\<exists>r'. rq_pass ieq r r' \<and> cur_code r' = (if k = 0 then code_end_of_body else code_skip) \<and>
      token_size r' = length CRLF \<and>
      rq_chunk (if k = 0 then RQ_EXPECT_TRAILER_NAME else RQ_EXPECT_CHUNK_DATA) k r'"
  proof (cases "st = RQ_EXPECT_CHUNK_EXT")
    case True
    with r rq_no_chunk_ext(1) [of s r ieq] rq_no_chunk_ext(2) [of s r] rq_chunk_line_end [of s ?r1 ieq] k show ?thesis
      by (auto simp: rq_pass_def rq_token_def rq_st_simps)
  next
    case False
    with assms r rq_chunk_line_end [of s r ieq] k show ?thesis
      by (auto simp: rq_pass_def rq_token_def rq_st_simps)
  qed
qed (use assms in \<open>auto simp: rq_st_simps\<close>)

lemma rq_reads_chunk_data:
  assumes "d \<noteq> []" and "length d < 2 ^ 64"
  shows "yields (rq_next ieq) (rq_chunk RQ_EXPECT_CHUNK_DATA (length d)) (d @ s)
    [(code_body_chunk, d)] (rq_st RQ_EXPECT_CRLF_AFTER_CHUNK_DATA) s"
proof (rule rq_yields [where st = RQ_EXPECT_CHUNK_DATA])
  fix r assume r: "rq_chunk RQ_EXPECT_CHUNK_DATA (length d) r" "idle (d @ s) r"
  have "unat (of_nat (length d) :: u64) = length d"
    using assms(2) by (simp add: unat_of_nat)
  moreover have "length (rest r) = length d + length s"
    using r(2) by (simp add: idle_def del: rest_length)
  ultimately show "\<exists>r'. rq_pass ieq r r' \<and> cur_code r' = code_body_chunk \<and> token_size r' = length d \<and>
      rq_st RQ_EXPECT_CRLF_AFTER_CHUNK_DATA r'"
    using r(1) by (simp add: rq_pass_simps rq_st_simps rq_chunk_data_def del: rest_length)
qed (use assms in \<open>simp_all add: rq_st_simps\<close>)

lemma rq_reads_crlf_after_chunk_data:
  "yields (rq_next ieq) (rq_st RQ_EXPECT_CRLF_AFTER_CHUNK_DATA) (CRLF @ s) [(code_skip, CRLF)]
    (rq_st RQ_EXPECT_CHUNK_SIZE) s"
  by (rule rq_yields [where st = RQ_EXPECT_CRLF_AFTER_CHUNK_DATA])
     (simp_all add: rq_pass_simps rq_st_simps rq_crlf_after_chunk_data_def idle_def del: rest_length)

interpretation rq_chunks: chunked_body "rq_next ieq" "rq_st RQ_EXPECT_CHUNK_SIZE"
  "rq_st RQ_EXPECT_CRLF_AFTER_CHUNK_DATA" "rq_chunk RQ_EXPECT_TRAILER_NAME 0"
  "rq_chunk RQ_EXPECT_CHUNK_EXT" "rq_chunk RQ_EXPECT_CRLF_AFTER_CHUNK_EXT" "rq_chunk RQ_EXPECT_CHUNK_DATA"
  for ieq
proof (unfold_locales, goal_cases)
  case 1
  then show ?case by (rule rq_reads_chunk_size)
next
  case 2
  then show ?case by (intro rq_reads_chunk_ext)
next
  case (3 k s)
  then show ?case using rq_reads_chunk_line_end [of RQ_EXPECT_CHUNK_EXT k ieq s] by simp
next
  case (4 k s)
  then show ?case using rq_reads_chunk_line_end [of RQ_EXPECT_CRLF_AFTER_CHUNK_EXT k ieq s] by simp
next
  case (5 s)
  then show ?case using rq_reads_chunk_line_end [of RQ_EXPECT_CHUNK_EXT 0 ieq s] by simp
next
  case (6 s)
  then show ?case using rq_reads_chunk_line_end [of RQ_EXPECT_CRLF_AFTER_CHUNK_EXT 0 ieq s] by simp
next
  case 7
  then show ?case by (rule rq_reads_chunk_data)
next
  case 8
  then show ?case by (rule rq_reads_crlf_after_chunk_data)
qed

section \<open>Trailers\<close>

lemma rq_reads_trailer_name:
  assumes "n \<noteq> []" and "list_all is_tchar n"
  shows "yields (rq_next ieq) (rq_st RQ_EXPECT_TRAILER_NAME) (n @ CHR '':'' # s) [(code_trailer_name, n)]
    (rq_st RQ_EXPECT_TRAILER_COLON) (CHR '':'' # s)"
proof (rule rq_yields [where st = RQ_EXPECT_TRAILER_NAME])
  fix r :: request assume r: "idle (n @ CHR '':'' # s) r" "state r = RQ_EXPECT_TRAILER_NAME"
  have "field_name_match (rest r) = length n"
    using r(1) assms(2) by (simp add: idle_def field_name.delimited list_all_iff)
  moreover have "length n \<noteq> length (rest r)" using r(1) by (simp add: idle_def del: rest_length)
  ultimately show "\<exists>r'. rq_pass ieq r r' \<and> cur_code r' = code_trailer_name \<and> token_size r' = length n \<and>
      rq_st RQ_EXPECT_TRAILER_COLON r'"
    using assms(1) r(2) by (simp add: rq_pass_simps rq_st_simps rq_trailer_name_def del: rest_length)
qed (simp_all add: rq_st_simps)

lemma rq_reads_trailer_colon:
  assumes "list_all is_ows w" and "\<not> is_ows c"
  shows "yields (rq_next ieq) (rq_st RQ_EXPECT_TRAILER_COLON) ((CHR '':'' # w) @ c # s)
    [(code_skip, CHR '':'' # w)] (rq_st RQ_EXPECT_TRAILER_VALUE) (c # s)"
proof (rule rq_yields [where st = RQ_EXPECT_TRAILER_COLON])
  fix r :: request assume r: "idle ((CHR '':'' # w) @ c # s) r" "state r = RQ_EXPECT_TRAILER_COLON"
  from r(1) have idle: "idle (CHR '':'' # (w @ c # s)) r" by simp
  have "scan_from is_ows (ibuffer r) (Suc (idx r)) = Inr (Suc (idx r) + length w)"
    using idle_byte(2) [OF idle, of is_ows] assms by (simp add: match_delimited)
  then have "rq_trailer_colon r = Return (rq_token RQ_EXPECT_TRAILER_VALUE code_skip (Suc (length w)) r)"
    using idle_byte(1,3) [OF idle] by (simp add: rq_trailer_colon_def)
  with r(2) show "\<exists>r'. rq_pass ieq r r' \<and> cur_code r' = code_skip \<and>
      token_size r' = length (CHR '':'' # w) \<and> rq_st RQ_EXPECT_TRAILER_VALUE r'"
    by (simp add: rq_pass_simps rq_st_simps)
qed (simp_all add: rq_st_simps)

lemma rq_reads_trailer_value:
  assumes "list_all is_field_value_char x" and "list_all is_ows w"
  shows "yields (rq_next ieq) (rq_st RQ_EXPECT_TRAILER_VALUE) ((x @ w) @ CRLF @ s)
    [(code_trailer_value, x @ w)] (rq_st RQ_EXPECT_CRLF_AFTER_TRAILER_VALUE) (CRLF @ s)"
proof (rule rq_yields [where st = RQ_EXPECT_TRAILER_VALUE])
  fix r :: request assume r: "idle ((x @ w) @ CRLF @ s) r" "state r = RQ_EXPECT_TRAILER_VALUE"
  have "field_value_match (rest r) = length (x @ w)"
    using r(1) assms ows_field_value field_value.delimited [of "x @ w" "CHR 0x0D" "CHR 0x0A # s"]
    by (auto simp: idle_def list_all_iff class_defs)
  moreover have "length (x @ w) \<noteq> length (rest r)"
    using r(1) by (simp add: idle_def del: rest_length)
  ultimately show "\<exists>r'. rq_pass ieq r r' \<and> cur_code r' = code_trailer_value \<and>
      token_size r' = length (x @ w) \<and> rq_st RQ_EXPECT_CRLF_AFTER_TRAILER_VALUE r'"
    using r(2) by (simp add: rq_pass_simps rq_st_simps rq_trailer_value_def del: rest_length)
qed (simp_all add: rq_st_simps)

lemma rq_reads_crlf_after_trailer_value:
  "yields (rq_next ieq) (rq_st RQ_EXPECT_CRLF_AFTER_TRAILER_VALUE) (CRLF @ s) [(code_skip, CRLF)]
    (rq_st RQ_EXPECT_TRAILER_NAME) s"
  by (rule rq_yields [where st = RQ_EXPECT_CRLF_AFTER_TRAILER_VALUE])
     (simp_all add: rq_pass_simps rq_st_simps rq_crlf_after_trailer_value_def idle_def del: rest_length)

interpretation rq_trailers: field_section "rq_next ieq" "\<lambda>_ :: unit. rq_st RQ_EXPECT_TRAILER_NAME"
  "\<lambda>_. rq_st RQ_EXPECT_TRAILER_COLON" "\<lambda>_. rq_st RQ_EXPECT_TRAILER_VALUE"
  "\<lambda>_. rq_st RQ_EXPECT_CRLF_AFTER_TRAILER_VALUE" "\<lambda>_. Some" "\<lambda>_. Some"
  code_trailer_name code_trailer_value for ieq
proof (unfold_locales, goal_cases)
  case 1
  then show ?case by (intro rq_reads_trailer_name)
next
  case (2 w c f s)
  then show ?case using rq_reads_trailer_colon [of w c ieq s] by simp
next
  case (3 v w f f' s)
  then show ?case using rq_reads_trailer_value [of v w ieq s] by simp
next
  case 4
  show ?case by (rule rq_reads_crlf_after_trailer_value)
qed

lemma rq_reads_end_of_message:
  "yields (rq_next ieq) (rq_st RQ_EXPECT_TRAILER_NAME) (CRLF @ s) [(code_end_of_message, CRLF)]
    rq_at_start s"
proof (rule rq_yields [where st = RQ_EXPECT_TRAILER_NAME])
  fix r :: request assume r: "idle (CRLF @ s) r" "state r = RQ_EXPECT_TRAILER_NAME"
  have "field_name_match (rest r) = 0"
    using r(1) field_name.zero_iff [of "CRLF @ s"] by (simp add: idle_def)
  moreover have "\<not> length (rest r) < 2" "strict_crlf_match (rest r) = 2"
    using r(1) by (simp_all add: idle_def del: rest_length)
  ultimately show "\<exists>r'. rq_pass ieq r r' \<and> cur_code r' = code_end_of_message \<and>
      token_size r' = length CRLF \<and> rq_at_start r'"
    using r(2)
    by (simp add: rq_pass_simps rq_at_start_def rq_trailer_name_def rq_crlf_after_trailers_def
        del: rest_length)
qed (simp_all add: rq_st_simps)

section \<open>Requests\<close>

record request_message =
  rm_method :: octets
  rm_target :: octets
  rm_minor :: char
  rm_fields :: "header_field list"
  rm_body :: body

definition render_request :: "request_message \<Rightarrow> octets" where
  "render_request m =
     rm_method m @ '' '' @ rm_target m @ rq_static_str @ [rm_minor m] @ CRLF @
     render_fields (rm_fields m) @ CRLF @ render_body (rm_body m)"

definition request_tokens :: "request_message \<Rightarrow> token list" where
  "request_tokens m =
     [(code_method, rm_method m), (code_skip, '' ''), (code_request_target, rm_target m),
      (code_skip, rq_static_str), (code_version, [rm_minor m]), (code_skip, CRLF)] @
     fields_tokens code_field_name code_field_value (rm_fields m) @
     [(code_end_of_headers, CRLF)] @ body_tokens (rm_body m)"

text \<open>The requests a sender may write: a Host field unless the version is 1.0, and the field that
  announces the body, once, when there is one.\<close>

definition wf_request :: "iequals \<Rightarrow> request_message \<Rightarrow> bool" where
  "wf_request ieq m \<longleftrightarrow>
     rm_method m \<noteq> [] \<and> list_all is_tchar (rm_method m) \<and>
     rm_target m \<noteq> [] \<and> list_all is_request_target_char (rm_target m) \<and> isdigit (rm_minor m) \<and>
     list_all wf_field (rm_fields m) \<and>
     (rm_minor m = CHR ''0'' \<or> length (values_of (rq_kind ieq) Host_field (rm_fields m)) = 1) \<and>
     framed_as ieq (rq_kind ieq) (rm_fields m) (rm_body m) \<and> wf_body (rm_body m)"

definition rq_host_flag :: "rq_version_flag \<Rightarrow> nat \<Rightarrow> rq_version_flag" where
  "rq_host_flag v n = (if v = RQ_HTTP_1_0 \<or> n = 0 then v else RQ_NOT_HTTP_1_0_AND_HOST_READ)"

definition rq_host_ok :: "rq_version_flag \<Rightarrow> nat \<Rightarrow> bool" where
  "rq_host_ok v n \<longleftrightarrow> v = RQ_HTTP_1_0 \<or> n = 0 \<or> v = RQ_NOT_HTTP_1_0_AND_HOST_NOT_READ \<and> n = 1"

abbreviation rq_hosts :: "iequals \<Rightarrow> header_field list \<Rightarrow> nat" where
  "rq_hosts ieq hs \<equiv> length (values_of (rq_kind ieq) Host_field hs)"

abbreviation rq_effect :: "iequals \<Rightarrow> header_field list \<Rightarrow> rq_framing_data \<Rightarrow> rq_framing_data option" where
  "rq_effect ieq \<equiv> section_effect (rq_named ieq) (rq_valued ieq)"

lemma rq_effect_plain:
  assumes "values_of (rq_kind ieq) Coding_field hs = []" and "values_of (rq_kind ieq) Length_field hs = []"
    and "rq_settled bt" and "rq_host_ok v (rq_hosts ieq hs)"
  shows "rq_effect ieq hs (bt, v, k) = Some (bt, rq_host_flag v (rq_hosts ieq hs), k)"
  using assms
proof (induction hs arbitrary: v)
  case Nil
  then show ?case by (simp add: rq_host_flag_def values_of_def)
next
  case (Cons h hs)
  have settled: "rq_valued ieq x (bt, v, k) = Some (bt, v, k)" for x v
    using Cons.prems(3) by (auto simp: rq_settled_def split: rq_body_type.split)
  show ?case
  proof (cases "rq_kind ieq (hf_name h)")
    case Host_field
    with Cons.prems Cons.IH [of RQ_HTTP_1_0] Cons.IH [of RQ_NOT_HTTP_1_0_AND_HOST_READ] show ?thesis
      by (auto simp: values_of_def rq_host_ok_def rq_host_flag_def settled simp del: rq_valued.simps)
  next
    case Other_field
    with Cons.prems Cons.IH [of v] show ?thesis
      by (simp add: values_of_def settled del: rq_valued.simps)
  qed (use Cons.prems in \<open>simp_all add: values_of_def\<close>)
qed

text \<open>One field that announces a body, of kind \<open>kd\<close>, among others that do not.\<close>

lemma rq_effect_announced:
  assumes kd: "(kd, kd', rd) \<in> {(Length_field, Coding_field, RQ_READING_CONTENT_LENGTH),
      (Coding_field, Length_field, RQ_READING_ENCODING)}"
    and "values_of (rq_kind ieq) kd hs = [x]" and "values_of (rq_kind ieq) kd' hs = []"
    and val: "\<And>v. rq_valued ieq x (rd, v, k) = Some (bt, v, k')" and "rq_settled bt"
    and "rq_host_ok v (rq_hosts ieq hs)"
  shows "rq_effect ieq hs (RQ_NO_BODY, v, k) = Some (bt, rq_host_flag v (rq_hosts ieq hs), k')"
  using assms(2,3,6)
proof (induction hs arbitrary: v)
  case Nil
  then show ?case by (simp add: values_of_def)
next
  case (Cons h hs)
  have plain: "rq_valued ieq y (RQ_NO_BODY, v, k) = Some (RQ_NO_BODY, v, k)" for y v by simp
  show ?case
  proof (cases "rq_kind ieq (hf_name h) = kd")
    case True
    then have none: "values_of (rq_kind ieq) Coding_field hs = []"
      "values_of (rq_kind ieq) Length_field hs = []" and "hf_value h = x"
      using Cons.prems kd by (auto simp: values_of_def split: if_splits)
    moreover have "rq_hosts ieq (h # hs) = rq_hosts ieq hs"
      using True kd by (auto simp: values_of_def)
    moreover have "rq_named ieq (hf_name h) (RQ_NO_BODY, v, k) = Some (rd, v, k)"
      using True kd by auto
    ultimately show ?thesis
      using rq_effect_plain [OF none assms(5), of v k'] Cons.prems(3) val
      by (simp del: rq_valued.simps rq_named.simps)
  next
    case False
    with Cons.prems have vals: "values_of (rq_kind ieq) kd hs = [x]" "values_of (rq_kind ieq) kd' hs = []"
      by (auto simp: values_of_def split: if_splits)
    from False Cons.prems kd have "rq_kind ieq (hf_name h) \<in> {Host_field, Other_field}"
      by (cases "rq_kind ieq (hf_name h)") (auto simp: values_of_def split: if_splits)
    then show ?thesis
    proof (elim insertE emptyE)
      assume "rq_kind ieq (hf_name h) = Host_field"
      with Cons.prems(3) Cons.IH [OF vals, of RQ_HTTP_1_0]
        Cons.IH [OF vals, of RQ_NOT_HTTP_1_0_AND_HOST_READ]
      show ?thesis
        by (auto simp: values_of_def rq_host_ok_def rq_host_flag_def plain simp del: rq_valued.simps)
    next
      assume "rq_kind ieq (hf_name h) = Other_field"
      with Cons.prems(3) Cons.IH [OF vals, of v] show ?thesis
        by (simp add: values_of_def plain del: rq_valued.simps)
    qed
  qed
qed

text \<open>What \<open>next()\<close> knows at the end of a header section that announces the body
  \<open>b\<close>.\<close>

fun rq_framing_of :: "body \<Rightarrow> u64 \<Rightarrow> rq_body_type \<times> u64" where
  "rq_framing_of No_body k = (RQ_NO_BODY, k)"
| "rq_framing_of (Sized b) k = (RQ_CONTENT_LENGTH_READ, of_nat (length b))"
| "rq_framing_of (Chunked cs l ts) k = (RQ_CHUNKED_ENCODING_READ, k)"

lemma rq_effect_framed:
  assumes "framed_as ieq (rq_kind ieq) hs b" and "wf_body b" and "rq_host_ok v (rq_hosts ieq hs)"
  shows "rq_effect ieq hs (RQ_NO_BODY, v, k) =
    Some (fst (rq_framing_of b k), rq_host_flag v (rq_hosts ieq hs), snd (rq_framing_of b k))"
proof (cases b)
  case No_body
  with assms rq_effect_plain [of ieq hs RQ_NO_BODY v k] show ?thesis by (simp add: rq_settled_def)
next
  case (Sized d)
  then obtain x where x: "values_of (rq_kind ieq) Length_field hs = [x]" "decimal_value x = Some (length d)"
    "values_of (rq_kind ieq) Coding_field hs = []" "length d < 2 ^ 64"
    using assms(1,2) by (auto split: list.splits)
  with rq_effect_announced [of Length_field Coding_field RQ_READING_CONTENT_LENGTH ieq hs x k
      RQ_CONTENT_LENGTH_READ "of_nat (length d)" v] assms(3) Sized
  show ?thesis by (auto simp: rq_settled_def)
next
  case (Chunked cs l ts)
  then obtain x where x: "values_of (rq_kind ieq) Coding_field hs = [x]"
    "chunked_role (map (\<lambda>e. ieq e ''chunked'') (list_elements x)) = CHUNKED_AT_END"
    "values_of (rq_kind ieq) Length_field hs = []"
    using assms(1) by (auto split: list.splits)
  with rq_effect_announced [of Coding_field Length_field RQ_READING_ENCODING ieq hs x k
      RQ_CHUNKED_ENCODING_READ k v] assms(3) Chunked
  show ?thesis by (auto simp: rq_settled_def)
qed

lemma rq_reads_body:
  assumes "wf_body b" and "rq_framing_of b k = (bt, k')" and "v \<noteq> RQ_NOT_HTTP_1_0_AND_HOST_NOT_READ"
  shows "yields (rq_next ieq) (rq_in RQ_EXPECT_FIELD_NAME (bt, v, k')) (CRLF @ render_body b @ s)
    ((code_end_of_headers, CRLF) # body_tokens b) rq_at_start s"
proof (cases b)
  case No_body
  with assms rq_reads_end_of_headers [of v RQ_NO_BODY ieq k s] show ?thesis
    by (auto intro: yields_trans_Cons rq_reads_end_of_body)
next
  case (Sized d)
  have "unat (of_nat (length d) :: u64) = length d" using assms(1) Sized by (simp add: unat_of_nat)
  then have zero: "(of_nat (length d) :: u64) = 0 \<longleftrightarrow> d = []" by (auto simp: word_unat_eq_iff)
  note headers = rq_reads_end_of_headers [of v RQ_CONTENT_LENGTH_READ ieq k' "d @ s"]
  show ?thesis
  proof (cases "d = []")
    case True
    with Sized assms headers show ?thesis by (auto intro: yields_trans_Cons rq_reads_end_of_body)
  next
    case False
    have "yields (rq_next ieq) (rq_in RQ_EXPECT_BODY (RQ_CONTENT_LENGTH_READ, v, of_nat (length d)))
        (d @ s) ((code_body_chunk, d) # [(code_end_of_body, []), (code_end_of_message, [])]) rq_at_start s"
      using False assms(1) Sized by (intro yields_trans_Cons [OF rq_reads_sized rq_reads_end_of_body]) simp_all
    with Sized assms headers zero False show ?thesis by (auto intro: yields_trans_Cons)
  qed
next
  case (Chunked cs l ts)
  let ?P = "rq_in RQ_EXPECT_CHUNK_SIZE (RQ_CHUNKED_ENCODING_READ, v, k')"
  have "yields (rq_next ieq) (rq_st RQ_EXPECT_CHUNK_SIZE)
      (concat (map render_chunk cs) @ render_chunk_line l @ render_fields ts @ CRLF @ s)
      (concat (map chunk_tokens cs) @ chunk_line_tokens code_end_of_body l)
      (rq_chunk RQ_EXPECT_TRAILER_NAME 0) (render_fields ts @ CRLF @ s)"
    using assms(1) Chunked by (intro rq_chunks.chunks) simp_all
  then have chunks: "yields (rq_next ieq) ?P
      (concat (map render_chunk cs) @ render_chunk_line l @ render_fields ts @ CRLF @ s)
      (concat (map chunk_tokens cs) @ chunk_line_tokens code_end_of_body l)
      (rq_st RQ_EXPECT_TRAILER_NAME) (render_fields ts @ CRLF @ s)"
    by (rule yields_conseq) (simp_all add: rq_in_def rq_st_simps)
  have "yields (rq_next ieq) (rq_st RQ_EXPECT_TRAILER_NAME) (render_fields ts @ CRLF @ s)
      (fields_tokens code_trailer_name code_trailer_value ts) (rq_st RQ_EXPECT_TRAILER_NAME) (CRLF @ s)"
    using assms(1) Chunked rq_trailers.whole_section [of ts "()" "()"] by (simp add: section_effect_unit)
  from yields_trans [OF chunks yields_trans [OF this rq_reads_end_of_message]]
    rq_reads_end_of_headers [of v RQ_CHUNKED_ENCODING_READ ieq k']
  show ?thesis using assms Chunked by (auto intro: yields_trans_Cons)
qed

lemma rq_reads_request_line:
  assumes "m \<noteq> []" and "list_all is_tchar m" and "t \<noteq> []" and "list_all is_request_target_char t"
    and "isdigit d"
  shows "yields (rq_next ieq) (rq_in RQ_EXPECT_METHOD (bt, v, k))
    (m @ '' '' @ t @ rq_static_str @ [d] @ CRLF @ s)
    [(code_method, m), (code_skip, '' ''), (code_request_target, t), (code_skip, rq_static_str),
     (code_version, [d]), (code_skip, CRLF)]
    (rq_in RQ_EXPECT_FIELD_NAME (bt, rq_version_of d, k)) s"
proof -
  let ?v = "[d] @ CRLF @ s"
  let ?t = "rq_static_str @ ?v"
  have "yields (rq_next ieq) (rq_in RQ_EXPECT_METHOD (bt, v, k)) (m @ '' '' @ t @ ?t) [(code_method, m)]
      (rq_in RQ_EXPECT_SP_AFTER_METHOD (bt, v, k)) ('' '' @ t @ ?t)"
    using rq_reads_method [of m "CHR 0x20"] assms by simp
  moreover have "yields (rq_next ieq) (rq_in RQ_EXPECT_REQUEST_TARGET (bt, v, k)) (t @ ?t)
      [(code_request_target, t)] (rq_in RQ_EXPECT_STATIC_STR_AFTER_TARGET (bt, v, k)) ?t"
    using rq_reads_target [of t "CHR 0x20" ieq _ "''HTTP/1.'' @ ?v"] assms
    by (simp add: rq_static_str_def class_defs)
  ultimately show ?thesis
    using assms
    by (intro yields_trans_Cons [OF _ yields_trans_Cons [OF rq_reads_sp yields_trans_Cons
          [OF _ yields_trans_Cons [OF rq_reads_static_str yields_trans_Cons
            [OF rq_reads_version rq_reads_crlf_after_version]]]]])
qed

lemma rq_reads_request:
  assumes "wf_request ieq m"
  shows "yields (rq_next ieq) rq_at_start (render_request m @ s) (request_tokens m) rq_at_start s"
proof -
  note wf = assms [unfolded wf_request_def]
  let ?v = "rq_version_of (rm_minor m)" and ?hs = "rm_fields m" and ?b = "rm_body m"
  let ?rest = "CRLF @ render_body ?b @ s" and ?v' = "rq_host_flag ?v (rq_hosts ieq ?hs)"
  have "yields (rq_next ieq) (rq_in RQ_EXPECT_METHOD (RQ_NO_BODY, v, k)) (render_request m @ s)
      (request_tokens m) rq_at_start s" for v k
  proof -
    obtain bt k' where f: "rq_framing_of ?b k = (bt, k')" by force
    have "rq_host_ok ?v (rq_hosts ieq ?hs)" and v': "?v' \<noteq> RQ_NOT_HTTP_1_0_AND_HOST_NOT_READ"
      using wf by (auto simp: rq_host_ok_def rq_version_of_def rq_host_flag_def)
    then have "rq_effect ieq ?hs (RQ_NO_BODY, ?v, k) = Some (bt, ?v', k')"
      using rq_effect_framed [of ieq ?hs ?b ?v k] wf f by simp
    then have "yields (rq_next ieq) (rq_in RQ_EXPECT_FIELD_NAME (RQ_NO_BODY, ?v, k))
        (render_fields ?hs @ ?rest) (fields_tokens code_field_name code_field_value ?hs)
        (rq_in RQ_EXPECT_FIELD_NAME (bt, ?v', k')) ?rest"
      using wf by (intro rq_headers.whole_section) simp_all
    note fields_body = yields_trans [OF this rq_reads_body [OF _ f v']]
    from yields_trans [OF rq_reads_request_line fields_body] wf show ?thesis
      by (simp add: render_request_def request_tokens_def)
  qed
  then show ?thesis unfolding yields_def by (auto simp: rq_at_start_def rq_in_def)
qed

text \<open>Requests one after another, as in a pipeline.\<close>

lemma rq_reads_requests:
  assumes "list_all (wf_request ieq) ms"
  shows "yields (rq_next ieq) rq_at_start (concat (map render_request ms) @ s)
    (concat (map request_tokens ms)) rq_at_start s"
  using assms by (intro yields_concat rq_reads_request) (simp add: list_all_iff)

text \<open>A reader that is given requests as its first buffer, and the end of that buffer.\<close>

lemma rq_new_ahead:
  "rq_at_start (rq_new v n\<lparr>ibuffer := buf, idx := 0\<rparr>)" "ahead (rq_new v n\<lparr>ibuffer := buf, idx := 0\<rparr>) buf"
  by (simp_all add: rq_new_def rq_at_start_def ahead_def in_range_def rest_def final_error_def)

lemma rq_next_end:
  assumes "rq_at_start r" and "ahead r []"
  shows "rq_next ieq r = Inr (consume r)" and "rest (consume r) = []"
proof -
  have "idx (consume r) = length (ibuffer r)"
    using idle_consume [OF assms(2)] consume_idx_le [of r] assms(2)
    by (auto simp: idle_def rest_def ahead_def in_range_def)
  with assms(1) show "rq_next ieq r = Inr (consume r)"
    by (subst rq_next.simps) (simp add: rq_at_start_def)
  show "rest (consume r) = []" using idle_consume [OF assms(2)] by (simp add: idle_def)
qed

lemma request_tokens_no_error: "t \<in> set (request_tokens m) \<Longrightarrow> symbol_convert (fst t) \<noteq> symbol_error"
  using body_tokens_no_error [of t "rm_body m"] fields_tokens_no_error [of t "rm_fields m"]
  by (auto simp: request_tokens_def simp del: set_concat)

end
