(* ===== verification/Response_Stream.thy ===== *)
theory Response_Stream
  imports Response_Order Message_Stream Syntax_Props
begin

text \<open>
  The response reader on rendered responses, with a client that tells the method of the request
  once it is given the status code: one triple per token, the two sections as interpretations of
  the locales of \<open>Message_Stream\<close>, and the triple of a whole response.
\<close>

section \<open>One token\<close>

definition rs_in :: "rs_state \<Rightarrow> rs_body_type \<times> u64 \<Rightarrow> response \<Rightarrow> bool" where
  "rs_in st f r \<longleftrightarrow> resp_state r = st \<and> (resp_body_type r, body_size r) = f \<and> connection_flags r = 0"

abbreviation rs_silent :: "rs_state set" where
  "rs_silent \<equiv> {RS_ERRORED, RS_EXPECT_END_OF_BODY, RS_EXPECT_END_OF_MESSAGE,
     RS_EXPECT_END_OF_CONNECTION_ERROR}"

lemma rs_in_consume [simp]: "rs_in st f (consume r) = rs_in st f r"
  by (simp add: rs_in_def)

lemma rs_next_idle:
  assumes "idle s r" and "s \<noteq> []"
    and "resp_state r \<notin> rs_silent"
  shows "rs_next ieq r =
    (case rs_switch ieq r of Return r' \<Rightarrow> Inr r' | Tail_next r' \<Rightarrow> rs_next ieq r' | Fault f \<Rightarrow> Inl f)"
proof -
  have "idx r \<noteq> length (ibuffer r)" using assms(1,2) by (auto simp: idle_def rest_def)
  with assms show ?thesis by (subst rs_next.simps) (simp add: idle_def)
qed

lemma rs_next_ahead:
  assumes "ahead r s" and "s \<noteq> []"
    and "resp_state r \<notin> rs_silent"
  shows "rs_next ieq r = rs_next ieq (consume r)"
proof -
  have "idx (consume r) \<noteq> length (ibuffer (consume r))"
    using idle_consume [OF assms(1)] assms(2) by (auto simp: idle_def rest_def)
  then show ?thesis
    using assms(3) by (subst (1 2) rs_next.simps) (simp add: consume_idle)
qed

text \<open>A token that one pass through the \<open>switch\<close> completes, or a second one after
  \<open>return next();\<close>.\<close>

definition rs_pass :: "iequals \<Rightarrow> response \<Rightarrow> response \<Rightarrow> bool" where
  "rs_pass ieq r r' \<longleftrightarrow> rs_switch ieq r = Return r' \<or>
     (\<exists>r1. rs_switch ieq r = Tail_next r1 \<and> rs_switch ieq r1 = Return r')"

lemma rs_next_pass:
  assumes "idle s r" and "s \<noteq> []"
    and "resp_state r \<notin> rs_silent"
    and "rs_pass ieq r r'"
  shows "rs_next ieq r = Inr r'" and "idx r' = idx r" and "ibuffer r' = ibuffer r"
proof -
  have "rs_next ieq r = Inr r' \<and> idx r' = idx r \<and> ibuffer r' = ibuffer r"
  proof (cases "rs_switch ieq r")
    case (Return r2)
    with assms(4) have "r2 = r'" by (auto simp: rs_pass_def)
    with Return show ?thesis
      using rs_next_idle [OF assms(1-3)] rs_switch_frame [of r ieq] by simp
  next
    case (Tail_next r1)
    with assms(4) have pass: "rs_switch ieq r1 = Return r'" by (auto simp: rs_pass_def)
    have frame: "idx r1 = idx r" "ibuffer r1 = ibuffer r"
      using rs_switch_frame [of r ieq] Tail_next by simp_all
    have "resp_state r1 \<notin> rs_silent"
      and "token_size r1 = 0" and "cur_code r1 = cur_code r"
      using rs_switch_Tail_next [OF Tail_next] assms(1)
        arg_cong [OF rs_switch_Tail_next [OF Tail_next, THEN conjunct2, THEN conjunct1], of cur_code]
      by (auto simp: rs_tail_calls_def idle_def)
    with assms(1) frame have "idle s r1" by (auto simp: idle_def in_range_def rest_def)
    from rs_next_idle [OF this assms(2), of ieq] \<open>resp_state r1 \<notin> _\<close> Tail_next pass frame show ?thesis
      using rs_next_idle [OF assms(1-3), of ieq] rs_switch_frame [of r1 ieq] by simp
  next
    case (Fault f)
    with assms(4) show ?thesis by (simp add: rs_pass_def)
  qed
  then show "rs_next ieq r = Inr r'" "idx r' = idx r" "ibuffer r' = ibuffer r" by simp_all
qed

lemma rs_yields:
  assumes "st \<notin> rs_silent"
    and "t @ s' \<noteq> []" and "symbol_convert c \<noteq> symbol_error"
    and pass: "\<And>r. resp_state r = st \<Longrightarrow> P r \<Longrightarrow> idle (t @ s') r \<Longrightarrow>
      \<exists>r'. rs_pass ieq r r' \<and> cur_code r' = c \<and> token_size r' = length t \<and> Q r'"
    and "\<And>r. P r \<Longrightarrow> resp_state r = st" and "\<And>r. P r \<Longrightarrow> P (consume r)"
  shows "yields (rs_next ieq) P (t @ s') [(c, t)] Q s'"
proof (rule yields_one)
  fix r assume r: "P r" "ahead r (t @ s')"
  let ?r = "consume r"
  have idle: "idle (t @ s') ?r" by (rule idle_consume [OF r(2)])
  have st: "resp_state r = st" "resp_state ?r = st" using assms(5) r(1) by simp_all
  from pass [OF st(2) assms(6) [OF r(1)] idle] obtain r' where
    r': "rs_pass ieq ?r r'" "cur_code r' = c" "token_size r' = length t" "Q r'" by blast
  have out: "resp_state ?r \<notin> rs_silent"
    using assms(1) st(2) by simp
  have next_r: "rs_next ieq r = Inr r'"
    using rs_next_ahead [OF r(2) assms(2), of ieq] rs_next_pass(1) [OF idle assms(2) out r'(1)] out
    by simp
  have "rest r' = t @ s'"
    using rs_next_pass(2,3) [OF idle assms(2) out r'(1)] idle by (simp add: rest_def idle_def)
  moreover from this have "in_range r'"
    using rest_length [of r'] r'(3) idle rs_next_pass(2,3) [OF idle assms(2) out r'(1)] consume_idx_le [of r]
    by (auto simp: in_range_def idle_def)
  ultimately have "token_prefix r' = t" "ahead r' s'"
    using r'(2,3) assms(3) by (auto simp: token_prefix_def ahead_def final_error_def)
  with next_r r' show "\<exists>r'. rs_next ieq r = Inr r' \<and> cur_code r' = c \<and> token_prefix r' = t \<and> Q r' \<and>
    ahead r' s'" by blast
qed

lemma rs_yields_in:
  assumes "st \<notin> rs_silent"
    and "t @ s' \<noteq> []" and "symbol_convert c \<noteq> symbol_error"
    and "\<And>r. rs_in st f r \<Longrightarrow> idle (t @ s') r \<Longrightarrow>
      byte_at (ibuffer r) (idx r) = Inr (hd (t @ s')) \<Longrightarrow>
      \<exists>r'. rs_pass ieq r r' \<and> cur_code r' = c \<and> token_size r' = length t \<and> Q r'"
  shows "yields (rs_next ieq) (rs_in st f) (t @ s') [(c, t)] Q s'"
proof (rule rs_yields [where st = st])
  fix r assume r: "rs_in st f r" "idle (t @ s') r"
  obtain x u where "t @ s' = x # u" using assms(2) by (cases "t @ s'") auto
  with idle_byte(1) [of x u r] r(2) have "byte_at (ibuffer r) (idx r) = Inr (hd (t @ s'))" by simp
  with r show "\<exists>r'. rs_pass ieq r r' \<and> cur_code r' = c \<and> token_size r' = length t \<and> Q r'"
    by (rule assms(4))
qed (use assms in \<open>simp_all add: rs_in_def\<close>)

section \<open>The status line\<close>

lemma has_flag_none [simp]: "connection_flags r = 0 \<Longrightarrow> \<not> has_flag f r"
  by (simp add: has_flag_def)

lemmas rs_pass_simps = rs_pass_def rs_switch_def rs_in_def rs_token_def Let_def

lemma rs_reads_static_str:
  "yields (rs_next ieq) (rs_in RS_EXPECT_VERSION_STATIC_STR f) (rs_static_str @ s)
    [(code_skip, rs_static_str)] (rs_in RS_EXPECT_VERSION f) s"
proof (rule rs_yields_in)
  fix r assume r: "rs_in RS_EXPECT_VERSION_STATIC_STR f r" "idle (rs_static_str @ s) r"
  have "rs_version_static_str r =
      Return (rs_token RS_EXPECT_VERSION code_skip (length rs_static_str) r)"
    using r(2) idle_token_prefix [OF r(2)]
    by (subst rs_version_static_str_eq) (auto simp: idle_def rs_static_str_def)
  with r(1) show "\<exists>r'. rs_pass ieq r r' \<and> cur_code r' = code_skip \<and>
      token_size r' = length rs_static_str \<and> rs_in RS_EXPECT_VERSION f r'"
    by (simp add: rs_pass_simps)
qed (simp_all add: rs_static_str_def)

lemma rs_reads_version:
  assumes "isdigit d" and "d \<noteq> CHR ''0''"
  shows "yields (rs_next ieq) (rs_in RS_EXPECT_VERSION f) ([d] @ s) [(code_version, [d])]
    (rs_in RS_EXPECT_SP_AFTER_VERSION f) s"
  by (rule rs_yields_in) (use assms in \<open>auto simp: rs_pass_simps rs_version_def isdigit_def\<close>)

lemma rs_reads_sp_after_version:
  "yields (rs_next ieq) (rs_in RS_EXPECT_SP_AFTER_VERSION f) ('' '' @ s) [(code_skip, '' '')]
    (rs_in RS_EXPECT_STATUS_CODE f) s"
  by (rule rs_yields_in) (auto simp: rs_pass_simps rs_sp_after_version_def is_sp_def)

lemma rs_reads_status_code:
  assumes "length c = 3" and "list_all isdigit c"
  shows "yields (rs_next ieq) (rs_in RS_EXPECT_STATUS_CODE f) (c @ s) [(code_status_code, c)]
    (rs_in RS_EXPECT_SP_AFTER_STATUS_CODE f) s"
proof (rule rs_yields_in)
  fix r assume r: "rs_in RS_EXPECT_STATUS_CODE f r" "idle (c @ s) r"
  have "status_code_match (rest r) = 3" "\<not> length (rest r) < 3"
    using r(2) assms by (simp_all add: idle_def status_code_match_def syn_is_digit_eq del: rest_length)
  with r(1) assms(1) show "\<exists>r'. rs_pass ieq r r' \<and> cur_code r' = code_status_code \<and>
      token_size r' = length c \<and> rs_in RS_EXPECT_SP_AFTER_STATUS_CODE f r'"
    by (simp add: rs_pass_simps rs_status_code_def del: rest_length)
qed (use assms in auto)

lemma rs_reads_sp_after_status_code:
  assumes "bt \<noteq> RS_UNKNOWN_BODY"
  shows "yields (rs_next ieq) (rs_in RS_EXPECT_SP_AFTER_STATUS_CODE (bt, k)) ('' '' @ s)
    [(code_skip, '' '')] (rs_in RS_EXPECT_REASON_PHRASE (bt, k)) s"
  by (rule rs_yields_in) (use assms in \<open>auto simp: rs_pass_simps rs_sp_after_status_code_def is_sp_def\<close>)

lemma rs_reads_reason_phrase:
  assumes "list_all is_reason_phrase_char p"
  shows "yields (rs_next ieq) (rs_in RS_EXPECT_REASON_PHRASE f) (p @ CRLF @ s) [(code_reason_phrase, p)]
    (rs_in RS_EXPECT_CRLF_AFTER_REASON_PHRASE f) (CRLF @ s)"
proof (rule rs_yields_in)
  fix r assume r: "rs_in RS_EXPECT_REASON_PHRASE f r" "idle (p @ CRLF @ s) r"
  have "reason_phrase_match (rest r) = length p"
    using r(2) assms reason_phrase.delimited [of p "CHR 0x0D" "CHR 0x0A # s"]
    by (simp add: idle_def list_all_iff class_defs)
  moreover have "length p \<noteq> length (rest r)" using r(2) by (simp add: idle_def del: rest_length)
  ultimately show "\<exists>r'. rs_pass ieq r r' \<and> cur_code r' = code_reason_phrase \<and> token_size r' = length p \<and>
      rs_in RS_EXPECT_CRLF_AFTER_REASON_PHRASE f r'"
    using r(1) by (simp add: rs_pass_simps rs_reason_phrase_def del: rest_length)
qed simp_all

lemma rs_reads_crlf_after_reason_phrase:
  "yields (rs_next ieq) (rs_in RS_EXPECT_CRLF_AFTER_REASON_PHRASE f) (CRLF @ s) [(code_skip, CRLF)]
    (rs_in RS_EXPECT_FIELD_NAME f) s"
  by (rule rs_yields_in) (simp_all add: rs_pass_simps rs_crlf_after_reason_phrase_def idle_def)

section \<open>The header section\<close>

text \<open>What a field does to \<open>body_type\<close> and \<open>body_size\<close>.\<close>

definition rs_kind :: "iequals \<Rightarrow> octets \<Rightarrow> field_kind" where
  "rs_kind ieq n =
     (if ieq n ''Transfer-Encoding'' then Coding_field
      else if ieq n ''Content-Length'' then Length_field
      else Other_field)"

type_synonym rs_framing_data = "rs_body_type \<times> u64"

fun rs_named :: "iequals \<Rightarrow> octets \<Rightarrow> rs_framing_data \<Rightarrow> rs_framing_data option" where
  "rs_named ieq n (bt, k) =
     (if bt = RS_FORCE_NO_BODY \<or> rs_kind ieq n = Other_field then Some (bt, k)
      else if bt \<noteq> RS_CONNECTION_DELIMITED then None
      else Some (if rs_kind ieq n = Coding_field then RS_READING_ENCODING
                 else RS_READING_CONTENT_LENGTH, k))"

fun rs_valued :: "iequals \<Rightarrow> octets \<Rightarrow> rs_framing_data \<Rightarrow> rs_framing_data option" where
  "rs_valued ieq x (bt, k) =
     (case bt of
        RS_READING_CONTENT_LENGTH \<Rightarrow>
          (case decimal_value x of
             None \<Rightarrow> None
           | Some n \<Rightarrow> if n < 2 ^ 64 then Some (RS_CONTENT_LENGTH_READ, of_nat n) else None)
      | RS_READING_ENCODING \<Rightarrow>
          if chunked_role (map (\<lambda>e. ieq e ''chunked'') (list_elements x)) = CHUNKED_AT_END
          then Some (RS_CHUNKED_ENCODING_READ, k) else None
      | _ \<Rightarrow> Some (bt, k))"

lemma rs_known_field_named:
  assumes "rs_named ieq n (resp_body_type r, body_size r) = Some (bt, k)" and "connection_flags r = 0"
  shows "rs_known_field ieq n r = Return (r\<lparr>resp_body_type := bt, body_size := k\<rparr>)"
  using assms by (auto simp: rs_known_field_def rs_kind_def split: if_splits)

lemma rs_framing_value_valued:
  assumes "rs_valued ieq x (resp_body_type r, body_size r) = Some (bt, k)"
  shows "rs_framing_value ieq x r = r\<lparr>resp_body_type := bt, body_size := k\<rparr>"
  using assms
  by (auto simp: rs_framing_value_def decode_transfer_encoding_role content_length_decode_u64
      split: if_splits rs_body_type.splits option.splits)

lemma rs_reads_field_name:
  assumes "n \<noteq> []" and "list_all is_tchar n" and "rs_named ieq n f = Some f'"
  shows "yields (rs_next ieq) (rs_in RS_EXPECT_FIELD_NAME f) (n @ CHR '':'' # s) [(code_field_name, n)]
    (rs_in RS_EXPECT_COLON f') (CHR '':'' # s)"
proof (rule rs_yields_in)
  fix r assume r: "rs_in RS_EXPECT_FIELD_NAME f r" "idle (n @ CHR '':'' # s) r"
  let ?r = "rs_token RS_EXPECT_COLON code_field_name (length n) r"
  have match: "field_name_match (rest r) = length n"
    using r(2) assms(2)
    by (simp add: idle_def field_name.delimited list_all_iff)
  obtain bt k where f': "f' = (bt, k)" by (cases f')
  have "rs_value_field_name ?r = Inr n"
    using idle_view [OF r(2), of ?r]
    by (simp add: rs_value_field_name_def rs_token_def)
  moreover have "rs_known_field ieq n ?r = Return (?r\<lparr>resp_body_type := bt, body_size := k\<rparr>)"
    using assms(3) r(1) f' by (intro rs_known_field_named) (simp_all add: rs_in_def rs_token_def)
  moreover have "length n \<noteq> length (rest r)" using r(2) by (simp add: idle_def del: rest_length)
  ultimately show "\<exists>r'. rs_pass ieq r r' \<and> cur_code r' = code_field_name \<and> token_size r' = length n \<and>
      rs_in RS_EXPECT_COLON f' r'"
    using r(1) assms(1) match f'
    by (simp add: rs_pass_def rs_switch_def rs_in_def rs_field_name_def Let_def del: rest_length)
       (simp add: rs_token_def)
qed simp_all

lemma rs_reads_colon:
  assumes "list_all is_ows w" and "\<not> is_ows c"
  shows "yields (rs_next ieq) (rs_in RS_EXPECT_COLON f) (CHR '':'' # w @ c # s) [(code_skip, CHR '':'' # w)]
    (rs_in RS_EXPECT_FIELD_VALUE f) (c # s)"
proof -
  have "yields (rs_next ieq) (rs_in RS_EXPECT_COLON f) ((CHR '':'' # w) @ c # s)
      [(code_skip, CHR '':'' # w)] (rs_in RS_EXPECT_FIELD_VALUE f) (c # s)"
  proof (rule rs_yields_in)
    fix r assume r: "rs_in RS_EXPECT_COLON f r" "idle ((CHR '':'' # w) @ c # s) r"
    from r(2) have idle: "idle (CHR '':'' # (w @ c # s)) r" by simp
    have "scan_from is_ows (ibuffer r) (Suc (idx r)) = Inr (Suc (idx r) + length w)"
      using idle_byte(2) [OF idle, of is_ows] assms by (simp add: match_delimited)
    then have "rs_colon r = Return (rs_token RS_EXPECT_FIELD_VALUE code_skip (Suc (length w)) r)"
      using idle_byte(1,3) [OF idle] by (simp add: rs_colon_def)
    with r(1) show "\<exists>r'. rs_pass ieq r r' \<and> cur_code r' = code_skip \<and>
        token_size r' = length (CHR '':'' # w) \<and> rs_in RS_EXPECT_FIELD_VALUE f r'"
      by (simp add: rs_pass_simps)
  qed simp_all
  then show ?thesis by simp
qed

lemma rs_reads_field_value:
  assumes "x \<noteq> []" and "list_all is_field_value_char x" and "\<not> is_ows (last x)"
    and "list_all is_ows w" and "rs_valued ieq x f = Some f'"
  shows "yields (rs_next ieq) (rs_in RS_EXPECT_FIELD_VALUE f) (x @ w @ CRLF @ s)
    [(code_field_value, x @ w)] (rs_in RS_EXPECT_CRLF_AFTER_FIELD_VALUE f') (CRLF @ s)"
proof -
  have "yields (rs_next ieq) (rs_in RS_EXPECT_FIELD_VALUE f) ((x @ w) @ CRLF @ s)
      [(code_field_value, x @ w)] (rs_in RS_EXPECT_CRLF_AFTER_FIELD_VALUE f') (CRLF @ s)"
  proof (rule rs_yields_in)
    fix r assume r: "rs_in RS_EXPECT_FIELD_VALUE f r" "idle ((x @ w) @ CRLF @ s) r"
    let ?r = "rs_token RS_EXPECT_CRLF_AFTER_FIELD_VALUE code_field_value (length (x @ w)) r"
    have match: "field_value_match (rest r) = length (x @ w)"
      using r(2) assms(2,4) ows_field_value
        field_value.delimited [of "x @ w" "CHR 0x0D" "CHR 0x0A # s"]
      by (auto simp: idle_def list_all_iff class_defs)
    obtain bt k where f': "f' = (bt, k)" by (cases f')
    have "rs_value_field_value ?r = Inr x"
      using idle_view [OF r(2), of ?r] decode_field_value_trail [OF assms(1,3,4)]
      by (simp add: rs_value_field_value_def rs_token_def)
    moreover have "rs_framing_value ieq x ?r = ?r\<lparr>resp_body_type := bt, body_size := k\<rparr>"
      using assms(5) r(1) f' by (intro rs_framing_value_valued) (simp add: rs_in_def rs_token_def)
    moreover have "length (x @ w) \<noteq> length (rest r)"
      using r(2) by (simp add: idle_def del: rest_length)
    ultimately show "\<exists>r'. rs_pass ieq r r' \<and> cur_code r' = code_field_value \<and>
        token_size r' = length (x @ w) \<and> rs_in RS_EXPECT_CRLF_AFTER_FIELD_VALUE f' r'"
      using r(1) match f'
      by (simp add: rs_pass_def rs_switch_def rs_in_def rs_field_value_def Let_def
          del: rest_length length_append) (simp add: rs_token_def)
  qed simp_all
  then show ?thesis by simp
qed

lemma rs_reads_crlf_after_field_value:
  "yields (rs_next ieq) (rs_in RS_EXPECT_CRLF_AFTER_FIELD_VALUE f) (CRLF @ s) [(code_skip, CRLF)]
    (rs_in RS_EXPECT_FIELD_NAME f) s"
  by (rule rs_yields_in) (simp_all add: rs_pass_simps rs_crlf_after_field_value_def idle_def)

interpretation rs_headers: field_section "rs_next ieq" "rs_in RS_EXPECT_FIELD_NAME"
  "rs_in RS_EXPECT_COLON" "rs_in RS_EXPECT_FIELD_VALUE" "rs_in RS_EXPECT_CRLF_AFTER_FIELD_VALUE"
  "rs_named ieq" "rs_valued ieq" code_field_name code_field_value for ieq
  by unfold_locales
     (rule rs_reads_field_name rs_reads_colon rs_reads_field_value rs_reads_crlf_after_field_value;
      assumption)+

section \<open>The body\<close>

definition rs_body_state :: "rs_body_type \<Rightarrow> u64 \<Rightarrow> rs_state" where
  "rs_body_state bt k =
     (if bt = RS_CHUNKED_ENCODING_READ then RS_EXPECT_CHUNK_SIZE
      else if bt = RS_CONTENT_LENGTH_READ \<and> k \<noteq> 0 then RS_EXPECT_BODY
      else RS_EXPECT_END_OF_BODY)"

lemma rs_reads_end_of_headers:
  assumes "bt \<in> {RS_FORCE_NO_BODY, RS_CONTENT_LENGTH_READ, RS_CHUNKED_ENCODING_READ}"
  shows "yields (rs_next ieq) (rs_in RS_EXPECT_FIELD_NAME (bt, k)) (CRLF @ s)
    [(code_end_of_headers, CRLF)] (rs_in (rs_body_state bt k) (bt, k)) s"
proof (rule rs_yields_in)
  fix r assume r: "rs_in RS_EXPECT_FIELD_NAME (bt, k) r" "idle (CRLF @ s) r"
  have "field_name_match (rest r) = 0"
    using r(2) field_name.zero_iff [of "CRLF @ s"] by (simp add: idle_def)
  then have "rs_field_name ieq r = Tail_next (r\<lparr>resp_state := RS_EXPECT_CRLF_AFTER_HEADERS\<rparr>)"
    by (simp add: rs_field_name_def)
  with r assms show "\<exists>r'. rs_pass ieq r r' \<and> cur_code r' = code_end_of_headers \<and>
      token_size r' = length CRLF \<and> rs_in (rs_body_state bt k) (bt, k) r'"
    by (auto simp: rs_pass_simps rs_crlf_after_headers_def rs_end_of_headers_def rs_body_state_def
        idle_def)
qed simp_all

lemma rs_reads_sized:
  assumes "b \<noteq> []" and "length b < 2 ^ 64"
  shows "yields (rs_next ieq) (rs_in RS_EXPECT_BODY (bt, of_nat (length b))) (b @ s)
    [(code_body_chunk, b)] (rs_in RS_EXPECT_END_OF_BODY (bt, 0)) s"
proof (rule rs_yields_in)
  fix r assume r: "rs_in RS_EXPECT_BODY (bt, of_nat (length b)) r" "idle (b @ s) r"
  have "unat (of_nat (length b) :: u64) = length b"
    using assms(2) by (simp add: unat_of_nat)
  moreover have "length (rest r) = length b + length s" using r(2) by (simp add: idle_def del: rest_length)
  ultimately show "\<exists>r'. rs_pass ieq r r' \<and> cur_code r' = code_body_chunk \<and> token_size r' = length b \<and>
      rs_in RS_EXPECT_END_OF_BODY (bt, 0) r'"
    using r(1) by (simp add: rs_pass_simps rs_body_def del: rest_length)
qed (use assms in simp_all)

text \<open>At the start of a response on a connection that stays open.\<close>

definition rs_at_start :: "response \<Rightarrow> bool" where
  "rs_at_start r \<longleftrightarrow> resp_state r = RS_EXPECT_VERSION_STATIC_STR \<and> resp_body_type r = RS_UNKNOWN_BODY \<and>
     connection_flags r = 0 \<and> cur_code r \<noteq> code_status_code"

lemma rs_reads_end_of_body:
  assumes "bt \<noteq> RS_FORCE_NO_BODY_AND_STOP"
  shows "yields (rs_next ieq) (rs_in RS_EXPECT_END_OF_BODY (bt, k)) s
    [(code_end_of_body, []), (code_end_of_message, [])] rs_at_start s"
proof (rule yields_trans_Cons)
  show "yields (rs_next ieq) (rs_in RS_EXPECT_END_OF_BODY (bt, k)) s [(code_end_of_body, [])]
      (rs_in RS_EXPECT_END_OF_MESSAGE (bt, k)) s"
    by (rule yields_one)
       (auto simp: rs_in_def rs_next.simps ahead_def in_range_def rest_def token_prefix_def add.commute
         final_error_def)
  show "yields (rs_next ieq) (rs_in RS_EXPECT_END_OF_MESSAGE (bt, k)) s [(code_end_of_message, [])]
      rs_at_start s"
    by (rule yields_one)
       (use assms in \<open>auto simp: rs_at_start_def rs_in_def rs_next.simps ahead_def in_range_def rest_def
         token_prefix_def add.commute final_error_def\<close>)
qed

section \<open>Chunks\<close>

definition rs_chunk :: "rs_state \<Rightarrow> nat \<Rightarrow> response \<Rightarrow> bool" where
  "rs_chunk st k r \<longleftrightarrow> resp_state r = st \<and> body_size r = of_nat k \<and> connection_flags r = 0"

definition rs_st :: "rs_state \<Rightarrow> response \<Rightarrow> bool" where
  "rs_st st r \<longleftrightarrow> resp_state r = st \<and> connection_flags r = 0"

lemmas rs_st_simps = rs_st_def rs_chunk_def

lemma rs_reads_chunk_size:
  assumes "hexadecimal_value ds = Some k" and "k < 2 ^ 64" and "\<not> is_hexdigit c"
  shows "yields (rs_next ieq) (rs_st RS_EXPECT_CHUNK_SIZE) (ds @ c # s) [(code_skip, ds)]
    (rs_chunk RS_EXPECT_CHUNK_EXT k) (c # s)"
proof (rule rs_yields [where st = RS_EXPECT_CHUNK_SIZE])
  fix r :: response assume r: "idle (ds @ c # s) r" "resp_state r = RS_EXPECT_CHUNK_SIZE" "rs_st RS_EXPECT_CHUNK_SIZE r"
  have ds: "ds \<noteq> []" "list_all is_hexdigit ds" using hexadecimal_value_digits [OF assms(1)] by simp_all
  then have match: "chunk_size_match (rest r) = length ds"
    using r(1) assms(3) chunk_size.delimited [of ds c s] by (simp add: idle_def list_all_iff)
  have len: "length ds \<noteq> length (rest r)" using r(1) by (simp add: idle_def del: rest_length)
  have "take (length ds) (rest r) = ds" using r(1) by (simp add: idle_def)
  then have "rs_chunk_size r =
      Return (rs_token RS_EXPECT_CHUNK_EXT code_skip (length ds) (r\<lparr>body_size := of_nat k\<rparr>))"
    using match len ds chunk_size_decode_u64 [OF assms(1,2)]
    by (simp add: rs_chunk_size_def Let_def del: rest_length)
  with r(2,3) show "\<exists>r'. rs_pass ieq r r' \<and> cur_code r' = code_skip \<and> token_size r' = length ds \<and>
      rs_chunk RS_EXPECT_CHUNK_EXT k r'"
    by (simp add: rs_pass_simps rs_st_simps)
qed (simp_all add: rs_st_simps)

lemma rs_reads_chunk_ext:
  assumes "e \<noteq> []" and "list_all is_chunk_ext_char e"
  shows "yields (rs_next ieq) (rs_chunk RS_EXPECT_CHUNK_EXT k) (e @ CRLF @ s) [(code_chunk_ext, e)]
    (rs_chunk RS_EXPECT_CRLF_AFTER_CHUNK_EXT k) (CRLF @ s)"
proof (rule rs_yields [where st = RS_EXPECT_CHUNK_EXT])
  fix r :: response assume r: "idle (e @ CRLF @ s) r" "resp_state r = RS_EXPECT_CHUNK_EXT"
    "rs_chunk RS_EXPECT_CHUNK_EXT k r"
  have "match_loop is_chunk_ext_char (rest r) = length e"
    using r(1) assms(2) match_delimited [of is_chunk_ext_char e "CHR 0x0D"] by (simp add: idle_def)
  moreover have "length e \<noteq> length (rest r)" "rest r ! length e = CHR 0x0D"
    using r(1) by (simp_all add: idle_def del: rest_length)
  ultimately have "rs_chunk_ext r =
      Return (rs_token RS_EXPECT_CRLF_AFTER_CHUNK_EXT code_chunk_ext (length e) r)"
    using r(1) assms(1) idle_token_prefix [OF r(1)]
    by (subst rs_chunk_ext_eq) (simp_all add: Let_def idle_def del: rest_length)
  with r show "\<exists>r'. rs_pass ieq r r' \<and> cur_code r' = code_chunk_ext \<and> token_size r' = length e \<and>
      rs_chunk RS_EXPECT_CRLF_AFTER_CHUNK_EXT k r'"
    by (simp add: rs_pass_simps rs_st_simps)
qed (use assms in \<open>simp_all add: rs_st_simps\<close>)

text \<open>The end of the line that announces a chunk, with an extension before it or without.\<close>

lemma rs_chunk_line_end:
  assumes "idle (CRLF @ s) r" and "resp_state r = RS_EXPECT_CRLF_AFTER_CHUNK_EXT"
  shows "rs_switch ieq r =
    Return (if body_size r \<noteq> 0 then rs_token RS_EXPECT_CHUNK_DATA code_skip 2 r
            else rs_token RS_EXPECT_TRAILER_NAME code_end_of_body 2 r)"
proof -
  have "\<not> length (rest r) < 2" "strict_crlf_match (rest r) = 2"
    using assms(1) by (simp_all add: idle_def del: rest_length)
  with assms(2) show ?thesis
    by (simp add: rs_switch_def rs_crlf_after_chunk_ext_def Let_def del: rest_length)
qed

lemma rs_no_chunk_ext:
  assumes "idle (CRLF @ s) r" and "resp_state r = RS_EXPECT_CHUNK_EXT"
  shows "rs_switch ieq r = Tail_next (r\<lparr>resp_state := RS_EXPECT_CRLF_AFTER_CHUNK_EXT, token_size := 0\<rparr>)"
    and "idle (CRLF @ s) (r\<lparr>resp_state := RS_EXPECT_CRLF_AFTER_CHUNK_EXT, token_size := 0\<rparr>)"
  using assms idle_token_prefix [OF assms(1)]
  by (simp_all add: rs_switch_def rs_chunk_ext_eq idle_def in_range_def Let_def del: rest_length)

lemma rs_reads_chunk_line_end:
  assumes "st \<in> {RS_EXPECT_CHUNK_EXT, RS_EXPECT_CRLF_AFTER_CHUNK_EXT}" and "k < 2 ^ 64"
  shows "yields (rs_next ieq) (rs_chunk st k) (CRLF @ s)
    [(if k = 0 then code_end_of_body else code_skip, CRLF)]
    (rs_chunk (if k = 0 then RS_EXPECT_TRAILER_NAME else RS_EXPECT_CHUNK_DATA) k) s"
proof (rule rs_yields [where st = st])
  fix r :: response assume r: "idle (CRLF @ s) r" "resp_state r = st" "rs_chunk st k r"
  have k: "(of_nat k :: u64) = 0 \<longleftrightarrow> k = 0"
    using assms(2) by (auto simp: word_unat_eq_iff unat_of_nat)
  let ?r1 = "r\<lparr>resp_state := RS_EXPECT_CRLF_AFTER_CHUNK_EXT, token_size := 0\<rparr>"
  show "\<exists>r'. rs_pass ieq r r' \<and> cur_code r' = (if k = 0 then code_end_of_body else code_skip) \<and>
      token_size r' = length CRLF \<and>
      rs_chunk (if k = 0 then RS_EXPECT_TRAILER_NAME else RS_EXPECT_CHUNK_DATA) k r'"
  proof (cases "st = RS_EXPECT_CHUNK_EXT")
    case True
    with r rs_no_chunk_ext(1) [of s r ieq] rs_no_chunk_ext(2) [of s r] rs_chunk_line_end [of s ?r1 ieq] k show ?thesis
      by (auto simp: rs_pass_def rs_token_def rs_st_simps)
  next
    case False
    with assms r rs_chunk_line_end [of s r ieq] k show ?thesis
      by (auto simp: rs_pass_def rs_token_def rs_st_simps)
  qed
qed (use assms in \<open>auto simp: rs_st_simps\<close>)

lemma rs_reads_chunk_data:
  assumes "d \<noteq> []" and "length d < 2 ^ 64"
  shows "yields (rs_next ieq) (rs_chunk RS_EXPECT_CHUNK_DATA (length d)) (d @ s)
    [(code_body_chunk, d)] (rs_st RS_EXPECT_CRLF_AFTER_CHUNK_DATA) s"
proof (rule rs_yields [where st = RS_EXPECT_CHUNK_DATA])
  fix r assume r: "rs_chunk RS_EXPECT_CHUNK_DATA (length d) r" "idle (d @ s) r"
  have "unat (of_nat (length d) :: u64) = length d"
    using assms(2) by (simp add: unat_of_nat)
  moreover have "length (rest r) = length d + length s"
    using r(2) by (simp add: idle_def del: rest_length)
  ultimately show "\<exists>r'. rs_pass ieq r r' \<and> cur_code r' = code_body_chunk \<and> token_size r' = length d \<and>
      rs_st RS_EXPECT_CRLF_AFTER_CHUNK_DATA r'"
    using r(1) by (simp add: rs_pass_simps rs_st_simps rs_chunk_data_def del: rest_length)
qed (use assms in \<open>simp_all add: rs_st_simps\<close>)

lemma rs_reads_crlf_after_chunk_data:
  "yields (rs_next ieq) (rs_st RS_EXPECT_CRLF_AFTER_CHUNK_DATA) (CRLF @ s) [(code_skip, CRLF)]
    (rs_st RS_EXPECT_CHUNK_SIZE) s"
  by (rule rs_yields [where st = RS_EXPECT_CRLF_AFTER_CHUNK_DATA])
     (simp_all add: rs_pass_simps rs_st_simps rs_crlf_after_chunk_data_def idle_def del: rest_length)

interpretation rs_chunks: chunked_body "rs_next ieq" "rs_st RS_EXPECT_CHUNK_SIZE"
  "rs_st RS_EXPECT_CRLF_AFTER_CHUNK_DATA" "rs_chunk RS_EXPECT_TRAILER_NAME 0"
  "rs_chunk RS_EXPECT_CHUNK_EXT" "rs_chunk RS_EXPECT_CRLF_AFTER_CHUNK_EXT" "rs_chunk RS_EXPECT_CHUNK_DATA"
  for ieq
proof (unfold_locales, goal_cases)
  case 1
  then show ?case by (rule rs_reads_chunk_size)
next
  case 2
  then show ?case by (intro rs_reads_chunk_ext)
next
  case (3 k s)
  then show ?case using rs_reads_chunk_line_end [of RS_EXPECT_CHUNK_EXT k ieq s] by simp
next
  case (4 k s)
  then show ?case using rs_reads_chunk_line_end [of RS_EXPECT_CRLF_AFTER_CHUNK_EXT k ieq s] by simp
next
  case (5 s)
  then show ?case using rs_reads_chunk_line_end [of RS_EXPECT_CHUNK_EXT 0 ieq s] by simp
next
  case (6 s)
  then show ?case using rs_reads_chunk_line_end [of RS_EXPECT_CRLF_AFTER_CHUNK_EXT 0 ieq s] by simp
next
  case 7
  then show ?case by (rule rs_reads_chunk_data)
next
  case 8
  then show ?case by (rule rs_reads_crlf_after_chunk_data)
qed

section \<open>Trailers\<close>

lemma rs_reads_trailer_name:
  assumes "n \<noteq> []" and "list_all is_tchar n"
  shows "yields (rs_next ieq) (rs_st RS_EXPECT_TRAILER_NAME) (n @ CHR '':'' # s) [(code_trailer_name, n)]
    (rs_st RS_EXPECT_TRAILER_COLON) (CHR '':'' # s)"
proof (rule rs_yields [where st = RS_EXPECT_TRAILER_NAME])
  fix r :: response assume r: "idle (n @ CHR '':'' # s) r" "resp_state r = RS_EXPECT_TRAILER_NAME" "rs_st RS_EXPECT_TRAILER_NAME r"
  have "field_name_match (rest r) = length n"
    using r(1) assms(2) by (simp add: idle_def field_name.delimited list_all_iff)
  moreover have "length n \<noteq> length (rest r)" using r(1) by (simp add: idle_def del: rest_length)
  ultimately show "\<exists>r'. rs_pass ieq r r' \<and> cur_code r' = code_trailer_name \<and> token_size r' = length n \<and>
      rs_st RS_EXPECT_TRAILER_COLON r'"
    using assms(1) r(2,3) by (simp add: rs_pass_simps rs_st_simps rs_trailer_name_def del: rest_length)
qed (simp_all add: rs_st_simps)

lemma rs_reads_trailer_colon:
  assumes "list_all is_ows w" and "\<not> is_ows c"
  shows "yields (rs_next ieq) (rs_st RS_EXPECT_TRAILER_COLON) ((CHR '':'' # w) @ c # s)
    [(code_skip, CHR '':'' # w)] (rs_st RS_EXPECT_TRAILER_VALUE) (c # s)"
proof (rule rs_yields [where st = RS_EXPECT_TRAILER_COLON])
  fix r :: response assume r: "idle ((CHR '':'' # w) @ c # s) r" "resp_state r = RS_EXPECT_TRAILER_COLON" "rs_st RS_EXPECT_TRAILER_COLON r"
  from r(1) have idle: "idle (CHR '':'' # (w @ c # s)) r" by simp
  have "scan_from is_ows (ibuffer r) (Suc (idx r)) = Inr (Suc (idx r) + length w)"
    using idle_byte(2) [OF idle, of is_ows] assms by (simp add: match_delimited)
  then have "rs_trailer_colon r = Return (rs_token RS_EXPECT_TRAILER_VALUE code_skip (Suc (length w)) r)"
    using idle_byte(1,3) [OF idle] by (simp add: rs_trailer_colon_def)
  with r(2,3) show "\<exists>r'. rs_pass ieq r r' \<and> cur_code r' = code_skip \<and>
      token_size r' = length (CHR '':'' # w) \<and> rs_st RS_EXPECT_TRAILER_VALUE r'"
    by (simp add: rs_pass_simps rs_st_simps)
qed (simp_all add: rs_st_simps)

lemma rs_reads_trailer_value:
  assumes "list_all is_field_value_char x" and "list_all is_ows w"
  shows "yields (rs_next ieq) (rs_st RS_EXPECT_TRAILER_VALUE) ((x @ w) @ CRLF @ s)
    [(code_trailer_value, x @ w)] (rs_st RS_EXPECT_CRLF_AFTER_TRAILER_VALUE) (CRLF @ s)"
proof (rule rs_yields [where st = RS_EXPECT_TRAILER_VALUE])
  fix r :: response assume r: "idle ((x @ w) @ CRLF @ s) r" "resp_state r = RS_EXPECT_TRAILER_VALUE" "rs_st RS_EXPECT_TRAILER_VALUE r"
  have "field_value_match (rest r) = length (x @ w)"
    using r(1) assms ows_field_value field_value.delimited [of "x @ w" "CHR 0x0D" "CHR 0x0A # s"]
    by (auto simp: idle_def list_all_iff class_defs)
  moreover have "length (x @ w) \<noteq> length (rest r)"
    using r(1) by (simp add: idle_def del: rest_length)
  ultimately show "\<exists>r'. rs_pass ieq r r' \<and> cur_code r' = code_trailer_value \<and>
      token_size r' = length (x @ w) \<and> rs_st RS_EXPECT_CRLF_AFTER_TRAILER_VALUE r'"
    using r(2,3) by (simp add: rs_pass_simps rs_st_simps rs_trailer_value_def del: rest_length)
qed (simp_all add: rs_st_simps)

lemma rs_reads_crlf_after_trailer_value:
  "yields (rs_next ieq) (rs_st RS_EXPECT_CRLF_AFTER_TRAILER_VALUE) (CRLF @ s) [(code_skip, CRLF)]
    (rs_st RS_EXPECT_TRAILER_NAME) s"
  by (rule rs_yields [where st = RS_EXPECT_CRLF_AFTER_TRAILER_VALUE])
     (simp_all add: rs_pass_simps rs_st_simps rs_crlf_after_trailer_value_def idle_def del: rest_length)

interpretation rs_trailers: field_section "rs_next ieq" "\<lambda>_ :: unit. rs_st RS_EXPECT_TRAILER_NAME"
  "\<lambda>_. rs_st RS_EXPECT_TRAILER_COLON" "\<lambda>_. rs_st RS_EXPECT_TRAILER_VALUE"
  "\<lambda>_. rs_st RS_EXPECT_CRLF_AFTER_TRAILER_VALUE" "\<lambda>_. Some" "\<lambda>_. Some"
  code_trailer_name code_trailer_value for ieq
proof (unfold_locales, goal_cases)
  case 1
  then show ?case by (intro rs_reads_trailer_name)
next
  case (2 w c f s)
  then show ?case using rs_reads_trailer_colon [of w c ieq s] by simp
next
  case (3 v w f f' s)
  then show ?case using rs_reads_trailer_value [of v w ieq s] by simp
next
  case 4
  show ?case by (rule rs_reads_crlf_after_trailer_value)
qed

lemma rs_reads_end_of_message:
  "yields (rs_next ieq) (rs_st RS_EXPECT_TRAILER_NAME) (CRLF @ s) [(code_end_of_message, CRLF)]
    rs_at_start s"
proof (rule rs_yields [where st = RS_EXPECT_TRAILER_NAME])
  fix r :: response assume r: "idle (CRLF @ s) r" "resp_state r = RS_EXPECT_TRAILER_NAME" "rs_st RS_EXPECT_TRAILER_NAME r"
  have "field_name_match (rest r) = 0"
    using r(1) field_name.zero_iff [of "CRLF @ s"] by (simp add: idle_def)
  moreover have "\<not> length (rest r) < 2" "strict_crlf_match (rest r) = 2"
    using r(1) by (simp_all add: idle_def del: rest_length)
  ultimately show "\<exists>r'. rs_pass ieq r r' \<and> cur_code r' = code_end_of_message \<and>
      token_size r' = length CRLF \<and> rs_at_start r'"
    using r(2,3)
    by (simp add: rs_pass_simps rs_st_simps rs_at_start_def rs_trailer_name_def rs_crlf_after_trailers_def
        del: rest_length)
qed (simp_all add: rs_st_simps)


section \<open>Responses\<close>

record response_message =
  sm_minor :: char
  sm_status :: octets
  sm_reason :: octets
  sm_fields :: "header_field list"
  sm_body :: body

definition render_response :: "response_message \<Rightarrow> octets" where
  "render_response m =
     rs_static_str @ [sm_minor m] @ '' '' @ sm_status m @ '' '' @ sm_reason m @ CRLF @
     render_fields (sm_fields m) @ CRLF @ render_body (sm_body m)"

definition response_tokens :: "response_message \<Rightarrow> token list" where
  "response_tokens m =
     [(code_skip, rs_static_str), (code_version, [sm_minor m]), (code_skip, '' ''),
      (code_status_code, sm_status m)] @
     [(code_skip, '' ''), (code_reason_phrase, sm_reason m), (code_skip, CRLF)] @
     fields_tokens code_field_name code_field_value (sm_fields m) @
     [(code_end_of_headers, CRLF)] @ body_tokens (sm_body m)"

text \<open>Responses that never have a body, by the method of the request and the status code.\<close>

definition forbids_body :: "octets \<Rightarrow> nat \<Rightarrow> bool" where
  "forbids_body meth n \<longleftrightarrow> n div 100 = 1 \<or> n = 204 \<or> n = 304 \<or> meth = ''HEAD''"

text \<open>The responses a sender may write on a connection that stays open: without a body where none is
  allowed, and with a length or in chunks otherwise.\<close>

definition wf_response :: "iequals \<Rightarrow> octets \<Rightarrow> response_message \<Rightarrow> bool" where
  "wf_response ieq meth m \<longleftrightarrow>
     isdigit (sm_minor m) \<and> sm_minor m \<noteq> CHR ''0'' \<and>
     length (sm_status m) = 3 \<and> list_all isdigit (sm_status m) \<and>
     list_all is_reason_phrase_char (sm_reason m) \<and> list_all wf_field (sm_fields m) \<and>
     (if forbids_body meth (the (decimal_value (sm_status m))) then sm_body m = No_body
      else \<not> (the (decimal_value (sm_status m)) div 100 = 2 \<and> meth = ''CONNECT'') \<and>
        sm_body m \<noteq> No_body \<and> framed_as ieq (rs_kind ieq) (sm_fields m) (sm_body m)) \<and>
     wf_body (sm_body m)"

abbreviation rs_effect :: "iequals \<Rightarrow> header_field list \<Rightarrow> rs_framing_data \<Rightarrow> rs_framing_data option" where
  "rs_effect ieq \<equiv> section_effect (rs_named ieq) (rs_valued ieq)"

lemma rs_effect_forced: "rs_effect ieq hs (RS_FORCE_NO_BODY, k) = Some (RS_FORCE_NO_BODY, k)"
  by (induction hs) simp_all

lemma rs_effect_plain:
  assumes "values_of (rs_kind ieq) Coding_field hs = []" and "values_of (rs_kind ieq) Length_field hs = []"
    and "rs_settled bt"
  shows "rs_effect ieq hs (bt, k) = Some (bt, k)"
  using assms
proof (induction hs)
  case (Cons h hs)
  have "rs_kind ieq (hf_name h) = Other_field"
    using Cons.prems by (auto simp: values_of_def rs_kind_def split: if_splits)
  moreover have "rs_valued ieq x (bt, k) = Some (bt, k)" for x
    using Cons.prems(3) by (auto simp: rs_settled_def split: rs_body_type.split)
  ultimately show ?case
    using Cons by (simp add: values_of_def del: rs_valued.simps)
qed simp

lemma rs_effect_announced:
  assumes kd: "(kd, kd', rd) \<in> {(Length_field, Coding_field, RS_READING_CONTENT_LENGTH),
      (Coding_field, Length_field, RS_READING_ENCODING)}"
    and "values_of (rs_kind ieq) kd hs = [x]" and "values_of (rs_kind ieq) kd' hs = []"
    and val: "rs_valued ieq x (rd, k) = Some (bt, k')" and "rs_settled bt"
  shows "rs_effect ieq hs (RS_CONNECTION_DELIMITED, k) = Some (bt, k')"
  using assms(2,3)
proof (induction hs)
  case (Cons h hs)
  show ?case
  proof (cases "rs_kind ieq (hf_name h) = kd")
    case True
    then have none: "values_of (rs_kind ieq) Coding_field hs = []"
      "values_of (rs_kind ieq) Length_field hs = []" and "hf_value h = x"
      using Cons.prems kd by (auto simp: values_of_def split: if_splits)
    moreover have "rs_named ieq (hf_name h) (RS_CONNECTION_DELIMITED, k) = Some (rd, k)"
      using True kd by auto
    ultimately show ?thesis
      using rs_effect_plain [OF none assms(5), of k'] val by (simp del: rs_valued.simps rs_named.simps)
  next
    case False
    with Cons.prems kd have "rs_kind ieq (hf_name h) = Other_field"
      by (auto simp: values_of_def rs_kind_def split: if_splits)
    with False Cons show ?thesis by (auto simp: values_of_def split: if_splits)
  qed
qed (simp add: values_of_def)

fun rs_framing_of :: "body \<Rightarrow> u64 \<Rightarrow> rs_framing_data" where
  "rs_framing_of No_body k = (RS_FORCE_NO_BODY, k)"
| "rs_framing_of (Sized b) k = (RS_CONTENT_LENGTH_READ, of_nat (length b))"
| "rs_framing_of (Chunked cs l ts) k = (RS_CHUNKED_ENCODING_READ, k)"

lemma rs_effect_framed:
  assumes "framed_as ieq (rs_kind ieq) hs b" and "wf_body b" and "b \<noteq> No_body"
  shows "rs_effect ieq hs (RS_CONNECTION_DELIMITED, k) = Some (rs_framing_of b k)"
proof (cases b)
  case (Sized d)
  then obtain x where "values_of (rs_kind ieq) Length_field hs = [x]" "decimal_value x = Some (length d)"
    "values_of (rs_kind ieq) Coding_field hs = []" "length d < 2 ^ 64"
    using assms(1,2) by (auto split: list.splits)
  with rs_effect_announced [of Length_field Coding_field RS_READING_CONTENT_LENGTH ieq hs x k
      RS_CONTENT_LENGTH_READ "of_nat (length d)"] Sized
  show ?thesis by (auto simp: rs_settled_def)
next
  case (Chunked cs l ts)
  then obtain x where "values_of (rs_kind ieq) Coding_field hs = [x]"
    "chunked_role (map (\<lambda>e. ieq e ''chunked'') (list_elements x)) = CHUNKED_AT_END"
    "values_of (rs_kind ieq) Length_field hs = []"
    using assms(1) by (auto split: list.splits)
  with rs_effect_announced [of Coding_field Length_field RS_READING_ENCODING ieq hs x k
      RS_CHUNKED_ENCODING_READ k] Chunked
  show ?thesis by (auto simp: rs_settled_def)
qed (use assms in simp)

lemma rs_reads_body:
  assumes "wf_body b" and "rs_framing_of b k = (bt, k')"
  shows "yields (rs_next ieq) (rs_in RS_EXPECT_FIELD_NAME (bt, k')) (CRLF @ render_body b @ s)
    ((code_end_of_headers, CRLF) # body_tokens b) rs_at_start s"
proof (cases b)
  case No_body
  with assms rs_reads_end_of_headers [of RS_FORCE_NO_BODY ieq k s] show ?thesis
    by (auto simp: rs_body_state_def intro: yields_trans_Cons rs_reads_end_of_body)
next
  case (Sized d)
  have "unat (of_nat (length d) :: u64) = length d" using assms(1) Sized by (simp add: unat_of_nat)
  then have zero: "(of_nat (length d) :: u64) = 0 \<longleftrightarrow> d = []" by (auto simp: word_unat_eq_iff)
  note headers = rs_reads_end_of_headers [of RS_CONTENT_LENGTH_READ ieq k' "d @ s"]
  show ?thesis
  proof (cases "d = []")
    case True
    with Sized assms headers show ?thesis
      by (auto simp: rs_body_state_def intro: yields_trans_Cons rs_reads_end_of_body)
  next
    case False
    have "yields (rs_next ieq) (rs_in RS_EXPECT_BODY (RS_CONTENT_LENGTH_READ, of_nat (length d)))
        (d @ s) ((code_body_chunk, d) # [(code_end_of_body, []), (code_end_of_message, [])]) rs_at_start s"
      using False assms(1) Sized by (intro yields_trans_Cons [OF rs_reads_sized rs_reads_end_of_body]) simp_all
    with Sized assms headers zero False show ?thesis
      by (auto simp: rs_body_state_def intro: yields_trans_Cons)
  qed
next
  case (Chunked cs l ts)
  let ?P = "rs_in RS_EXPECT_CHUNK_SIZE (RS_CHUNKED_ENCODING_READ, k')"
  have "yields (rs_next ieq) (rs_st RS_EXPECT_CHUNK_SIZE)
      (concat (map render_chunk cs) @ render_chunk_line l @ render_fields ts @ CRLF @ s)
      (concat (map chunk_tokens cs) @ chunk_line_tokens code_end_of_body l)
      (rs_chunk RS_EXPECT_TRAILER_NAME 0) (render_fields ts @ CRLF @ s)"
    using assms(1) Chunked by (intro rs_chunks.chunks) simp_all
  then have chunks: "yields (rs_next ieq) ?P
      (concat (map render_chunk cs) @ render_chunk_line l @ render_fields ts @ CRLF @ s)
      (concat (map chunk_tokens cs) @ chunk_line_tokens code_end_of_body l)
      (rs_st RS_EXPECT_TRAILER_NAME) (render_fields ts @ CRLF @ s)"
    by (rule yields_conseq) (simp_all add: rs_in_def rs_st_simps)
  have "yields (rs_next ieq) (rs_st RS_EXPECT_TRAILER_NAME) (render_fields ts @ CRLF @ s)
      (fields_tokens code_trailer_name code_trailer_value ts) (rs_st RS_EXPECT_TRAILER_NAME) (CRLF @ s)"
    using assms(1) Chunked rs_trailers.whole_section [of ts "()" "()"] by (simp add: section_effect_unit)
  from yields_trans [OF chunks yields_trans [OF this rs_reads_end_of_message]]
    rs_reads_end_of_headers [of RS_CHUNKED_ENCODING_READ ieq k']
  show ?thesis using assms Chunked by (auto simp: rs_body_state_def intro: yields_trans_Cons)
qed

section \<open>A client that tells the method\<close>

text \<open>The duty of a client of the response reader: \<open>set_method()\<close> at every status code,
  before the next call of \<open>next()\<close>.\<close>

definition rs_client_next :: "iequals \<Rightarrow> octets \<Rightarrow> response \<Rightarrow> fault + response" where
  "rs_client_next ieq meth r =
     (if cur_code r = code_status_code
      then (case rs_set_method meth r of Inl f \<Rightarrow> Inl f | Inr r1 \<Rightarrow> rs_next ieq r1)
      else rs_next ieq r)"

lemma rs_client_gives:
  assumes "gives (rs_next ieq) r ts r'" and "cur_code r \<noteq> code_status_code"
    and "code_status_code \<notin> fst ` set (butlast ts)"
  shows "gives (rs_client_next ieq meth) r ts r'"
  using assms
proof (induction ts arbitrary: r)
  case (Cons t ts)
  then obtain r1 where r1: "rs_next ieq r = Inr r1" "(cur_code r1, token_prefix r1) = t"
    "gives (rs_next ieq) r1 ts r'" by auto
  have "gives (rs_client_next ieq meth) r1 ts r'"
  proof (cases ts)
    case Nil
    with r1(3) show ?thesis by simp
  next
    case (Cons u us)
    with Cons.prems(3) r1(2) have "cur_code r1 \<noteq> code_status_code" by auto
    with Cons r1(3) Cons.prems(3) show ?thesis by (intro Cons.IH) auto
  qed
  moreover have "rs_client_next ieq meth r = Inr r1"
    using r1(1) Cons.prems(2) by (simp add: rs_client_next_def)
  ultimately show ?case using r1(2) by simp
qed simp

text \<open>What \<open>set_method()\<close> settles.\<close>

lemma rs_set_method_status:
  assumes "in_range r" and "cur_code r = code_status_code" and "token_prefix r = c"
    and "length c = 3" and "list_all isdigit c"
    and "forbids_body meth (the (decimal_value c)) \<or>
      \<not> (the (decimal_value c) div 100 = 2 \<and> meth = ''CONNECT'')"
  shows "\<exists>k. rs_set_method meth r =
    Inr (r\<lparr>resp_body_type := if forbids_body meth (the (decimal_value c)) then RS_FORCE_NO_BODY
                             else RS_CONNECTION_DELIMITED, body_size := k\<rparr>)"
proof -
  obtain x y z where c: "c = [x, y, z]"
    using assms(4) by (metis length_0_conv length_Suc_conv numeral_3_eq_3)
  with assms(5) obtain n where n: "n < 1000" "decimal_value c = Some n" "status_code_decode c = Inr (of_nat n)"
    using status_code_decode_digits [of x y z] by auto
  have word: "unat (of_nat n :: 16 word) = n" using n(1) by (simp add: unat_of_nat)
  then have "(of_nat n :: 16 word) div 100 = of_nat (n div 100)"
    by (simp add: word_unat_eq_iff unat_div unat_of_nat)
  moreover have small: "(of_nat m :: 16 word) = of_nat l \<longleftrightarrow> m = l" if "m < 1000" "l < 1000" for m l
    using that by (simp add: word_unat_eq_iff unat_of_nat)
  ultimately have cls: "(of_nat n :: 16 word) div 100 = 1 \<longleftrightarrow> n div 100 = 1"
    "(of_nat n :: 16 word) div 100 = 2 \<longleftrightarrow> n div 100 = 2"
    "(of_nat n :: 16 word) = 204 \<longleftrightarrow> n = 204" "(of_nat n :: 16 word) = 304 \<longleftrightarrow> n = 304"
    using n(1) small [of "n div 100" 1] small [of "n div 100" 2] small [of n 204] small [of n 304]
    by simp_all
  have "rs_value_status_code r = Inr (of_nat n)"
    using assms(1-3) n(3) by (simp add: rs_value_status_code_def in_range_def token_prefix_def rest_def)
  then have set_method: "rs_set_method meth r =
      (if forbids_body meth n then Inr (r\<lparr>resp_body_type := RS_FORCE_NO_BODY, body_size := 0\<rparr>)
       else if n div 100 = 2 \<and> meth = ''CONNECT''
       then Inr (r\<lparr>resp_body_type := RS_FORCE_NO_BODY_AND_STOP, body_size := 0\<rparr>)
       else Inr (r\<lparr>resp_body_type := RS_CONNECTION_DELIMITED\<rparr>))"
    using assms(2) by (simp only: rs_set_method_def forbids_body_def Let_def cls sum.case) simp
  have same: "r\<lparr>resp_body_type := RS_CONNECTION_DELIMITED\<rparr> =
      r\<lparr>resp_body_type := RS_CONNECTION_DELIMITED, body_size := body_size r\<rparr>"
    by (cases r) simp
  show ?thesis
  proof (cases "forbids_body meth n")
    case True
    with n(2) show ?thesis by (auto simp: set_method)
  next
    case False
    with assms(6) n(2) have "rs_set_method meth r = Inr (r\<lparr>resp_body_type := RS_CONNECTION_DELIMITED\<rparr>)"
      by (auto simp: set_method)
    with False n(2) same show ?thesis by (intro exI [of _ "body_size r"]) simp
  qed
qed

lemma rs_reads_up_to_status:
  assumes "isdigit d" and "d \<noteq> CHR ''0''" and "length c = 3" and "list_all isdigit c"
  shows "yields (rs_next ieq) (rs_in RS_EXPECT_VERSION_STATIC_STR f)
    (rs_static_str @ [d] @ '' '' @ c @ s)
    [(code_skip, rs_static_str), (code_version, [d]), (code_skip, '' ''), (code_status_code, c)]
    (rs_in RS_EXPECT_SP_AFTER_STATUS_CODE f) s"
  using assms
  by (intro yields_trans_Cons [OF rs_reads_static_str yields_trans_Cons [OF rs_reads_version
        yields_trans_Cons [OF rs_reads_sp_after_version rs_reads_status_code]]])

lemma rs_reads_after_status:
  assumes "bt \<noteq> RS_UNKNOWN_BODY" and "list_all is_reason_phrase_char p" and "list_all wf_field hs"
    and "rs_effect ieq hs (bt, k) = Some (rs_framing_of b k)" and "wf_body b"
  shows "yields (rs_next ieq) (rs_in RS_EXPECT_SP_AFTER_STATUS_CODE (bt, k))
    ('' '' @ p @ CRLF @ render_fields hs @ CRLF @ render_body b @ s)
    ([(code_skip, '' ''), (code_reason_phrase, p), (code_skip, CRLF)] @
     fields_tokens code_field_name code_field_value hs @ [(code_end_of_headers, CRLF)] @ body_tokens b)
    rs_at_start s"
proof -
  obtain bt' k' where f: "rs_framing_of b k = (bt', k')" by force
  let ?rest = "CRLF @ render_body b @ s"
  have line: "yields (rs_next ieq) (rs_in RS_EXPECT_SP_AFTER_STATUS_CODE (bt, k))
      ('' '' @ p @ CRLF @ render_fields hs @ ?rest)
      [(code_skip, '' ''), (code_reason_phrase, p), (code_skip, CRLF)]
      (rs_in RS_EXPECT_FIELD_NAME (bt, k)) (render_fields hs @ ?rest)"
    using assms(1,2)
    by (intro yields_trans_Cons [OF rs_reads_sp_after_status_code yields_trans_Cons
          [OF rs_reads_reason_phrase rs_reads_crlf_after_reason_phrase]])
  have "yields (rs_next ieq) (rs_in RS_EXPECT_FIELD_NAME (bt, k)) (render_fields hs @ ?rest)
      (fields_tokens code_field_name code_field_value hs) (rs_in RS_EXPECT_FIELD_NAME (bt', k')) ?rest"
    using assms(3,4) f by (intro rs_headers.whole_section) simp_all
  from yields_trans [OF line yields_trans [OF this rs_reads_body [OF assms(5) f]]] show ?thesis by simp
qed

lemma butlast_codes: "c \<notin> fst ` set ts \<Longrightarrow> c \<notin> fst ` set (butlast ts)"
  by (auto dest: in_set_butlastD)

lemma status_not_in_body: "code_status_code \<notin> fst ` set (body_tokens b)"
  by (cases b) (auto simp: field_tokens_def chunk_tokens_def chunk_line_tokens_def split: if_splits)

lemma status_not_in_fields: "code_status_code \<notin> fst ` set (fields_tokens code_field_name code_field_value hs)"
  by (auto simp: field_tokens_def)

lemma rs_reads_response:
  assumes "wf_response ieq meth m"
  shows "yields (rs_client_next ieq meth) rs_at_start (render_response m @ s) (response_tokens m)
    rs_at_start s"
proof -
  note wf = assms [unfolded wf_response_def]
  let ?c = "sm_status m" and ?n = "the (decimal_value (sm_status m))"
  let ?bt = "if forbids_body meth ?n then RS_FORCE_NO_BODY else RS_CONNECTION_DELIMITED"
  let ?ts1 = "[(code_skip, rs_static_str), (code_version, [sm_minor m]), (code_skip, '' ''),
    (code_status_code, ?c)]"
  let ?t2 = "(code_skip, '' '')"
  let ?ts2 = "[(code_reason_phrase, sm_reason m), (code_skip, CRLF)] @
     fields_tokens code_field_name code_field_value (sm_fields m) @
     [(code_end_of_headers, CRLF)] @ body_tokens (sm_body m)"
  let ?s2 = "'' '' @ sm_reason m @ CRLF @ render_fields (sm_fields m) @ CRLF @ render_body (sm_body m) @ s"
  have "\<exists>r3. gives (rs_client_next ieq meth) r (?ts1 @ ?t2 # ?ts2) r3 \<and> rs_at_start r3 \<and> ahead r3 s"
    if r: "rs_at_start r" "ahead r (render_response m @ s)" for r
  proof -
    have "rs_in RS_EXPECT_VERSION_STATIC_STR (RS_UNKNOWN_BODY, body_size r) r"
      using r(1) by (simp add: rs_at_start_def rs_in_def)
    moreover have "ahead r (rs_static_str @ [sm_minor m] @ '' '' @ ?c @ ?s2)"
      using r(2) by (simp add: render_response_def)
    ultimately have "\<exists>r1. gives (rs_next ieq) r ?ts1 r1 \<and>
        rs_in RS_EXPECT_SP_AFTER_STATUS_CODE (RS_UNKNOWN_BODY, body_size r) r1 \<and> ahead r1 ?s2"
      using wf by (intro yieldsD [OF rs_reads_up_to_status]) simp_all
    then obtain r1 where r1: "gives (rs_next ieq) r ?ts1 r1"
      "rs_in RS_EXPECT_SP_AFTER_STATUS_CODE (RS_UNKNOWN_BODY, body_size r) r1" "ahead r1 ?s2" by blast
    have client1: "gives (rs_client_next ieq meth) r ?ts1 r1"
      using r1(1) r(1) by (intro rs_client_gives) (auto simp: rs_at_start_def)
    have status: "cur_code r1 = code_status_code" "token_prefix r1 = ?c" using r1(1) by auto
    then obtain k where set_method: "rs_set_method meth r1 = Inr (r1\<lparr>resp_body_type := ?bt, body_size := k\<rparr>)"
      using rs_set_method_status [of r1 ?c meth] wf r1(3) by (auto simp: ahead_def split: if_splits)
    let ?r2 = "r1\<lparr>resp_body_type := ?bt, body_size := k\<rparr>"
    have "rs_in RS_EXPECT_SP_AFTER_STATUS_CODE (?bt, k) ?r2" using r1(2) by (simp add: rs_in_def)
    moreover have "ahead ?r2 ?s2" using r1(3) by (simp add: ahead_def in_range_def rest_def)
    moreover have "rs_effect ieq (sm_fields m) (?bt, k) = Some (rs_framing_of (sm_body m) k)"
      using wf rs_effect_forced [of ieq "sm_fields m" k]
        rs_effect_framed [of ieq "sm_fields m" "sm_body m" k]
      by (simp split: if_splits)
    ultimately have "\<exists>r3. gives (rs_next ieq) ?r2 ([?t2, (code_reason_phrase, sm_reason m), (code_skip, CRLF)] @
        fields_tokens code_field_name code_field_value (sm_fields m) @
        [(code_end_of_headers, CRLF)] @ body_tokens (sm_body m)) r3 \<and> rs_at_start r3 \<and> ahead r3 s"
      using wf by (intro yieldsD [OF rs_reads_after_status]) simp_all
    then obtain r3 where r3: "gives (rs_next ieq) ?r2 (?t2 # ?ts2) r3" "rs_at_start r3" "ahead r3 s"
      by auto
    then obtain r4 where r4: "rs_next ieq ?r2 = Inr r4" "(cur_code r4, token_prefix r4) = ?t2"
      "gives (rs_next ieq) r4 ?ts2 r3" by auto
    have "code_status_code \<notin> fst ` set ?ts2"
      using status_not_in_body [of "sm_body m"] status_not_in_fields [of "sm_fields m"]
      by (simp add: image_Un del: set_concat)
    then have "code_status_code \<notin> fst ` set (butlast ?ts2)" by (rule butlast_codes)
    then have "gives (rs_client_next ieq meth) r4 ?ts2 r3"
      using r4(2,3) by (intro rs_client_gives) auto
    moreover have "rs_client_next ieq meth r1 = Inr r4"
      using status(1) set_method r4(1) by (simp add: rs_client_next_def)
    ultimately have "gives (rs_client_next ieq meth) r1 (?t2 # ?ts2) r3" using r4(2) by auto
    with client1 r3 show ?thesis unfolding gives_append by blast
  qed
  then show ?thesis by (simp add: yields_def response_tokens_def)
qed

lemma rs_reads_responses:
  assumes "list_all (wf_response ieq meth) ms"
  shows "yields (rs_client_next ieq meth) rs_at_start (concat (map render_response ms) @ s)
    (concat (map response_tokens ms)) rs_at_start s"
  using assms by (intro yields_concat rs_reads_response) (simp add: list_all_iff)

text \<open>A reader that is given responses as its first buffer, and the end of that buffer while the
  connection is open.\<close>

lemma rs_new_ahead:
  "rs_at_start (rs_new n\<lparr>ibuffer := buf, idx := 0\<rparr>)" "ahead (rs_new n\<lparr>ibuffer := buf, idx := 0\<rparr>) buf"
  by (simp_all add: rs_new_def rs_at_start_def ahead_def in_range_def rest_def final_error_def)

lemma rs_next_end:
  assumes "rs_at_start r" and "ahead r []"
  shows "rs_client_next ieq meth r = Inr (consume r)" and "rest (consume r) = []"
proof -
  have "idx (consume r) = length (ibuffer r)"
    using idle_consume [OF assms(2)] consume_idx_le [of r] assms(2)
    by (auto simp: idle_def rest_def ahead_def in_range_def)
  moreover have "connection_flags (consume r) = 0"
    using assms(1) by (simp add: rs_at_start_def consume_def)
  ultimately have "rs_next ieq r = Inr (consume r)"
    using assms(1) by (subst rs_next.simps) (simp add: rs_at_start_def rs_exhausted_def)
  then show "rs_client_next ieq meth r = Inr (consume r)"
    using assms(1) by (simp add: rs_client_next_def rs_at_start_def)
  show "rest (consume r) = []" using idle_consume [OF assms(2)] by (simp add: idle_def)
qed

lemma response_tokens_no_error: "t \<in> set (response_tokens m) \<Longrightarrow> symbol_convert (fst t) \<noteq> symbol_error"
  using body_tokens_no_error [of t "sm_body m"] fields_tokens_no_error [of t "sm_fields m"]
  by (auto simp: response_tokens_def simp del: set_concat)

end
