(* ===== verification/Split_Stream.thy ===== *)
theory Split_Stream
  imports Message_Stream
begin

text \<open>
  The whole token stream under every way of cutting the input. A client is given the input in
  pieces: it appends each piece to the octets the reader has left, sets the buffer, and pulls the
  tokens. Where the cut lies changes only how runs of octets to skip and runs of body octets are
  divided among tokens. The locale \<open>incremental_reader\<close> has what a reader promises of a single
  call of \<open>next()\<close>, its theorem is about all pieces.
\<close>

section \<open>Tokens up to their division\<close>

definition dividable :: "code \<Rightarrow> bool" where
  "dividable c \<longleftrightarrow> c \<in> {code_skip, code_body_chunk}"

text \<open>Neighbouring dividable tokens of the same code are one.\<close>

fun glue :: "token \<Rightarrow> token list \<Rightarrow> token list" where
  "glue (c, t) [] = [(c, t)]"
| "glue (c, t) ((c', t') # ts) =
     (if c = c' \<and> dividable c then (c, t @ t') # ts else (c, t) # (c', t') # ts)"

definition merged :: "token list \<Rightarrow> token list" where
  "merged ts = foldr glue ts []"

lemma merged_simps [simp]: "merged [] = []" "merged (t # ts) = glue t (merged ts)"
  by (simp_all add: merged_def)

lemma merged_append: "merged (ts @ us) = foldr glue ts (merged us)"
  by (simp add: merged_def)

lemma glue_append:
  "dividable c \<Longrightarrow> glue (c, t @ u) ts = glue (c, t) (glue (c, u) ts)"
  by (cases ts) auto

section \<open>A client that is given pieces\<close>

definition more_data :: "octets \<Rightarrow> 'x reader_data_scheme \<Rightarrow> 'x reader_data_scheme" where
  "more_data d r = r\<lparr>ibuffer := ibuffer r @ d\<rparr>"

definition load :: "octets \<Rightarrow> 'x reader_data_scheme \<Rightarrow> 'x reader_data_scheme" where
  "load d r = r\<lparr>ibuffer := rest r @ d, idx := 0\<rparr>"

abbreviation waiting :: "'x reader_data_scheme \<Rightarrow> bool" where
  "waiting r \<equiv> cur_code r = code_error_insufficient_data"

lemma more_load [simp]: "more_data d (load e r) = load (e @ d) r"
  by (simp add: more_data_def load_def)

lemma more_fields [simp]:
  "cur_code (more_data d r) = cur_code r" "token_size (more_data d r) = token_size r"
  "idx (more_data d r) = idx r" "cur_code (load d r) = cur_code r" "token_size (load d r) = token_size r"
  by (simp_all add: more_data_def load_def)

lemma rest_more_data: "in_range r \<Longrightarrow> rest (more_data d r) = rest r @ d"
  by (simp add: more_data_def rest_more)

lemma reader_updates_more [simp]:
  "(more_data d r)\<lparr>token_size := n\<rparr> = more_data d (r\<lparr>token_size := n\<rparr>)"
  "(more_data d r)\<lparr>cur_code := c\<rparr> = more_data d (r\<lparr>cur_code := c\<rparr>)"
  "(more_data d r)\<lparr>body_size := k\<rparr> = more_data d (r\<lparr>body_size := k\<rparr>)"
  "(more_data d r)\<lparr>idx := i\<rparr> = more_data d (r\<lparr>idx := i\<rparr>)"
  by (simp_all add: more_data_def)

text \<open>Matchers that have seen the end of what they match do not look at more data.\<close>

lemma liberal_crlf_more:
  "liberal_crlf_match v \<noteq> crlf_insufficient_data \<Longrightarrow> liberal_crlf_match (v @ w) = liberal_crlf_match v"
  by (cases v; cases "tl v") (auto simp: liberal_crlf_match_def)

lemma strict_crlf_more: "\<not> length v < 2 \<Longrightarrow> strict_crlf_match (v @ w) = strict_crlf_match v"
  by (auto simp: strict_crlf_match_def nth_append)

lemma match_loop_more: "match_loop p v \<noteq> length v \<Longrightarrow> match_loop p (v @ w) = match_loop p v"
  using match_loop_le [of p v] by (simp add: match_loop_append_stop)

lemma matchers_more:
  "field_name_match v \<noteq> length v \<Longrightarrow> field_name_match (v @ w) = field_name_match v"
  "field_value_match v \<noteq> length v \<Longrightarrow> field_value_match (v @ w) = field_value_match v"
  "ows_match v \<noteq> length v \<Longrightarrow> ows_match (v @ w) = ows_match v"
  "reason_phrase_match v \<noteq> length v \<Longrightarrow> reason_phrase_match (v @ w) = reason_phrase_match v"
  "chunk_size_match v \<noteq> length v \<Longrightarrow> chunk_size_match (v @ w) = chunk_size_match v"
  by (simp_all add: match_loop_more field_name.eq_match_loop field_value.eq_match_loop ows.eq_match_loop
      reason_phrase.eq_match_loop chunk_size.eq_match_loop)

lemma colon_more:
  assumes "v \<noteq> []" and "\<not> list_all p (tl v)"
  shows "\<not> list_all p (tl (v @ w))" and "match_loop p (tl (v @ w)) = match_loop p (tl v)"
proof -
  have "match_loop p (tl v) \<noteq> length (tl v)"
    using assms(2) unfolding match_loop_full by (simp add: list_all_iff)
  then show "match_loop p (tl (v @ w)) = match_loop p (tl v)" using assms(1) by (simp add: match_loop_more)
  show "\<not> list_all p (tl (v @ w))" using assms by simp
qed

lemma static_more:
  assumes "take (length str) v \<noteq> take (length v) str"
  shows "take (length str) (v @ w) \<noteq> take (length (v @ w)) str"
proof
  assume "take (length str) (v @ w) = take (length (v @ w)) str"
  then have "take (length v) (take (length str) (v @ w)) = take (length v) (take (length (v @ w)) str)" by simp
  then have "take (length str) v = take (length v) str"
    by (simp add: min.commute min_def split: if_splits)
  with assms show False ..
qed

lemma body_left:
  assumes "l < unat (k :: 'a :: len word)"
  shows "k - of_nat l \<noteq> 0"
proof
  assume "k - of_nat l = 0"
  then have "unat k = l mod 2 ^ LENGTH('a)" by (simp add: unat_of_nat)
  with assms mod_less_eq_dividend [of l "2 ^ LENGTH('a)"] show False by linarith
qed

lemma unat_body_left:
  assumes "l < unat (k :: 'a :: len word)"
  shows "unat (k - of_nat l) = unat k - l"
proof -
  have "l < 2 ^ LENGTH('a)" using assms less_trans [OF assms unsigned_less] by simp
  then have "unat (of_nat l :: 'a word) = l" by (simp add: unat_of_nat)
  with assms show ?thesis by (simp add: unat_sub_if')
qed

lemma map_outcome_guarded [simp]: "map_outcome f (guarded x g) = guarded x (\<lambda>a. map_outcome f (g a))"
  by (cases x) simp_all

lemma matchers_le:
  "field_name_match v \<le> length v" "field_value_match v \<le> length v" "ows_match v \<le> length v"
  "chunk_size_match v \<le> length v" "reason_phrase_match v \<le> length v"
  by (rule field_name.bounded field_value.bounded ows.bounded chunk_size.bounded reason_phrase.bounded)+

lemmas scan_more = liberal_crlf_more strict_crlf_more match_loop_more matchers_more

text \<open>\<open>set_buffer()\<close> with the octets left over and the new ones, then the loop that pulls the
  tokens. The client stops at a fault or an error.\<close>

type_synonym 'r stream_end = "token list \<times> (fault + 'r)"

fun feed ::
  "(octets \<Rightarrow> 'x reader_data_scheme \<Rightarrow> fault + 'x reader_data_scheme) \<Rightarrow>
   ('x reader_data_scheme \<Rightarrow> fault + 'x reader_data_scheme) \<Rightarrow> octets list \<Rightarrow>
   'x reader_data_scheme \<Rightarrow> 'x reader_data_scheme stream_end option" where
  "feed set_buffer nxt [] r = Some ([], Inr r)"
| "feed set_buffer nxt (d # ds) r =
     (case set_buffer (rest r @ d) r of
        Inl f \<Rightarrow> Some ([], Inl f)
      | Inr r0 \<Rightarrow>
          Option.bind (pull nxt cur_code seen r0) (\<lambda>(ts, x).
            case x of
              Inl f \<Rightarrow> Some (ts, Inl f)
            | Inr r' \<Rightarrow>
                if waiting r'
                then map_option (\<lambda>(us, y). (ts @ us, y)) (feed set_buffer nxt ds r')
                else Some (ts, Inr r')))"

text \<open>The loop from the result of a call of \<open>next()\<close> on.\<close>

definition pulled_from ::
  "('x reader_data_scheme \<Rightarrow> fault + 'x reader_data_scheme) \<Rightarrow> fault + 'x reader_data_scheme \<Rightarrow>
   'x reader_data_scheme stream_end option" where
  "pulled_from nxt x = (case x of Inl f \<Rightarrow> Some ([], Inl f) | Inr r \<Rightarrow> pull nxt cur_code seen r)"

text \<open>What a client does with more data behind the end of a loop, and when two ends are the same: the
  same fault, the same error, or readers that wait at the same point of the stream.\<close>

definition continued ::
  "('x reader_data_scheme \<Rightarrow> fault + 'x reader_data_scheme) \<Rightarrow> octets \<Rightarrow>
   fault + 'x reader_data_scheme \<Rightarrow> 'x reader_data_scheme stream_end option" where
  "continued nxt d x =
     (case x of
        Inl f \<Rightarrow> Some ([], Inl f)
      | Inr r \<Rightarrow> if waiting r then pulled_from nxt (nxt (load d r)) else Some ([], Inr r))"

fun same_end ::
  "('x reader_data_scheme \<Rightarrow> 'x reader_data_scheme \<Rightarrow> bool) \<Rightarrow> fault + 'x reader_data_scheme \<Rightarrow>
   fault + 'x reader_data_scheme \<Rightarrow> bool" where
  "same_end sim (Inl f) (Inl g) = (f = g)"
| "same_end sim (Inr r) (Inr s) = (cur_code r = cur_code s \<and> (waiting s \<longrightarrow> sim r s))"
| "same_end sim _ _ = False"

section \<open>The contract of a reader\<close>

text \<open>A token that more data would have made longer: the next call finds the buffer exhausted, and the
  data that follow give the rest of the token, or what comes after it.\<close>

definition extended ::
  "('x reader_data_scheme \<Rightarrow> fault + 'x reader_data_scheme) \<Rightarrow>
   ('x reader_data_scheme \<Rightarrow> 'x reader_data_scheme \<Rightarrow> bool) \<Rightarrow> octets \<Rightarrow>
   'x reader_data_scheme \<Rightarrow> 'x reader_data_scheme \<Rightarrow> bool" where
  "extended nxt sim d r R \<longleftrightarrow> (\<exists>r1. nxt r = Inr r1 \<and> waiting r1 \<and> cur_code R = cur_code r \<and>
     dividable (cur_code r) \<and>
     ((\<exists>s. nxt (load d r1) = Inr s \<and> cur_code s = cur_code r \<and>
        token_prefix R = token_prefix r @ token_prefix s \<and> rel_sum (=) sim (nxt R) (nxt s)) \<or>
      token_prefix R = token_prefix r \<and> rel_sum (=) sim (nxt R) (nxt (load d r1))))"

locale incremental_reader = pulled_reader nxt cur_code inv pending
  for nxt :: "'x reader_data_scheme \<Rightarrow> fault + 'x reader_data_scheme"
    and inv :: "'x reader_data_scheme \<Rightarrow> bool"
    and pending :: "'x reader_data_scheme \<Rightarrow> nat" +
  fixes sim :: "'x reader_data_scheme \<Rightarrow> 'x reader_data_scheme \<Rightarrow> bool"
    and set_buffer :: "octets \<Rightarrow> 'x reader_data_scheme \<Rightarrow> fault + 'x reader_data_scheme"
  assumes set_buffer_waiting: "waiting r \<Longrightarrow> set_buffer (rest r @ d) r = nxt (load d r)"
    and sim_refl: "sim r r"
    and sim_trans: "sim r s \<Longrightarrow> sim s t \<Longrightarrow> sim r t"
    and inv_range: "inv r \<Longrightarrow> in_range r"
    and load_inv: "inv r \<Longrightarrow> waiting r \<Longrightarrow> inv (load d r)"
    and more_inv: "inv r \<Longrightarrow> inv (more_data d r)"
    and sim_next: "inv r \<Longrightarrow> inv s \<Longrightarrow> sim r s \<Longrightarrow> rel_sum (=) sim (nxt r) (nxt s)"
    and sim_token: "sim r s \<Longrightarrow> cur_code s = cur_code r \<and>
      (symbol_convert (cur_code r) \<noteq> symbol_error \<longrightarrow> token_prefix s = token_prefix r)"
    and fault_more: "inv r \<Longrightarrow> nxt r = Inl f \<Longrightarrow> nxt (more_data d r) = Inl f"
    and resume: "inv r \<Longrightarrow> nxt r = Inr r1 \<Longrightarrow> waiting r1 \<Longrightarrow>
      rel_sum (=) sim (nxt (more_data d r)) (nxt (load d r1))"
    and next_more: "inv r \<Longrightarrow> nxt r = Inr r' \<Longrightarrow> \<not> waiting r' \<Longrightarrow>
      nxt (more_data d r) = Inr (more_data d r') \<or>
      (\<exists>R. nxt (more_data d r) = Inr R \<and> extended nxt sim d r' R)"
begin

abbreviation pulls :: "'x reader_data_scheme \<Rightarrow> 'x reader_data_scheme stream_end option" where
  "pulls \<equiv> pull nxt cur_code seen"

abbreviation go :: "fault + 'x reader_data_scheme \<Rightarrow> 'x reader_data_scheme stream_end option" where
  "go \<equiv> pulled_from nxt"

lemma pulls_error: "symbol_convert (cur_code r) = symbol_error \<Longrightarrow> pulls r = Some ([], Inr r)"
  by (simp add: pull.simps)

lemma pulls_token:
  "symbol_convert (cur_code r) \<noteq> symbol_error \<Longrightarrow>
   pulls r = map_option (\<lambda>(ts, x). (seen r # ts, x)) (go (nxt r))"
  by (subst pull.simps) (auto simp: pulled_from_def map_option_case split: sum.split option.split)

lemma pulls_Nil: "pulls r = Some ([], x) \<longleftrightarrow> symbol_convert (cur_code r) = symbol_error \<and> x = Inr r"
  by (cases "symbol_convert (cur_code r) = symbol_error") (auto simp: pulls_error pulls_token)

lemma pulls_Cons:
  "pulls r = Some (t # ts, x) \<longleftrightarrow>
   symbol_convert (cur_code r) \<noteq> symbol_error \<and> t = seen r \<and> go (nxt r) = Some (ts, x)"
  by (cases "symbol_convert (cur_code r) = symbol_error") (auto simp: pulls_error pulls_token)

text \<open>Readers at the same point of the stream give the same tokens.\<close>

lemma go_sim:
  assumes "rel_sum (=) sim a b" and "go a = Some (ts, x)"
    and "\<And>r. a = Inr r \<Longrightarrow> inv r" and "\<And>r. b = Inr r \<Longrightarrow> inv r"
  shows "\<exists>y. go b = Some (ts, y) \<and> rel_sum (=) sim x y"
  using assms
proof (induction ts arbitrary: a b)
  case Nil
  then show ?case
    by (cases a; cases b) (auto simp: pulled_from_def pulls_Nil dest: sim_token)
next
  case (Cons t ts)
  then obtain r s where ab: "a = Inr r" "b = Inr s" "sim r s" "inv r" "inv s"
    by (cases a; cases b) (auto simp: pulled_from_def)
  then have "pulls r = Some (t # ts, x)" using Cons.prems(2) by (simp add: pulled_from_def)
  then have ok: "symbol_convert (cur_code r) \<noteq> symbol_error" "t = seen r"
    and run: "go (nxt r) = Some (ts, x)" by (simp_all add: pulls_Cons)
  have "\<exists>y. go (nxt s) = Some (ts, y) \<and> rel_sum (=) sim x y"
    by (rule Cons.IH [OF sim_next [OF ab(4,5,3)] run]) (use ab next_inv in blast)+
  with sim_token [OF ab(3)] ok ab(2) show ?case by (auto simp: pulled_from_def pulls_token seen_def)
qed

lemma go_total: "inv q \<Longrightarrow> \<exists>ts x. go (nxt q) = Some (ts, x)"
  using pull_ends [where view = seen] next_inv [of q]
  by (cases "nxt q") (auto simp: pulled_from_def dest!: meta_spec)

lemma go_sim_back:
  assumes "inv q" and "inv s" and "rel_sum (=) sim (nxt q) (nxt s)" and "go (nxt s) = Some (us, y)"
  shows "\<exists>z. go (nxt q) = Some (us, z) \<and> same_end sim z y"
proof -
  obtain ts z where run: "go (nxt q) = Some (ts, z)" using go_total [OF assms(1)] by blast
  from go_sim [OF assms(3) run] next_inv assms(1,2,4) have "ts = us" "rel_sum (=) sim z y" by fastforce+
  then have "same_end sim z y" by (cases z; cases y) (auto dest: sim_token)
  with run \<open>ts = us\<close> show ?thesis by blast
qed

text \<open>Two pieces at once.\<close>

lemma go_more:
  assumes "inv q" and "go (nxt q) = Some (ts, x)" and "continued nxt d x = Some (us, y)"
  shows "\<exists>vs z. go (nxt (more_data d q)) = Some (vs, z) \<and> merged vs = merged (ts @ us) \<and> same_end sim z y"
  using assms
proof (induction ts arbitrary: q)
  case Nil
  note inv = Nil.prems(1)
  show ?case
  proof (cases "nxt q")
    case (Inl f)
    with Nil.prems(2,3) have "us = []" "y = Inl f" by (auto simp: pulled_from_def continued_def)
    moreover have "go (nxt (more_data d q)) = Some ([], Inl f)"
      using fault_more [OF inv Inl, of d] by (simp add: pulled_from_def)
    ultimately show ?thesis by simp
  next
    case (Inr r')
    with Nil.prems(2) have err: "symbol_convert (cur_code r') = symbol_error" and x: "x = Inr r'"
      by (simp_all add: pulled_from_def pulls_Nil)
    show ?thesis
    proof (cases "waiting r'")
      case True
      have "inv (load d r')" using load_inv next_inv [OF inv Inr] True by blast
      from go_sim_back [OF more_inv [OF inv] this resume [OF inv Inr True]] True x Nil.prems(3)
      show ?thesis by (auto simp: continued_def)
    next
      case False
      with err have "nxt (more_data d q) = Inr (more_data d r')"
        using next_more [OF inv Inr False, of d] by (auto simp: extended_def dividable_def)
      with False err x Nil.prems(3) show ?thesis
        by (auto simp: continued_def pulled_from_def pulls_error)
    qed
  qed
next
  case (Cons t ts)
  then obtain r' where next_q: "nxt q = Inr r'" and "pulls r' = Some (t # ts, x)"
    by (cases "nxt q") (auto simp: pulled_from_def)
  then have ok: "symbol_convert (cur_code r') \<noteq> symbol_error" "t = seen r'" and run: "go (nxt r') = Some (ts, x)"
    by (simp_all add: pulls_Cons)
  have inv: "inv q" "inv r'" using Cons.prems(1) next_inv [OF Cons.prems(1) next_q] by simp_all
  have "\<not> waiting r'" using ok(1) by auto
  from next_more [OF inv(1) next_q this, of d] show ?case
  proof (elim disjE exE conjE)
    assume stable: "nxt (more_data d q) = Inr (more_data d r')"
    from Cons.IH [OF inv(2) run Cons.prems(3)] obtain vs z where
      vs: "go (nxt (more_data d r')) = Some (vs, z)" "merged vs = merged (ts @ us)" "same_end sim z y" by blast
    have "seen (more_data d r') = t"
      using ok(2) token_prefix_more [OF inv_range [OF inv(2)]] by (simp add: seen_def more_data_def)
    with stable vs ok show ?thesis by (auto simp: pulled_from_def pulls_token)
  next
    fix R assume R: "nxt (more_data d q) = Inr R" "extended nxt sim d r' R"
    have Rinv: "inv R" using next_inv [OF more_inv [OF inv(1)] R(1)] .
    from R(2) obtain r1 where r1: "nxt r' = Inr r1" "waiting r1" and code: "cur_code R = cur_code r'"
      "dividable (cur_code r')"
      and rest_of: "(\<exists>s. nxt (load d r1) = Inr s \<and> cur_code s = cur_code r' \<and>
        token_prefix R = token_prefix r' @ token_prefix s \<and> rel_sum (=) sim (nxt R) (nxt s)) \<or>
        token_prefix R = token_prefix r' \<and> rel_sum (=) sim (nxt R) (nxt (load d r1))"
      by (auto simp: extended_def)
    have inv1: "inv (load d r1)" using load_inv next_inv [OF inv(2) r1(1)] r1(2) by blast
    have x: "ts = []" "x = Inr r1" using run r1 by (simp_all add: pulled_from_def pulls_error)
    then have us: "go (nxt (load d r1)) = Some (us, y)" using Cons.prems(3) r1(2) by (simp add: continued_def)
    from rest_of show ?thesis
    proof (elim disjE exE conjE)
      fix s assume s: "nxt (load d r1) = Inr s" "cur_code s = cur_code r'"
        "token_prefix R = token_prefix r' @ token_prefix s" "rel_sum (=) sim (nxt R) (nxt s)"
      then obtain us' where us': "us = seen s # us'" "go (nxt s) = Some (us', y)"
        using us ok(1) by (cases us) (auto simp: pulled_from_def pulls_Nil pulls_Cons)
      from go_sim_back [OF Rinv next_inv [OF inv1 s(1)] s(4) us'(2)] obtain z where
        z: "go (nxt R) = Some (us', z)" "same_end sim z y" by blast
      have "merged (seen R # us') = merged (t # us)"
        using s(2,3) code us'(1) ok(2) by (simp add: seen_def glue_append)
      with z R(1) x ok(1) code show ?thesis by (auto simp: pulled_from_def pulls_token)
    next
      assume s: "token_prefix R = token_prefix r'" "rel_sum (=) sim (nxt R) (nxt (load d r1))"
      from go_sim_back [OF Rinv inv1 s(2) us] obtain z where
        z: "go (nxt R) = Some (us, z)" "same_end sim z y" by blast
      moreover have "seen R = t" using s(1) code ok(2) by (simp add: seen_def)
      ultimately show ?thesis using R(1) x ok(1) code by (auto simp: pulled_from_def pulls_token)
    qed
  qed
qed

text \<open>Any number of pieces.\<close>

lemma feed_Cons:
  "waiting r \<Longrightarrow> feed set_buffer nxt (d # ds) r =
     Option.bind (go (nxt (load d r))) (\<lambda>(ts, x).
       case x of
         Inl f \<Rightarrow> Some (ts, Inl f)
       | Inr r' \<Rightarrow>
           if waiting r' then map_option (\<lambda>(us, y). (ts @ us, y)) (feed set_buffer nxt ds r')
           else Some (ts, Inr r'))"
  by (auto simp: set_buffer_waiting pulled_from_def split: sum.split)

lemma feed_one: "waiting r \<Longrightarrow> feed set_buffer nxt [d] r = go (nxt (load d r))"
  by (subst feed_Cons) (auto split: option.split sum.split bind_split)

lemma same_end_refl: "same_end sim x x"
  by (cases x) (simp_all add: sim_refl)

lemma same_end_trans: "same_end sim x y \<Longrightarrow> same_end sim y z \<Longrightarrow> same_end sim x z"
  by (cases x; cases y; cases z) (auto intro: sim_trans)

lemma feed_pieces:
  assumes "inv r" and "waiting r" and "ds \<noteq> []"
  shows "\<exists>ts x us y. feed set_buffer nxt ds r = Some (ts, x) \<and>
    feed set_buffer nxt [concat ds] r = Some (us, y) \<and> merged ts = merged us \<and> same_end sim y x"
  using assms
proof (induction ds arbitrary: r)
  case (Cons d ds)
  have load: "inv (load d r)" by (rule load_inv [OF Cons.prems(1,2)])
  obtain ts x where run: "go (nxt (load d r)) = Some (ts, x)" using go_total [OF load] by blast
  show ?case
  proof (cases "ds = []")
    case True
    with run Cons.prems(2) show ?thesis by (auto simp del: feed.simps simp: feed_one same_end_refl)
  next
    case False
    show ?thesis
    proof (cases "\<exists>r1. x = Inr r1 \<and> waiting r1")
      case True
      then obtain r1 where r1: "x = Inr r1" "waiting r1" by blast
      have "inv r1"
        using run r1 pull_ends [where view = seen] next_inv [OF load]
        by (cases "nxt (load d r)") (fastforce simp: pulled_from_def)+
      from Cons.IH [OF this r1(2) False] obtain ts2 x2 us2 y2 where
        IH: "feed set_buffer nxt ds r1 = Some (ts2, x2)" "feed set_buffer nxt [concat ds] r1 = Some (us2, y2)"
          "merged ts2 = merged us2" "same_end sim y2 x2" by blast
      have "continued nxt (concat ds) x = Some (us2, y2)"
        using IH(2) r1 by (simp del: feed.simps add: feed_one continued_def)
      from go_more [OF load run this] obtain vs z where vs: "go (nxt (load (d @ concat ds) r)) = Some (vs, z)"
        "merged vs = merged (ts @ us2)" "same_end sim z y2" by auto
      have "feed set_buffer nxt (d # ds) r = Some (ts @ ts2, x2)"
        using feed_Cons [OF Cons.prems(2)] run r1 IH(1) by simp
      moreover have "merged (ts @ ts2) = merged vs" using vs(2) IH(3) by (simp add: merged_append)
      ultimately show ?thesis
        using vs(1) same_end_trans [OF vs(3) IH(4)] Cons.prems(2)
        by (simp del: feed.simps add: feed_one)
    next
      case stop: False
      then have "continued nxt (concat ds) x = Some ([], x)"
        by (cases x) (auto simp: continued_def)
      from go_more [OF load run this] obtain vs z where vs: "go (nxt (load (d @ concat ds) r)) = Some (vs, z)"
        "merged vs = merged ts" "same_end sim z x" by auto
      have "feed set_buffer nxt (d # ds) r = Some (ts, x)"
        using feed_Cons [OF Cons.prems(2)] run stop by (cases x) auto
      with vs Cons.prems(2) show ?thesis by (simp del: feed.simps add: feed_one)
    qed
  qed
qed simp

end

end
