(* ===== verification/Request_Split.thy ===== *)
theory Request_Split
  imports Request_Resume Request_Order Split_Stream
begin

text \<open>
  The request reader with more data behind its buffer: a call of \<open>next()\<close> that gives a token or
  an error gives the same with more data, unless the token is one that may be divided and it reaches
  the end of the buffer. This makes the reader an instance of \<open>incremental_reader\<close>.
\<close>

section \<open>A pass through the switch with more data\<close>

text \<open>The states whose token may be cut short by the end of the buffer.\<close>

definition rq_dividing :: "rq_state set" where
  "rq_dividing = {RQ_EXPECT_COLON, RQ_EXPECT_OWS_AFTER_COLON, RQ_EXPECT_BODY, RQ_EXPECT_CHUNK_DATA,
     RQ_EXPECT_TRAILER_COLON, RQ_EXPECT_OWS_AFTER_TRAILER_COLON}"

lemma rq_ready_more: "rq_ready r \<Longrightarrow> rq_ready (more_data d r)"
  using rq_inv_more [of r d] by (simp add: rq_ready_def more_data_def)

lemma rq_more_fields [simp]:
  "state (more_data d r) = state r" "version (more_data d r) = version r"
  "body_type (more_data d r) = body_type r" "body_size (more_data d r) = body_size r"
  by (simp_all add: more_data_def)

lemma rq_updates_more [simp]:
  "rq_token st c n (more_data d r) = more_data d (rq_token st c n r)"
  "rq_fail c (more_data d r) = more_data d (rq_fail c r)"
  "(more_data d r)\<lparr>state := st\<rparr> = more_data d (r\<lparr>state := st\<rparr>)"
  "(more_data d r)\<lparr>version := v\<rparr> = more_data d (r\<lparr>version := v\<rparr>)"
  "(more_data d r)\<lparr>body_type := b\<rparr> = more_data d (r\<lparr>body_type := b\<rparr>)"
  by (simp_all add: more_data_def rq_token_def rq_fail_def)

lemma rq_known_field_more:
  "rq_known_field ieq f (more_data d r) = map_outcome (more_data d) (rq_known_field ieq f r)"
  by (simp add: rq_known_field_def split: rq_version_flag.split rq_body_type.split)

lemma rq_framing_value_more:
  "rq_framing_value ieq f (more_data d r) = more_data d (rq_framing_value ieq f r)"
  by (simp add: rq_framing_value_def Let_def
      split: rq_body_type.split prod.split decode_result.split decode_transfer_encoding_result.split)

lemma rq_end_of_headers_more:
  "rq_end_of_headers n (more_data d r) = map_outcome (more_data d) (rq_end_of_headers n r)"
  by (simp add: rq_end_of_headers_def Let_def split: rq_body_type.split)

definition rq_divides :: "request \<Rightarrow> request \<Rightarrow> bool" where
  "rq_divides r r' \<longleftrightarrow> state r \<in> rq_dividing \<and> state r' \<in> rq_dividing \<and> token_size r' = length (rest r)"

lemma rq_switch_more:
  assumes "rq_ready r"
    and "\<And>r'. rq_switch ieq r = Return r' \<Longrightarrow> \<not> waiting r' \<and> \<not> rq_divides r r'"
  shows "rq_switch ieq (more_data d r) = map_outcome (more_data d) (rq_switch ieq r)"
proof -
  have ready: "rq_ready (more_data d r)" by (rule rq_ready_more [OF assms(1)])
  have inv: "rq_inv r" "rq_inv (more_data d r)" and range: "in_range r" "in_range (more_data d r)"
    and wait: "waiting r" and ne: "rest r \<noteq> []"
    using assms(1) ready by (auto simp: rq_ready_def rq_inv_def rest_def)
  note rest = rest_more_data [OF range(1)]
  note le = matchers_le [of "rest r"] match_loop_le [of _ "rest r"]
  note facts = assms(2) ready assms(1) ne wait le
  show ?thesis
  proof (cases "state r \<in> {RQ_EXPECT_METHOD, RQ_EXPECT_REQUEST_TARGET,
      RQ_EXPECT_STATIC_STR_AFTER_TARGET, RQ_EXPECT_CHUNK_EXT}")
    case True
    then show ?thesis
    proof (elim insertE emptyE)
      assume st: "state r = RQ_EXPECT_METHOD"
      then have "list_all is_tchar (token_prefix r)" "list_all is_tchar (token_prefix (more_data d r))"
        using inv wait by (simp_all add: rq_inv_def rq_partial_def)
      note eqs = rq_method_eq [OF range(1) this(1)] rq_method_eq [OF range(2) this(2)]
      then have "match_loop is_tchar (rest r) < length (rest r)"
        using assms(2) st wait le(6) [of is_tchar] by (auto simp: rq_switch_def less_le simp del: rest_length)
      with st eqs show ?thesis by (auto simp: rq_switch_def Let_def rest scan_more simp del: rest_length)
    next
      assume st: "state r = RQ_EXPECT_REQUEST_TARGET"
      then have "list_all is_request_target_char (token_prefix r)"
        "list_all is_request_target_char (token_prefix (more_data d r))"
        using inv wait by (simp_all add: rq_inv_def rq_partial_def)
      note eqs = rq_request_target_eq [OF range(1) this(1)] rq_request_target_eq [OF range(2) this(2)]
      then have "match_loop is_request_target_char (rest r) < length (rest r)"
        using assms(2) st wait le(6) [of is_request_target_char] by (auto simp: rq_switch_def less_le simp del: rest_length)
      with st eqs show ?thesis by (auto simp: rq_switch_def Let_def rest scan_more simp del: rest_length)
    next
      assume st: "state r = RQ_EXPECT_STATIC_STR_AFTER_TARGET"
      then have "token_size r < length rq_static_str" "token_prefix r = take (token_size r) rq_static_str"
        "token_prefix (more_data d r) = take (token_size r) rq_static_str"
        using inv wait by (simp_all add: rq_inv_def rq_partial_def)
      note eqs = rq_static_str_after_target_eq [OF range(1) this(1,2)]
        rq_static_str_after_target_eq [OF range(2), unfolded more_fields, OF this(1,3)]
      show ?thesis
      proof (cases "take (length rq_static_str) (rest r) = take (length (rest r)) rq_static_str")
        case True
        then have "\<not> length (rest r) < length rq_static_str"
          using assms(2) st wait eqs(1) by (auto simp: rq_switch_def simp del: rest_length)
        with True st eqs show ?thesis by (simp add: rq_switch_def rest del: rest_length)
      next
        case False
        with static_more [OF False, of d] st eqs show ?thesis
          by (simp add: rq_switch_def rest del: rest_length take_append length_append)
      qed
    next
      assume st: "state r = RQ_EXPECT_CHUNK_EXT"
      then have "list_all is_chunk_ext_char (token_prefix r)"
        "list_all is_chunk_ext_char (token_prefix (more_data d r))"
        using inv wait by (simp_all add: rq_inv_def rq_partial_def)
      note eqs = rq_chunk_ext_eq [OF range(1) this(1)] rq_chunk_ext_eq [OF range(2) this(2)]
      then have "match_loop is_chunk_ext_char (rest r) < length (rest r)"
        using assms(2) st wait le(6) [of is_chunk_ext_char] by (auto simp: rq_switch_def less_le simp del: rest_length)
      with st eqs show ?thesis
        by (auto simp: rq_switch_def Let_def rest scan_more nth_append simp del: rest_length)
    qed
  next
    case False
    have ows: "\<not> list_all is_ows (tl (rest r))"
      if "hd (rest r) = CHR '':''" "state r \<in> {RQ_EXPECT_COLON, RQ_EXPECT_TRAILER_COLON}"
    proof
      assume "list_all is_ows (tl (rest r))"
      moreover from this have "Suc (match_loop is_ows (tl (rest r))) = length (rest r)"
        using ne by (simp add: list_all_iff match_loop_full [THEN iffD2] del: rest_length)
      ultimately show False
        using that assms by (auto simp: rq_switch_def rq_case_eqs rq_divides_def rq_dividing_def rq_token_def
            simp del: rest_length)
    qed
    have size: "unat (body_size r) \<le> length (rest r)" if "state r \<in> {RQ_EXPECT_BODY, RQ_EXPECT_CHUNK_DATA}"
    proof (rule ccontr)
      assume "\<not> unat (body_size r) \<le> length (rest r)"
      then have "min (length (rest r)) (unat (body_size r)) = length (rest r)"
        "body_size r - of_nat (length (rest r)) \<noteq> 0"
        using body_left [of "length (rest r)" "body_size r"] by (simp_all del: rest_length)
      then show False
        using that assms by (auto simp: rq_switch_def rq_rest_defs rq_divides_def rq_dividing_def Let_def
            simp del: rest_length)
    qed
    show ?thesis
    proof (cases "state r")
      case RQ_EXPECT_COLON
      then show ?thesis using ows facts colon_more [OF ne]
        by (simp add: rq_switch_def rq_case_eqs rest del: rest_length)
    next
      case RQ_EXPECT_TRAILER_COLON
      then show ?thesis using ows facts colon_more [OF ne]
        by (simp add: rq_switch_def rq_case_eqs rest del: rest_length)
    next
      case RQ_EXPECT_BODY
      then show ?thesis using size
        by (simp add: rq_switch_def rq_rest_defs rest Let_def del: rest_length)
    next
      case RQ_EXPECT_CHUNK_DATA
      then show ?thesis using size
        by (simp add: rq_switch_def rq_rest_defs rest Let_def del: rest_length)
    qed (use facts False in
         \<open>auto simp: rq_switch_def rq_case_eqs rq_rest_defs Let_def rest rq_divides_def rq_dividing_def scan_more
            rq_known_field_more rq_framing_value_more rq_end_of_headers_more simp del: rest_length
            split: liberal_crlf_result.split decode_result.split prod.split rq_body_type.split\<close>)
  qed
qed

section \<open>Behind a divided token\<close>

text \<open>\<open>next()\<close> only looks at what is behind the current token.\<close>

lemma rq_next_shift:
  assumes "\<not> waiting r" and "state r \<noteq> RQ_ERRORED" and "k \<le> token_size r"
  shows "rq_next ieq (r\<lparr>idx := idx r + k, token_size := token_size r - k\<rparr>) = rq_next ieq r"
  using assms by (simp add: rq_next.simps [of ieq r] rq_next.simps [of ieq "r\<lparr>idx := _, token_size := _\<rparr>"]
      consume_def)

lemma rq_next_beyond:
  assumes "rq_inv r" and "rq_inv s" and "symbol_convert (cur_code r) \<noteq> symbol_error" and "cur_code s = cur_code r"
    and "state s = state r" and "version s = version r" and "body_type s = body_type r"
    and "body_size s = body_size r" and "token_size r = k + token_size s" and "rest s = drop k (rest r)"
  shows "rel_sum (=) rq_sim (rq_next ieq r) (rq_next ieq s)"
proof -
  let ?r = "r\<lparr>idx := idx r + k, token_size := token_size r - k\<rparr>"
  have code: "\<not> waiting r" "state r \<noteq> RQ_ERRORED"
    using assms(1,3) by (auto simp: rq_inv_def final_error_def)
  have "rq_inv ?r"
    using assms(1,9) code by (auto simp: rq_inv_def in_range_def rq_framing_def split: rq_state.splits)
  moreover have "rq_sim ?r s"
    using assms(4-10) by (simp add: rq_sim_def) (simp add: rest_def add.commute)
  ultimately have "rel_sum (=) rq_sim (rq_next ieq ?r) (rq_next ieq s)" using assms(2) by (intro rq_next_sim)
  then show ?thesis using rq_next_shift [OF code, of k ieq] assms(9) by simp
qed

text \<open>Without white space ahead, a reader that expects white space before a value expects the value.\<close>

definition rq_value_state :: "rq_state \<Rightarrow> rq_state" where
  "rq_value_state st =
     (if st = RQ_EXPECT_OWS_AFTER_COLON then RQ_EXPECT_FIELD_VALUE else RQ_EXPECT_TRAILER_VALUE)"

lemma rq_next_no_ows:
  assumes "rq_inv r" and "state r \<in> {RQ_EXPECT_OWS_AFTER_COLON, RQ_EXPECT_OWS_AFTER_TRAILER_COLON}"
    and "rest (consume r) \<noteq> []" and "\<not> is_ows (hd (rest (consume r)))"
  defines "s \<equiv> r\<lparr>state := rq_value_state (state r)\<rparr>"
  shows "rq_next ieq r = rq_next ieq s" and "rq_inv s"
proof -
  have c: "consume s = (consume r)\<lparr>state := rq_value_state (state r)\<rparr>" by (simp add: s_def consume_def)
  have "ows_match (rest (consume r)) = 0" using assms(3,4) by (simp add: ows.zero_iff)
  then have "rq_switch ieq (consume r) = Tail_next (consume s)"
    using assms(2) unfolding c by (auto simp: rq_switch_def rq_rest_defs rq_value_state_def)
  moreover have "idx (consume r) \<noteq> length (ibuffer r)" using assms(3) by (auto simp: rest_def)
  ultimately have "rq_next ieq r = rq_next ieq (consume s)"
    using assms(2) by (subst rq_next.simps) auto
  also have "\<dots> = rq_next ieq s" by (rule rq_next_consume) (simp add: s_def rq_value_state_def)
  finally show "rq_next ieq r = rq_next ieq s" .
  show "rq_inv s"
    using assms(1,2) by (auto simp: s_def rq_value_state_def rq_inv_def in_range_def rq_framing_def rq_partial_def)
qed

section \<open>Divided tokens\<close>

text \<open>After a token that reaches the end of the buffer, the reader waits; with new data it starts
  with them.\<close>

definition rq_waits :: "request \<Rightarrow> octets \<Rightarrow> request" where
  "rq_waits r d = r\<lparr>ibuffer := d, idx := 0, token_size := 0, cur_code := code_error_insufficient_data\<rparr>"

lemma rq_divided_waits:
  assumes "rq_inv r" and "\<not> waiting r" and "state r \<in> rq_dividing" and "token_size r = length (rest r)"
  shows "\<exists>r1. rq_next ieq r = Inr r1 \<and> waiting r1 \<and> load d r1 = rq_waits r d"
    and "rq_inv (rq_waits r d)" and "rest (rq_waits r d) = d"
proof -
  have "idx r + token_size r = length (ibuffer r)"
    using assms(1,4) by (simp add: rq_inv_def in_range_def)
  then have "idx (consume r) = length (ibuffer r)" using assms(2) by (simp add: consume_def)
  then have next_r: "rq_next ieq r = Inr (consume r)" for ieq
    using assms(3) by (subst rq_next.simps) (auto simp: rq_dividing_def)
  moreover have load: "load d (consume r) = rq_waits r d"
    using \<open>idx (consume r) = _\<close> assms(2) by (simp add: load_def rq_waits_def rest_def) (simp add: consume_def)
  ultimately show "\<exists>r1. rq_next ieq r = Inr r1 \<and> waiting r1 \<and> load d r1 = rq_waits r d" by simp
  have "rq_inv (consume r)" using rq_next_inv [OF assms(1) next_r] .
  moreover have "keeps_token (rest (consume r) @ d) (consume r)"
    using assms(2) by (simp add: keeps_token_def token_prefix_def consume_def)
  ultimately show "rq_inv (rq_waits r d)" using rq_rebuffer_inv load unfolding load_def by metis
  show "rest (rq_waits r d) = d" by (simp add: rq_waits_def rest_def)
qed

lemma rq_ready_waits: "rq_inv (rq_waits r d) \<Longrightarrow> d \<noteq> [] \<Longrightarrow> rq_ready (rq_waits r d)"
  by (simp add: rq_ready_def) (simp add: rq_waits_def)

text \<open>Body octets.\<close>

definition rq_body_end :: "rq_state \<Rightarrow> rq_state" where
  "rq_body_end st = (if st = RQ_EXPECT_BODY then RQ_EXPECT_END_OF_BODY else RQ_EXPECT_CRLF_AFTER_CHUNK_DATA)"

lemma rq_switch_body:
  assumes "state r \<in> {RQ_EXPECT_BODY, RQ_EXPECT_CHUNK_DATA}"
  defines "n \<equiv> min (length (rest r)) (unat (body_size r))"
  shows "rq_switch ieq r = Return (r\<lparr>cur_code := code_body_chunk, token_size := n,
    body_size := body_size r - of_nat n,
    state := if body_size r - of_nat n = 0 then rq_body_end (state r) else state r\<rparr>)"
proof -
  have same: "x\<lparr>state := state r\<rparr> = x" if "state x = state r" for x :: request using that by (cases x) simp
  show ?thesis
    using assms(1) by (auto simp: rq_switch_def rq_rest_defs rq_body_end_def Let_def n_def same)
qed

lemma rq_body_extended:
  assumes "rq_ready s" and "rq_switch ieq s = Return r'" and "rq_divides s r'"
    and "state s \<in> {RQ_EXPECT_BODY, RQ_EXPECT_CHUNK_DATA}" and "d \<noteq> []"
  shows "\<exists>R. rq_next ieq (more_data d s) = Inr R \<and> extended (rq_next ieq) rq_sim d r' R"
proof -
  let ?k = "body_size s" and ?l = "length (rest s)"
  have range: "in_range s" using assms(1) by (simp add: rq_ready_def rq_inv_def)
  let ?n = "min ?l (unat ?k)" and ?k' = "?k - of_nat ?l"
  have r0: "r' = s\<lparr>cur_code := code_body_chunk, token_size := ?n, body_size := ?k - of_nat ?n,
      state := if ?k - of_nat ?n = 0 then rq_body_end (state s) else state s\<rparr>"
    using assms(2) unfolding rq_switch_body [OF assms(4)] by simp
  have n: "?n = ?l" and left: "?k - of_nat ?n \<noteq> 0"
    using assms(3,4) unfolding r0 by (auto simp: rq_divides_def rq_dividing_def rq_body_end_def split: if_splits)
  then have lt: "?l < unat ?k" by (cases "?l = unat ?k") auto
  have state_s: "x\<lparr>state := state s\<rparr> = x" if "state x = state s" for x :: request using that by (cases x) simp
  have r': "r' = s\<lparr>cur_code := code_body_chunk, token_size := ?l, body_size := ?k'\<rparr>"
    using r0 n left by (simp add: state_s)
  have inv: "rq_inv r'" "\<not> waiting r'"
    using rq_switch_ok [OF assms(1), of ieq] assms(2,4) r' by (auto simp: rq_outcome_ok_def)
  have rest': "rest r' = rest s" "token_prefix r' = rest s" by (simp_all add: r' rest_def token_prefix_def)
  let ?t = "rq_waits r' d" and ?n2 = "min (length d) (unat ?k')"
  have waits: "\<exists>r1. rq_next ieq r' = Inr r1 \<and> waiting r1 \<and> load d r1 = ?t" "rq_inv ?t" "rest ?t = d"
    using rq_divided_waits [OF inv, where d = d] assms(3) rest'(1) by (auto simp: rq_divides_def simp del: rest_length)
  have k': "unat ?k' = unat ?k - ?l" by (rule unat_body_left [OF lt])
  let ?S = "?t\<lparr>cur_code := code_body_chunk, token_size := ?n2, body_size := ?k' - of_nat ?n2,
    state := if ?k' - of_nat ?n2 = 0 then rq_body_end (state s) else state s\<rparr>"
  let ?R = "more_data d (s\<lparr>cur_code := code_body_chunk, token_size := ?l + ?n2, body_size := ?k' - of_nat ?n2,
    state := if ?k' - of_nat ?n2 = 0 then rq_body_end (state s) else state s\<rparr>)"
  have t: "state ?t = state s" "body_size ?t = ?k'" by (simp_all add: rq_waits_def r')
  have S: "rq_next ieq ?t = Inr ?S"
    using rq_switch_body [of ?t ieq] t waits(3) assms(4) rq_next_ready [OF rq_ready_waits [OF waits(2) assms(5)], of ieq]
    by simp
  have min: "min (length (rest s @ d)) (unat ?k) = ?l + ?n2" using k' lt by (simp del: rest_length)
  have R: "rq_next ieq (more_data d s) = Inr ?R"
    using rq_switch_body [of "more_data d s" ieq] rest_more_data [OF range, of d] assms(4)
      rq_next_ready [OF rq_ready_more [OF assms(1), of d], of ieq] min
    by (simp del: rest_length length_append) (simp add: algebra_simps del: rest_length)
  have "rq_inv ?S" "rq_inv ?R"
    using rq_next_inv [OF waits(2) S] rq_next_inv [OF _ R] rq_ready_more [OF assms(1), of d]
    by (simp_all add: rq_ready_def)
  moreover have restR: "rest ?R = rest s @ d" using range by (simp add: rest_more_data in_range_def rest_def more_data_def)
  ultimately have "rel_sum (=) rq_sim (rq_next ieq ?R) (rq_next ieq ?S)"
    using waits(3) by (intro rq_next_beyond [where k = ?l]) (simp_all add: rq_waits_def r' rest_def del: rest_length)
  moreover have "token_prefix ?R = token_prefix r' @ token_prefix ?S"
    using restR waits(3) rest'(2) by (simp add: token_prefix_def del: rest_length)
  ultimately show ?thesis
    using R S waits(1) by (intro exI [of _ ?R]) (auto simp: extended_def dividable_def r')
qed

text \<open>White space in front of a value.\<close>

abbreviation rq_ows_states :: "rq_state set" where
  "rq_ows_states \<equiv> {RQ_EXPECT_OWS_AFTER_COLON, RQ_EXPECT_OWS_AFTER_TRAILER_COLON}"

lemma rq_next_any_value_state:
  assumes "rq_inv r" and "state r \<in> rq_ows_states" and "st \<in> {state r, rq_value_state (state r)}"
    and "st \<noteq> state r \<Longrightarrow> rest (consume r) \<noteq> [] \<and> \<not> is_ows (hd (rest (consume r)))"
  shows "rq_next ieq r = rq_next ieq (r\<lparr>state := st\<rparr>)" and "rq_inv (r\<lparr>state := st\<rparr>)"
proof -
  have "r\<lparr>state := state r\<rparr> = r" by (cases r) simp
  then have "rq_next ieq r = rq_next ieq (r\<lparr>state := st\<rparr>) \<and> rq_inv (r\<lparr>state := st\<rparr>)"
    using assms rq_next_no_ows [OF assms(1,2)] by (cases "st = state r") auto
  then show "rq_next ieq r = rq_next ieq (r\<lparr>state := st\<rparr>)" "rq_inv (r\<lparr>state := st\<rparr>)" by simp_all
qed

text \<open>The white space at hand and the one that follows are one token.\<close>

lemma rq_ows_more:
  fixes d :: octets
  assumes "rq_ready s" and "rq_switch ieq s = Return r'" and "rq_divides s r'"
    and "state s \<notin> {RQ_EXPECT_BODY, RQ_EXPECT_CHUNK_DATA}"
  defines "m \<equiv> match_loop is_ows d"
  shows "cur_code r' = code_skip \<and> state r' \<in> rq_ows_states \<and>
    (\<exists>st \<in> {state r', rq_value_state (state r')}. (st \<noteq> state r' \<longrightarrow> m < length d) \<and>
      rq_next ieq (more_data d s) = Inr (more_data d (r'\<lparr>token_size := length (rest s) + m, state := st\<rparr>)))"
proof -
  have ready: "rq_ready (more_data d s)" by (rule rq_ready_more [OF assms(1)])
  note rest = rest_more_data [of s d]
  have range: "in_range s" and ne: "rest s \<noteq> []"
    using assms(1) by (auto simp: rq_ready_def rq_inv_def rest_def)
  note next_more = rq_next_ready [OF ready, of ieq]
  have same: "x\<lparr>state := state x\<rparr> = x" for x :: request by (cases x) simp
  have st: "state s \<in> {RQ_EXPECT_COLON, RQ_EXPECT_TRAILER_COLON} \<or> state s \<in> rq_ows_states"
    using assms(3,4) by (auto simp: rq_divides_def rq_dividing_def)
  then show ?thesis
  proof
    assume colon: "state s \<in> {RQ_EXPECT_COLON, RQ_EXPECT_TRAILER_COLON}"
    let ?o = "if state s = RQ_EXPECT_COLON then RQ_EXPECT_OWS_AFTER_COLON else RQ_EXPECT_OWS_AFTER_TRAILER_COLON"
    have ows: "list_all is_ows (tl (rest s))" "hd (rest s) = CHR '':''"
      and r': "r' = rq_token ?o code_skip (1 + match_loop is_ows (tl (rest s))) s"
      using colon assms(1-3)
      by (auto simp: rq_switch_def rq_case_eqs rq_divides_def rq_dividing_def rq_token_def rq_fail_def
          simp del: rest_length split: if_splits)
    have len: "match_loop is_ows (tl (rest s) @ d) = length (tl (rest s)) + m"
      "length (rest s) = Suc (length (tl (rest s)))"
      using ows(1) ne by (simp_all add: m_def list_all_iff match_loop_append del: rest_length)
    have all: "list_all is_ows d \<longleftrightarrow> m = length d" by (simp add: m_def match_loop_full list_all_iff)
    let ?st = "if list_all is_ows d then ?o else rq_value_state ?o"
    have "rq_next ieq (more_data d s) = Inr (more_data d (rq_token ?st code_skip (length (rest s) + m) s))"
      using colon ows len ne all next_more
      by (auto simp: rq_switch_def rq_case_eqs ready rest [OF range] rq_value_state_def simp del: rest_length length_tl)
    moreover have "rq_token st code_skip n s = r'\<lparr>token_size := n, state := st\<rparr>" for st n
      by (simp add: r' rq_token_def)
    ultimately have run: "rq_next ieq (more_data d s) =
        Inr (more_data d (r'\<lparr>token_size := length (rest s) + m, state := ?st\<rparr>))"
      by (simp only:)
    moreover have "m \<le> length d" unfolding m_def by (rule match_loop_le)
    ultimately show ?thesis
      using all by (intro conjI bexI [of _ ?st]) (auto simp: r' rq_token_def rq_value_state_def)
  next
    assume ows: "state s \<in> rq_ows_states"
    have r': "r' = s\<lparr>cur_code := code_skip, token_size := length (rest s)\<rparr>"
      and full: "match_loop is_ows (rest s) = length (rest s)"
      using ows assms(2,3)
      by (auto simp: rq_switch_def rq_rest_defs rq_divides_def ows.eq_match_loop Let_def simp del: rest_length
          split: if_splits)
    then have "match_loop is_ows (rest s @ d) = length (rest s) + m"
      unfolding m_def match_loop_full by (rule_tac match_loop_append) simp
    then have "rq_next ieq (more_data d s) =
        Inr (more_data d (s\<lparr>cur_code := code_skip, token_size := length (rest s) + m\<rparr>))"
      using ows next_more ne
      by (auto simp: rq_switch_def rq_rest_defs rest [OF range] ows.eq_match_loop simp del: rest_length)
    then show ?thesis
      using ows by (auto simp: r' same)
  qed
qed

lemma rq_ows_extended:
  assumes "rq_ready s" and "rq_switch ieq s = Return r'" and "rq_divides s r'"
    and "state s \<notin> {RQ_EXPECT_BODY, RQ_EXPECT_CHUNK_DATA}" and "d \<noteq> []"
  shows "\<exists>R. rq_next ieq (more_data d s) = Inr R \<and> extended (rq_next ieq) rq_sim d r' R"
proof -
  let ?m = "match_loop is_ows d" and ?l = "length (rest s)" and ?t = "rq_waits r' d"
  from rq_ows_more [OF assms(1-4), of d] obtain st where code: "cur_code r' = code_skip" "state r' \<in> rq_ows_states"
    and st: "st \<in> {state r', rq_value_state (state r')}" "st \<noteq> state r' \<Longrightarrow> ?m < length d"
    and R: "rq_next ieq (more_data d s) = Inr (more_data d (r'\<lparr>token_size := ?l + ?m, state := st\<rparr>))"
    by blast
  let ?R = "more_data d (r'\<lparr>token_size := ?l + ?m, state := st\<rparr>)"
  have frame: "idx r' = idx s" "ibuffer r' = ibuffer s" using rq_switch_frame [of s ieq] assms(2) by simp_all
  have range: "in_range s" using assms(1) by (simp add: rq_ready_def rq_inv_def)
  have size: "token_size r' = ?l" using assms(3) by (simp add: rq_divides_def)
  have inv: "rq_inv r'" "\<not> waiting r'"
    using rq_next_inv [OF _ rq_next_ready [OF assms(1), of ieq, unfolded assms(2) outcome.case]] assms(1) code(1)
    by (simp_all add: rq_ready_def)
  have rest: "rest r' = rest s" "token_prefix r' = rest s" "rest ?R = rest s @ d"
    using frame size range by (simp_all add: rest_def token_prefix_def more_data_def in_range_def)
  have waits: "\<exists>r1. rq_next ieq r' = Inr r1 \<and> waiting r1 \<and> load d r1 = ?t" "rq_inv ?t" "rest ?t = d"
    using rq_divided_waits [OF inv, where d = d] assms(3) rest(1)
    by (auto simp: rq_divides_def simp del: rest_length)
  have Rinv: "rq_inv ?R" using rq_next_inv [OF _ R] rq_ready_more [OF assms(1), of d] by (simp add: rq_ready_def)
  have t: "state ?t = state r'" "waiting ?t" by (simp_all add: rq_waits_def)
  let ?S = "?t\<lparr>cur_code := code_skip, token_size := ?m\<rparr>"
  show ?thesis
  proof (cases "?m = 0")
    case True
    have same: "rq_next ieq ?t = rq_next ieq (?t\<lparr>state := st\<rparr>)" "rq_inv (?t\<lparr>state := st\<rparr>)"
      using rq_next_any_value_state [OF waits(2), where st = st] st(1) t code(2) True waits(3) assms(5)
      by (auto simp: match_loop_zero)
    have plain: "state ?R \<notin> {RQ_ERRORED, RQ_EXPECT_END_OF_BODY, RQ_EXPECT_END_OF_MESSAGE}"
      using code(2) st(1) by (auto simp: rq_value_state_def)
    have "rq_inv (consume ?R)"
      using plain by (cases rule: rq_next_cases [OF Rinv, of ieq]) (simp_all add: rq_ready_def)
    moreover have "rq_sim (consume ?R) (?t\<lparr>state := st\<rparr>)"
      using True frame code(1) range
      by (simp add: rq_sim_def rq_waits_def consume_def) (simp add: rest_def more_data_def in_range_def)
    ultimately have "rel_sum (=) rq_sim (rq_next ieq ?R) (rq_next ieq ?t)"
      using rq_next_sim [OF _ same(2), of "consume ?R" ieq] rq_next_consume [OF plain, of ieq] same(1) by simp
    moreover have "token_prefix ?R = token_prefix r'"
      using rest True by (simp add: token_prefix_def del: rest_length)
    ultimately show ?thesis
      using R waits(1) code(1) by (intro exI [of _ ?R]) (auto simp: extended_def dividable_def)
  next
    case False
    have "rq_switch ieq ?t = Return ?S"
      using False code(2) t(1) waits(3) by (auto simp: rq_switch_def rq_rest_defs ows.eq_match_loop)
    then have S: "rq_next ieq ?t = Inr ?S"
      by (simp add: rq_next_ready [OF rq_ready_waits [OF waits(2) assms(5)]])
    have Sinv: "rq_inv ?S" by (rule rq_next_inv [OF waits(2) S])
    have restS: "rest ?S = d" "rest (consume ?S) = drop ?m d"
      using waits(3) by (simp_all add: rest_def rq_waits_def consume_def)
    have stop: "rest (consume ?S) \<noteq> [] \<and> \<not> is_ows (hd (rest (consume ?S)))" if "st \<noteq> state ?S"
      using st(2) that t(1) match_loop_stop [of is_ows d] unfolding restS(2) by (simp add: hd_drop_conv_nth)
    have "state ?S \<in> rq_ows_states" "st \<in> {state ?S, rq_value_state (state ?S)}" using t(1) code(2) st(1) by simp_all
    from rq_next_any_value_state [OF Sinv this stop]
    have "rq_next ieq ?S = rq_next ieq (?S\<lparr>state := st\<rparr>) \<and> rq_inv (?S\<lparr>state := st\<rparr>)" by (rule_tac conjI)
    moreover have "rel_sum (=) rq_sim (rq_next ieq ?R) (rq_next ieq (?S\<lparr>state := st\<rparr>))"
      using Rinv calculation code(1) rest(3) restS(1)
      by (intro rq_next_beyond [where k = ?l]) (simp_all add: rq_waits_def rest_def more_data_def del: rest_length)
    moreover have "token_prefix ?R = token_prefix r' @ token_prefix ?S"
      using rest restS(1) by (simp add: token_prefix_def del: rest_length)
    ultimately show ?thesis
      using R S waits(1) code(1) by (intro exI [of _ ?R]) (auto simp: extended_def dividable_def)
  qed
qed

section \<open>A call of \<open>next()\<close> with more data\<close>

definition rq_grows :: "iequals \<Rightarrow> octets \<Rightarrow> request \<Rightarrow> request \<Rightarrow> bool" where
  "rq_grows ieq d r r' \<longleftrightarrow>
     rq_next ieq (more_data d r) = Inr (more_data d r') \<or>
     (\<exists>R. rq_next ieq (more_data d r) = Inr R \<and> extended (rq_next ieq) rq_sim d r' R)"

lemma more_data_Nil [simp]: "more_data [] r = r"
  by (simp add: more_data_def)

lemma rq_next_ready_more:
  assumes "rq_ready s" and "rq_next ieq s = Inr r'" and "\<not> waiting r'"
  shows "rq_grows ieq d s r'"
  using assms(1)
proof (cases rule: rq_next_ready_cases [where ieq = ieq])
  case (once x)
  then have sw: "rq_switch ieq s = Return r'" using assms(2) by simp
  show ?thesis
  proof (cases "rq_divides s r' \<and> d \<noteq> []")
    case True
    then show ?thesis
      using rq_body_extended [OF assms(1) sw] rq_ows_extended [OF assms(1) sw] unfolding rq_grows_def by metis
  next
    case False
    then show ?thesis
      using rq_switch_more [OF assms(1), of ieq d] sw assms rq_next_ready [OF rq_ready_more [OF assms(1)], of ieq d]
      by (cases "d = []") (auto simp: rq_grows_def)
  qed
next
  case (twice s1 x)
  then have sw: "rq_switch ieq s1 = Return r'" using assms(2) by simp
  have "\<not> rq_divides s1 r'"
    using rq_switch_Tail_next [OF twice(1)] by (auto simp: rq_divides_def rq_dividing_def rq_tail_calls_def)
  then have "rq_next ieq (more_data d s1) = Inr (more_data d r')"
    using rq_switch_more [OF twice(2), of ieq d] sw assms(3) rq_next_ready [OF rq_ready_more [OF twice(2)], of ieq d]
    by simp
  moreover have "rq_next ieq (more_data d s) = rq_next ieq (more_data d s1)"
    using rq_switch_more [OF assms(1), of ieq d] twice(1) rq_next_ready [OF rq_ready_more [OF assms(1)], of ieq d]
    by simp
  ultimately show ?thesis by (simp add: rq_grows_def)
next
  case fault
  with assms(2) show ?thesis by simp
qed

lemma consume_more_data: "consume (more_data d r) = more_data d (consume r)"
  by (simp add: more_data_def consume_more)

lemma rq_next_more:
  assumes "rq_inv r" and "rq_next ieq r = Inr r'" and "\<not> waiting r'"
  shows "rq_grows ieq d r r'"
  using assms(1)
proof (cases rule: rq_next_cases [where ieq = ieq])
  case ready
  have "rq_next ieq (more_data d r) = rq_next ieq (more_data d (consume r))"
    using rq_ready_state [OF ready(1)] rq_next_consume [of "more_data d r" ieq] by (simp add: consume_more_data)
  then show ?thesis using rq_next_ready_more [OF ready(1), of ieq r' d] ready(2) assms by (simp add: rq_grows_def)
next
  case starved
  then have "r' = consume r" using assms(2) by simp
  with assms(3) show ?thesis by (simp add: consume_def split: if_splits)
qed (use assms(2) in \<open>auto simp: rq_grows_def rq_next.simps [of ieq "more_data d r"]\<close>)

lemma rq_fault_more:
  assumes "rq_inv r" and "rq_next ieq r = Inl f"
  shows "rq_next ieq (more_data d r) = Inl f"
proof -
  have "rq_inv (more_data d r)" using rq_inv_more [OF assms(1)] by (simp add: more_data_def)
  moreover have "rq_empty_value r" "f = Out_of_bounds" using assms rq_next_fault_iff by auto
  moreover have "in_range (consume r)" using assms(1) by (auto simp: rq_inv_def in_range_def consume_def)
  ultimately show ?thesis
    using rest_more_data [of "consume r" d] by (simp add: rq_next_fault_iff rq_empty_value_def consume_more_data)
qed

section \<open>The contract\<close>

lemma rq_sim_trans: "rq_sim r s \<Longrightarrow> rq_sim s t \<Longrightarrow> rq_sim r t"
  by (simp add: rq_sim_def)

lemma rq_load_inv:
  assumes "rq_inv r"
  shows "rq_inv (load d r)"
proof -
  have "keeps_token (rest r @ d) r"
    using assms by (auto simp: keeps_token_def token_prefix_def rq_inv_def in_range_def)
  with assms show ?thesis unfolding load_def by (rule rq_rebuffer_inv)
qed

interpretation rq: incremental_reader "rq_next ieq" rq_inv rq_pending rq_sim "rq_set_buffer ieq" for ieq
proof
  show "rq_set_buffer ieq (rest r @ d) r = rq_next ieq (load d r)" if "waiting r" for r d
    using that by (simp add: rq_set_buffer_def load_def)
  show "rq_inv (more_data d r)" if "rq_inv r" for r d using rq_inv_more [OF that] by (simp add: more_data_def)
  show "cur_code s = cur_code r \<and> (symbol_convert (cur_code r) \<noteq> symbol_error \<longrightarrow> token_prefix s = token_prefix r)"
    if "rq_sim r s" for r s using that by (simp add: rq_sim_def token_prefix_def)
  show "rel_sum (=) rq_sim (rq_next ieq (more_data d r)) (rq_next ieq (load d r1))"
    if "rq_inv r" "rq_next ieq r = Inr r1" "waiting r1" for r r1 d
    using rq_next_resume [OF that, of d] that(3) by (simp add: rq_set_buffer_def load_def more_data_def)
  show "rq_next ieq (more_data d r) = Inr (more_data d r') \<or>
      (\<exists>R. rq_next ieq (more_data d r) = Inr R \<and> extended (rq_next ieq) rq_sim d r' R)"
    if "rq_inv r" "rq_next ieq r = Inr r'" "\<not> waiting r'" for r r' d
    using rq_next_more [OF that] by (simp add: rq_grows_def)
qed (use rq_sim_trans rq_load_inv rq_next_sim rq_fault_more in \<open>auto simp: rq_inv_def [of r for r]\<close>)

end
