(* ===== verification/Stream_Props.thy ===== *)
theory Stream_Props
  imports Request_Stream Response_Stream Request_Split
begin

text \<open>
  Round trips: whole messages, rendered as a sender writes them and given to a new reader in one
  buffer, come back as their tokens, in order and with their octets, and nothing else does. Cuts: a
  request reader that is given its input in pieces gives the tokens of the whole input, up to the
  division of octets to skip and of body octets.
\<close>

abbreviation stream_exact :: iequals where
  "stream_exact \<equiv> (=)"

section \<open>Requests\<close>

lemma rq_new_pulls:
  assumes "list_all (wf_request ieq) ms" and "ms \<noteq> []"
  shows "\<exists>r0 r1. rq_set_buffer ieq (concat (map render_request ms)) (rq_new v n) = Inr r0 \<and>
    pull (rq_next ieq) cur_code seen r0 = Some (concat (map request_tokens ms), Inr r1) \<and>
    waiting r1 \<and> rest r1 = []"
proof -
  let ?buf = "concat (map render_request ms)" and ?ts = "concat (map request_tokens ms)"
  let ?r = "rq_new v n\<lparr>ibuffer := ?buf, idx := 0\<rparr>"
  have "yields (rq_next ieq) rq_at_start ?buf ?ts rq_at_start []"
    using rq_reads_requests [OF assms(1), of "[]"] by simp
  from yieldsD [OF this rq_new_ahead] obtain r'
    where r': "gives (rq_next ieq) ?r ?ts r'" "rq_at_start r'" "ahead r' []" by blast
  have ts: "?ts \<noteq> []" using assms(2) by (cases ms) (simp_all add: request_tokens_def)
  with r'(1) obtain r0 where r0: "rq_next ieq ?r = Inr r0" by (cases ?ts) auto
  have "pull (rq_next ieq) cur_code (\<lambda>r. (cur_code r, token_prefix r)) r0 = Some (?ts, Inr (consume r'))"
    using r' ts r0 rq_next_end(1) [OF r'(2,3), of ieq] request_tokens_no_error
    by (intro pull_gives) auto
  moreover have "rq_set_buffer ieq ?buf (rq_new v n) = Inr r0"
    using r0 by (simp add: rq_set_buffer_def rq_new_def)
  ultimately show ?thesis
    using rq_next_end(2) [OF r'(2,3)] by (auto simp: seen_def [abs_def])
qed

text \<open>C9: requests that are written to the grammar, one after another, are read back. The loop in
  which a client pulls tokens from a new reader is given the tokens of these requests, with their
  octets, through every kind of framing: no body, a body of the announced length, chunks with
  extensions and trailers. It then stops for the lack of data with nothing left in the buffer.\<close>

theorem request_roundtrip:
  assumes "list_all (wf_request ieq) ms" and "ms \<noteq> []"
  shows "\<exists>r0 r1. rq_set_buffer ieq (concat (map render_request ms)) (rq_new v n) = Inr r0 \<and>
    pull (rq_next ieq) cur_code seen r0 = Some (concat (map request_tokens ms), Inr r1) \<and>
    cur_code r1 = code_error_insufficient_data \<and> rest r1 = []"
  using rq_new_pulls [OF assms] .

text \<open>A request in chunks with a trailer, and one without a body behind it.\<close>

definition sample_post :: request_message where
  "sample_post = \<lparr>rm_method = ''POST'', rm_target = ''/b'', rm_minor = CHR ''1'',
     rm_fields =
       [\<lparr>hf_name = ''Host'', hf_ows = '' '', hf_value = ''x'', hf_trail = ''''\<rparr>,
        \<lparr>hf_name = ''Transfer-Encoding'', hf_ows = '' '', hf_value = ''chunked'', hf_trail = '' ''\<rparr>],
     rm_body = Chunked [\<lparr>ck_size = ''2'', ck_ext = '';k'', ck_data = ''hi''\<rparr>]
       \<lparr>ck_size = ''0'', ck_ext = '''', ck_data = ''''\<rparr>
       [\<lparr>hf_name = ''T'', hf_ows = '''', hf_value = ''v'', hf_trail = ''''\<rparr>]\<rparr>"

definition sample_get :: request_message where
  "sample_get = \<lparr>rm_method = ''GET'', rm_target = ''/a'', rm_minor = CHR ''1'',
     rm_fields = [\<lparr>hf_name = ''Host'', hf_ows = '' '', hf_value = ''x'', hf_trail = ''''\<rparr>],
     rm_body = No_body\<rparr>"

lemma sample_requests_wf: "wf_request stream_exact sample_post" "wf_request stream_exact sample_get"
  by (simp_all add: sample_post_def sample_get_def wf_request_def wf_field_def wf_chunk_def values_of_def
      rq_kind_def hexadecimal_value_def chunk_size_digit_def list_elements_def trim_def isspace_def
      chunked_role_def class_defs)

theorem request_roundtrip_witness:
  "list_all (wf_request stream_exact) [sample_post, sample_get] \<and>
   (\<exists>r0 r1. rq_set_buffer stream_exact (render_request sample_post @ render_request sample_get)
       (rq_new RQ_HTTP_1_0 0) = Inr r0 \<and>
     pull (rq_next stream_exact) cur_code seen r0 =
       Some (request_tokens sample_post @ request_tokens sample_get, Inr r1) \<and> rest r1 = [])"
proof -
  have "list_all (wf_request stream_exact) [sample_post, sample_get]" by (simp add: sample_requests_wf)
  with request_roundtrip [OF this, of RQ_HTTP_1_0 0] show ?thesis by auto
qed

section \<open>Requests in pieces\<close>

text \<open>C11: however the input is cut, the request reader gives the same tokens. A client sets the
  buffer to the octets the reader has left and the next piece, pulls the tokens until data are
  missing, and goes on with the next piece. It is given, from any reader that waits for data, the
  tokens it would be given from all pieces in one buffer, up to the division of runs of octets to
  skip and of runs of body octets among tokens; and the loops end the same way: with the same fault,
  the same error, or both waiting for data at the same point of the stream.\<close>

theorem request_split:
  assumes "rq_inv r" and "cur_code r = code_error_insufficient_data" and "ds \<noteq> []"
  shows "\<exists>ts x us y.
    feed (rq_set_buffer ieq) (rq_next ieq) ds r = Some (ts, x) \<and>
    feed (rq_set_buffer ieq) (rq_next ieq) [concat ds] r = Some (us, y) \<and>
    merged ts = merged us \<and> same_end rq_sim y x"
  using rq.feed_pieces [OF assms] .

text \<open>Body octets that arrive in two pieces are one more token, which merging takes back.\<close>

definition sample_pieces :: "octets list" where
  "sample_pieces = [''POS'', ''T /b HTTP/1.1'' @ [CHR 0x0D], [CHR 0x0A] @ ''Host: '', '' x'' @ [CHR 0x0D, CHR 0x0A],
     ''Content-Length: 3'' @ [CHR 0x0D, CHR 0x0A, CHR 0x0D, CHR 0x0A] @ ''a'', ''bc'']"

theorem request_split_witness:
  "rq_inv (rq_new RQ_HTTP_1_0 0) \<and> cur_code (rq_new RQ_HTTP_1_0 0) = code_error_insufficient_data \<and>
   (\<exists>ts x us y.
    feed (rq_set_buffer stream_exact) (rq_next stream_exact) sample_pieces (rq_new RQ_HTTP_1_0 0) = Some (ts, x) \<and>
    feed (rq_set_buffer stream_exact) (rq_next stream_exact) [concat sample_pieces] (rq_new RQ_HTTP_1_0 0) =
      Some (us, y) \<and> merged ts = merged us \<and> same_end rq_sim y x)"
proof -
  have wait: "cur_code (rq_new RQ_HTTP_1_0 0) = code_error_insufficient_data" by (simp add: rq_new_def)
  moreover have "sample_pieces \<noteq> []" by (simp add: sample_pieces_def)
  ultimately show ?thesis using request_split [OF rq_new_inv wait] rq_new_inv by blast
qed

text \<open>C12: the round trip holds for requests in pieces: a new reader that is given the octets of
  whole requests, cut in any number of pieces at any places, gives their tokens, up to the division
  of octets to skip and of body octets, and then waits for data with nothing left over.\<close>

theorem request_roundtrip_pieces:
  assumes "list_all (wf_request ieq) ms" and "ms \<noteq> []" and "concat ds = concat (map render_request ms)"
  shows "\<exists>ts r. feed (rq_set_buffer ieq) (rq_next ieq) ds (rq_new v n) = Some (ts, Inr r) \<and>
    merged ts = merged (concat (map request_tokens ms)) \<and>
    cur_code r = code_error_insufficient_data \<and> rest r = []"
proof -
  let ?r = "rq_new v n"
  have new: "waiting ?r" "rest ?r = []" by (simp_all add: rq_new_def rest_def)
  from rq_new_pulls [OF assms(1,2)] obtain r0 r1 where whole: "rq_set_buffer ieq (concat ds) ?r = Inr r0"
    "pull (rq_next ieq) cur_code seen r0 = Some (concat (map request_tokens ms), Inr r1)"
    and r1: "waiting r1" "rest r1 = []" unfolding assms(3) by blast
  then have one: "feed (rq_set_buffer ieq) (rq_next ieq) [concat ds] ?r =
      Some (concat (map request_tokens ms), Inr r1)" using new(2) by simp
  have "ds \<noteq> []" using assms(2,3) by (cases ms) (auto simp: render_request_def)
  from rq.feed_pieces [OF rq_new_inv new(1) this, where ieq = ieq, unfolded one] obtain ts x
    where ts: "feed (rq_set_buffer ieq) (rq_next ieq) ds ?r = Some (ts, x)"
      "merged ts = merged (concat (map request_tokens ms))" "same_end rq_sim (Inr r1) x"
    by blast
  from ts(3) r1 obtain r where "x = Inr r" "waiting r" "rest r = []" by (cases x) (auto simp: rq_sim_def)
  with ts show ?thesis by blast
qed

theorem request_roundtrip_pieces_witness:
  "\<exists>ts r. feed (rq_set_buffer stream_exact) (rq_next stream_exact)
       [''G'', ''ET /a HTTP/1.1'' @ [CHR 0x0D], [CHR 0x0A] @ ''Host: '', ''x'' @ [CHR 0x0D, CHR 0x0A, CHR 0x0D], [CHR 0x0A]]
       (rq_new RQ_HTTP_1_0 0) = Some (ts, Inr r) \<and>
     merged ts = merged (request_tokens sample_get) \<and> rest r = []"
proof -
  have "list_all (wf_request stream_exact) [sample_get]" by (simp add: sample_requests_wf)
  moreover have "concat [''G'', ''ET /a HTTP/1.1'' @ [CHR 0x0D], [CHR 0x0A] @ ''Host: '',
      ''x'' @ [CHR 0x0D, CHR 0x0A, CHR 0x0D], [CHR 0x0A]] = concat (map render_request [sample_get])"
    by (simp add: sample_get_def render_request_def render_field_def rq_static_str_def)
  ultimately show ?thesis
    using request_roundtrip_pieces [of stream_exact "[sample_get]" _ RQ_HTTP_1_0 0] by fastforce
qed

section \<open>Responses\<close>

text \<open>C10: responses that are written to the grammar on a connection that stays open are read back
  by a client that tells the method at every status code: the tokens are those of these responses,
  with their octets, without a body where method and status code rule it out, and with the length
  or the chunks the header fields announce otherwise.\<close>

theorem response_roundtrip:
  assumes "list_all (wf_response ieq meth) ms" and "ms \<noteq> []"
  shows "\<exists>r0 r1. rs_set_buffer ieq (concat (map render_response ms)) (rs_new n) = Inr r0 \<and>
    pull (rs_client_next ieq meth) cur_code seen r0 = Some (concat (map response_tokens ms), Inr r1) \<and>
    cur_code r1 = code_error_insufficient_data \<and> rest r1 = []"
proof -
  let ?buf = "concat (map render_response ms)" and ?ts = "concat (map response_tokens ms)"
  let ?r = "rs_new n\<lparr>ibuffer := ?buf, idx := 0\<rparr>"
  have "yields (rs_client_next ieq meth) rs_at_start ?buf ?ts rs_at_start []"
    using rs_reads_responses [OF assms(1), of "[]"] by simp
  from yieldsD [OF this rs_new_ahead] obtain r'
    where r': "gives (rs_client_next ieq meth) ?r ?ts r'" "rs_at_start r'" "ahead r' []" by blast
  have ts: "?ts \<noteq> []" using assms(2) by (cases ms) (simp_all add: response_tokens_def)
  with r'(1) obtain r0 where r0: "rs_client_next ieq meth ?r = Inr r0" by (cases ?ts) auto
  have "pull (rs_client_next ieq meth) cur_code (\<lambda>r. (cur_code r, token_prefix r)) r0 =
      Some (?ts, Inr (consume r'))"
    using r' ts r0 rs_next_end(1) [OF r'(2,3), of ieq meth] response_tokens_no_error
    by (intro pull_gives) auto
  moreover have "rs_set_buffer ieq ?buf (rs_new n) = Inr r0"
    using r0 by (simp add: rs_set_buffer_def rs_new_def rs_client_next_def)
  ultimately show ?thesis
    using rs_next_end(2) [OF r'(2,3)] by (auto simp: seen_def [abs_def])
qed

definition sample_ok :: response_message where
  "sample_ok = \<lparr>sm_minor = CHR ''1'', sm_status = ''200'', sm_reason = ''OK'',
     sm_fields = [\<lparr>hf_name = ''Content-Length'', hf_ows = '' '', hf_value = ''2'', hf_trail = ''''\<rparr>],
     sm_body = Sized ''hi''\<rparr>"

definition sample_not_modified :: response_message where
  "sample_not_modified = \<lparr>sm_minor = CHR ''1'', sm_status = ''304'', sm_reason = '''',
     sm_fields = [\<lparr>hf_name = ''Content-Length'', hf_ows = '' '', hf_value = ''2'', hf_trail = ''''\<rparr>],
     sm_body = No_body\<rparr>"

theorem response_roundtrip_witness:
  "list_all (wf_response stream_exact ''GET'') [sample_ok, sample_not_modified] \<and>
   (\<exists>r0 r1. rs_set_buffer stream_exact (render_response sample_ok @ render_response sample_not_modified)
       (rs_new 0) = Inr r0 \<and>
     pull (rs_client_next stream_exact ''GET'') cur_code seen r0 =
       Some (response_tokens sample_ok @ response_tokens sample_not_modified, Inr r1) \<and> rest r1 = [])"
proof -
  have "list_all (wf_response stream_exact ''GET'') [sample_ok, sample_not_modified]"
    by (simp add: sample_ok_def sample_not_modified_def wf_response_def wf_field_def values_of_def
        rs_kind_def decimal_value_def content_length_digit_def forbids_body_def class_defs)
  with response_roundtrip [OF this, of 0] show ?thesis by auto
qed

end
