(* ===== verification/Client_Loop.thy ===== *)
theory Client_Loop
  imports Message_Stream
begin

text \<open>
  The loops of the clients under \<open>src/doc\<close>: \<open>while\<close> loops whose body may also leave
  the enclosing function. \<open>None\<close> would be a loop that does not end. The locale
  \<open>client_loop_total\<close> holds what makes such a loop end, the locale \<open>token_client\<close> what a
  client does with the tokens of a reader, one per round; the clients interpret them.
\<close>

text \<open>How a client may fail: a fault of the reader it calls, a call of \<open>qFatal\<close>, an
  exception of its own. A loop is left early by a failure or by \<open>return\<close>.\<close>

datatype client_failure = Faulted fault | Fatal | Thrown octets

datatype 's client_exit = Returned 's | Failed client_failure

partial_function (option) client_loop ::
  "('s \<Rightarrow> bool) \<Rightarrow> ('s \<Rightarrow> 'e + 's) \<Rightarrow> 's \<Rightarrow> ('e + 's) option" where
  "client_loop stop body s =
     (if stop s then Some (Inr s)
      else case body s of
          Inl e \<Rightarrow> Some (Inl e)
        | Inr s' \<Rightarrow> client_loop stop body s')"

declare client_loop.simps [code]

lemma client_loop_stop: "stop s \<Longrightarrow> client_loop stop body s = Some (Inr s)"
  by (subst client_loop.simps) simp

lemma client_loop_leave: "\<not> stop s \<Longrightarrow> body s = Inl e \<Longrightarrow> client_loop stop body s = Some (Inl e)"
  by (subst client_loop.simps) simp

lemma client_loop_step:
  "\<not> stop s \<Longrightarrow> body s = Inr s' \<Longrightarrow> client_loop stop body s = client_loop stop body s'"
  by (subst client_loop.simps) simp

text \<open>The states at the head of the loop.\<close>

inductive loop_reaches :: "('s \<Rightarrow> bool) \<Rightarrow> ('s \<Rightarrow> 'e + 's) \<Rightarrow> 's \<Rightarrow> 's \<Rightarrow> bool" for stop body where
  reaches_start: "loop_reaches stop body s s"
| reaches_round: "\<not> stop s \<Longrightarrow> body s = Inr s' \<Longrightarrow> loop_reaches stop body s' t \<Longrightarrow> loop_reaches stop body s t"

lemma loop_reaches_unfold:
  "loop_reaches stop body s t \<longleftrightarrow>
   t = s \<or> (\<exists>s'. \<not> stop s \<and> body s = Inr s' \<and> loop_reaches stop body s' t)"
  by (subst loop_reaches.simps) auto

lemma client_loop_reaches: "loop_reaches stop body s t \<Longrightarrow> client_loop stop body s = client_loop stop body t"
  by (induction rule: loop_reaches.induct) (simp_all add: client_loop_step)

text \<open>\<open>leaves s e\<close>: what is known when the loop is left by \<open>e\<close> in the state \<open>s\<close>.\<close>

locale client_loop_total =
  fixes stop :: "'s \<Rightarrow> bool"
    and body :: "'s \<Rightarrow> 'e + 's"
    and inv :: "'s \<Rightarrow> bool"
    and leaves :: "'s \<Rightarrow> 'e \<Rightarrow> bool"
    and work :: "'s \<Rightarrow> nat"
  assumes step: "inv s \<Longrightarrow> \<not> stop s \<Longrightarrow> body s = Inr s' \<Longrightarrow> inv s' \<and> work s' < work s"
    and leave: "inv s \<Longrightarrow> \<not> stop s \<Longrightarrow> body s = Inl e \<Longrightarrow> leaves s e"
begin

lemma reaches_inv: "loop_reaches stop body s t \<Longrightarrow> inv s \<Longrightarrow> inv t"
  by (induction rule: loop_reaches.induct) (auto dest: step)

text \<open>A flag that a round sets in the states \<open>P\<close> and nowhere else.\<close>

lemma reaches_flag:
  assumes "loop_reaches stop body s t" and "stop t" and "inv s" and "\<And>s. P s \<Longrightarrow> \<not> stop s"
    and "\<And>s s'. inv s \<Longrightarrow> \<not> stop s \<Longrightarrow> body s = Inr s' \<Longrightarrow> flag s' \<longleftrightarrow> flag s \<or> P s"
  shows "flag t \<longleftrightarrow> flag s \<or> (\<exists>u. loop_reaches stop body s u \<and> P u)"
  using assms(1-3)
proof (induction rule: loop_reaches.induct)
  case (reaches_start s)
  have "loop_reaches stop body s u \<longleftrightarrow> u = s" for u
    using reaches_start.prems(1) by (subst loop_reaches_unfold) simp
  then show ?case using assms(4) [of s] reaches_start.prems(1) by auto
next
  case (reaches_round s s' t)
  have "loop_reaches stop body s u \<longleftrightarrow> u = s \<or> loop_reaches stop body s' u" for u
    using reaches_round.hyps(1,2) by (subst loop_reaches_unfold) simp
  moreover have "flag s' \<longleftrightarrow> flag s \<or> P s" by (rule assms(5) [OF reaches_round.prems(2) reaches_round.hyps(1,2)])
  moreover have "flag t \<longleftrightarrow> flag s' \<or> (\<exists>u. loop_reaches stop body s' u \<and> P u)"
    using reaches_round.IH reaches_round.prems step [OF _ reaches_round.hyps(1,2)] by simp
  ultimately show ?case by auto
qed

lemma loop_ends:
  assumes "inv s"
  shows "\<exists>x t. client_loop stop body s = Some x \<and> loop_reaches stop body s t \<and> inv t \<and>
    (case x of Inl e \<Rightarrow> \<not> stop t \<and> leaves t e | Inr s' \<Rightarrow> s' = t \<and> stop t)"
  using assms
proof (induction "work s" arbitrary: s rule: less_induct)
  case less
  show ?case
  proof (cases "stop s")
    case True
    with less.prems show ?thesis
      by (intro exI [of _ "Inr s"] exI [of _ s]) (simp add: client_loop_stop reaches_start)
  next
    case False
    show ?thesis
    proof (cases "body s")
      case (Inl e)
      with False less.prems leave show ?thesis
        by (intro exI [of _ "Inl e"] exI [of _ s]) (simp add: client_loop_leave reaches_start)
    next
      case (Inr s')
      note step' = step [OF less.prems False Inr]
      from less.hyps [of s'] step' obtain x t where "client_loop stop body s' = Some x"
        "loop_reaches stop body s' t" "inv t"
        "case x of Inl e \<Rightarrow> \<not> stop t \<and> leaves t e | Inr s' \<Rightarrow> s' = t \<and> stop t" by blast
      with False Inr show ?thesis
        by (intro exI [of _ x] exI [of _ t]) (simp add: client_loop_step reaches_round)
    qed
  qed
qed

end

text \<open>A loop whose body leads from states of a set back into it, none of which stops, does not
  return.\<close>

lemma client_loop_diverges:
  assumes "s \<in> S" and "\<And>s. s \<in> S \<Longrightarrow> \<not> stop s \<and> (\<exists>s'. body s = Inr s' \<and> s' \<in> S)"
  shows "client_loop stop body s = None"
proof (rule ccontr)
  assume "client_loop stop body s \<noteq> None"
  then obtain x where "client_loop stop body s = Some x" by blast
  then have "stop = stop \<longrightarrow> body = body \<longrightarrow> s \<notin> S"
  proof (rule client_loop.raw_induct [of "\<lambda>stop' body' s x. stop' = stop \<longrightarrow> body' = body \<longrightarrow> s \<notin> S", rotated])
    fix loop stop' body' s x
    assume IH: "\<And>stop' body' s x. loop stop' body' s = Some x \<Longrightarrow> stop' = stop \<longrightarrow> body' = body \<longrightarrow> s \<notin> S"
      and run: "(if stop' s then Some (Inr s)
        else case body' s of Inl e \<Rightarrow> Some (Inl e) | Inr s' \<Rightarrow> loop stop' body' s') = Some x"
    show "stop' = stop \<longrightarrow> body' = body \<longrightarrow> s \<notin> S"
      using run IH [of stop body] assms(2) [of s] by auto
  qed
  with assms(1) show False by simp
qed

section \<open>Clients of a reader\<close>

text \<open>A round of the loop handles the current token and asks for the next one. \<open>put s r\<close> is the
  state \<open>s\<close> with the reader \<open>r\<close>, and \<open>effect t\<close> what the client does on a token
  \<open>t\<close> it can use. Over the tokens a reader gives, all but the last, the loop is a fold of the
  effects.\<close>

locale token_client =
  fixes next_token :: "'x reader_data_scheme \<Rightarrow> fault + 'x reader_data_scheme"
    and stop :: "'s \<Rightarrow> bool"
    and body :: "'s \<Rightarrow> 'e + 's"
    and put :: "'s \<Rightarrow> 'x reader_data_scheme \<Rightarrow> 's"
    and effect :: "token \<Rightarrow> 's \<Rightarrow> 's"
    and usable :: "token \<Rightarrow> bool"
    and sound :: "'x reader_data_scheme \<Rightarrow> bool"
  assumes round: "sound r \<Longrightarrow> usable (cur_code r, token_prefix r) \<Longrightarrow> next_token r = Inr r' \<Longrightarrow>
      \<not> stop (put s r) \<and> body (put s r) = Inr (put (effect (cur_code r, token_prefix r) s) r')"
    and next_sound: "sound r \<Longrightarrow> next_token r = Inr r' \<Longrightarrow> sound r'"
begin

lemma loop_tokens:
  assumes "gives next_token r ts r'" and "sound r"
    and "list_all usable (butlast ((cur_code r, token_prefix r) # ts))"
  shows "client_loop stop body (put s r) =
    client_loop stop body (put (fold effect (butlast ((cur_code r, token_prefix r) # ts)) s) r')"
  using assms
proof (induction ts arbitrary: r s)
  case Nil
  then show ?case by simp
next
  case (Cons t ts)
  then obtain r1 where r1: "next_token r = Inr r1" "(cur_code r1, token_prefix r1) = t"
    "gives next_token r1 ts r'" by auto
  let ?x = "(cur_code r, token_prefix r)"
  have ok: "usable ?x" "list_all usable (butlast (t # ts))" using Cons.prems(3) by simp_all
  have "client_loop stop body (put s r) = client_loop stop body (put (effect ?x s) r1)"
    using round [OF Cons.prems(2) ok(1) r1(1)] by (blast intro: client_loop_step)
  also have "\<dots> = client_loop stop body (put (fold effect (butlast (t # ts)) (effect ?x s)) r')"
    using Cons.IH [OF r1(3) next_sound [OF Cons.prems(2) r1(1)]] ok(2) r1(2) by simp
  finally show ?case by simp
qed

text \<open>The loop from the call of \<open>next()\<close> that gives the first of the tokens.\<close>

lemma loop_from_first:
  assumes "gives next_token r ts r'" and "ts \<noteq> []" and "sound r" and "list_all usable (butlast ts)"
  obtains r0 where "next_token r = Inr r0"
    and "client_loop stop body (put s r0) = client_loop stop body (put (fold effect (butlast ts) s) r')"
proof -
  obtain t us where ts: "ts = t # us" using assms(2) by (cases ts) auto
  with assms(1) obtain r0 where r0: "next_token r = Inr r0" "(cur_code r0, token_prefix r0) = t"
    "gives next_token r0 us r'" by auto
  have "client_loop stop body (put s r0) =
      client_loop stop body (put (fold effect (butlast (t # us)) s) r')"
    using loop_tokens [OF r0(3) next_sound [OF assms(3) r0(1)]] assms(4) r0(2) ts by simp
  with that r0(1) ts show thesis by simp
qed

end

section \<open>Header fields\<close>

type_synonym header_map = "(octets \<times> octets) list"

abbreviation pairs_of :: "header_field list \<Rightarrow> header_map" where
  "pairs_of hs \<equiv> map (\<lambda>h. (hf_name h, hf_value h)) hs"

definition trimmed :: "octets \<Rightarrow> octets" where
  "trimmed t = (case decode_field_value t of Inl _ \<Rightarrow> [] | Inr v \<Rightarrow> v)"

lemma trimmed_field: "wf_field h \<Longrightarrow> trimmed (hf_value h @ hf_trail h) = hf_value h"
  by (simp add: trimmed_def wf_field_def decode_field_value_trail)

lemma decode_field_value_trimmed: "v \<noteq> [] \<Longrightarrow> decode_field_value v = Inr (trimmed v)"
  by (simp add: trimmed_def decode_field_value_def Let_def)

lemma decode_field_value_fault: "decode_field_value v = Inl f \<Longrightarrow> f = Out_of_bounds \<and> v = []"
  by (simp add: decode_field_value_def split: if_splits)

section \<open>Buffers between two calls\<close>

lemma keeps_token_more: "keeps_token buf r \<Longrightarrow> keeps_token (buf @ d) r"
  by (simp add: keeps_token_def)

lemma keeps_token_rest: "in_range r \<Longrightarrow> keeps_token (rest r) r"
  by (auto simp: keeps_token_def token_prefix_def in_range_def)

text \<open>The octet of a token of size one.\<close>

lemma byte_at_token:
  assumes "token_prefix r = [d]"
  shows "byte_at (ibuffer r) (idx r) = Inr d"
proof -
  obtain u where u: "drop (idx r) (ibuffer r) = d # u"
    using assms by (cases "drop (idx r) (ibuffer r)") (auto simp: token_prefix_def rest_def take_Cons' split: if_splits)
  then have "idx r < length (ibuffer r)" by (metis drop_eq_Nil2 leI list.distinct(1))
  with u show ?thesis by (metis byte_at_ok hd_drop_conv_nth list.sel(1))
qed

end
