(* ===== verification/Request_Client.thy ===== *)
theory Request_Client
  imports Request_Init Request_Stream Request_Resume Client_Loop
begin

text \<open>
  What the clients of the request reader share: facts about the token a call of \<open>next()\<close> gives,
  the tokens of a rendered request a client can use without leaving its loop, and the end of a
  message in a buffer that is cut there.
\<close>

section \<open>The current token\<close>

text \<open>Facts about the current token that single calls of \<open>next()\<close> keep: a version is one octet,
  the end of a message is followed by a new one, and the codes of responses never come.\<close>

definition rq_sane :: "request \<Rightarrow> bool" where
  "rq_sane r \<longleftrightarrow> cur_code r \<notin> response_codes \<and> (cur_code r = code_version \<longrightarrow> token_size r = 1) \<and>
     (cur_code r = code_end_of_message \<longrightarrow> state r = RQ_EXPECT_METHOD)"

lemma rq_switch_sane:
  assumes "cur_code r = code_error_insufficient_data"
  shows "outcome_all rq_sane (rq_switch ieq r)"
  using assms
  by (cases "state r")
     (simp_all add: rq_all_simps rq_sane_def response_codes_def split: rq_goal_splits)

lemma rq_next_sane:
  assumes "rq_inv r" and "rq_sane r" and "rq_next ieq r = Inr r'"
  shows "rq_sane r'"
  using assms(1)
proof (cases rule: rq_next_cases [where ieq = ieq])
  case ready
  from ready(1) show ?thesis
  proof (cases rule: rq_next_ready_cases [where ieq = ieq])
    case (once r2)
    then show ?thesis using ready assms(3) rq_switch_sane [of "consume r" ieq] by simp
  next
    case (twice r1 r2)
    then have "cur_code r1 = code_error_insufficient_data" by (simp add: rq_ready_def)
    from rq_switch_sane [OF this, of ieq] twice ready assms(3) show ?thesis by simp
  next
    case fault
    then show ?thesis using ready assms(3) by simp
  qed
qed (use assms in \<open>auto simp: rq_sane_def response_codes_def\<close>)

lemma rq_next_fault_bounds: "rq_inv r \<Longrightarrow> rq_next ieq r = Inl f \<Longrightarrow> f = Out_of_bounds"
  using rq_next_fault_iff [of r ieq f] by simp

lemma gives_inv:
  "gives (rq_next ieq) r ts r' \<Longrightarrow> rq_inv r \<Longrightarrow> rq_sane r \<Longrightarrow>
   rq_inv r' \<and> rq_sane r' \<and> ibuffer r' = ibuffer r"
proof (induction ts arbitrary: r)
  case (Cons t ts)
  then obtain r1 where r1: "rq_next ieq r = Inr r1" "gives (rq_next ieq) r1 ts r'" by auto
  with Cons rq_next_inv [of r ieq r1] rq_next_sane [of r ieq r1] rq_next_frame [of r ieq r1] show ?case
    by simp
qed simp

section \<open>Tokens that keep a client in its loop\<close>

definition plain_token :: "token \<Rightarrow> bool" where
  "plain_token x \<longleftrightarrow> symbol_convert (fst x) \<noteq> symbol_error \<and> fst x \<notin> response_codes \<and>
     fst x \<noteq> code_end_of_message \<and> (fst x = code_version \<longrightarrow> length (snd x) = 1) \<and>
     (fst x \<in> {code_field_value, code_trailer_value} \<longrightarrow> snd x \<noteq> [])"

lemma body_tokens_ne [simp]: "body_tokens b \<noteq> []"
  by (cases b) simp_all

lemma last_body_tokens: "fst (last (body_tokens b)) = code_end_of_message"
  by (cases b) simp_all

lemma request_tokens_ne [simp]: "request_tokens m \<noteq> []"
  by (simp add: request_tokens_def)

lemma butlast_request_tokens:
  "butlast (request_tokens m) =
     [(code_method, rm_method m), (code_skip, '' ''), (code_request_target, rm_target m),
      (code_skip, rq_static_str), (code_version, [rm_minor m]), (code_skip, CRLF)] @
     fields_tokens code_field_name code_field_value (rm_fields m) @
     [(code_end_of_headers, CRLF)] @ butlast (body_tokens (rm_body m))"
  by (simp add: request_tokens_def butlast_append)

lemma body_tokens_plain:
  assumes "wf_body b"
  shows "list_all plain_token (butlast (body_tokens b))"
proof (cases b)
  case (Chunked cs l ts)
  with assms have "list_all wf_field ts" by simp
  then have "list_all plain_token (fields_tokens code_trailer_name code_trailer_value ts)"
    by (auto simp: list_all_iff field_tokens_def wf_field_def plain_token_def response_codes_def)
  moreover have "list_all plain_token (chunk_line_tokens c k)" if "c \<in> {code_skip, code_end_of_body}" for c k
    using that by (auto simp: chunk_line_tokens_def plain_token_def response_codes_def)
  moreover from this have "list_all plain_token (concat (map chunk_tokens cs))"
    by (auto simp: list_all_iff chunk_tokens_def plain_token_def response_codes_def)
  ultimately show ?thesis
    unfolding Chunked body_tokens.simps append_assoc [symmetric] butlast_snoc by simp
qed (auto simp: plain_token_def response_codes_def butlast_append)

lemma request_tokens_plain:
  assumes "wf_request ieq m"
  shows "list_all plain_token (butlast (request_tokens m))"
proof -
  have wf: "list_all wf_field (rm_fields m)" "wf_body (rm_body m)"
    using assms by (simp_all add: wf_request_def)
  then have "list_all plain_token (fields_tokens code_field_name code_field_value (rm_fields m))"
    by (auto simp: list_all_iff field_tokens_def wf_field_def plain_token_def response_codes_def)
  with body_tokens_plain [OF wf(2)] show ?thesis
    unfolding butlast_request_tokens by (simp add: plain_token_def response_codes_def)
qed

text \<open>A whole request that is ahead of the reader.\<close>

lemma rq_reads_whole:
  assumes "wf_request ieq m" and "rq_inv r" and "rq_sane r" and "rq_at_start r"
    and "ahead r (render_request m @ behind)"
  shows "\<exists>r'. gives (rq_next ieq) r (request_tokens m) r' \<and> ahead r' behind \<and> rq_at_start r' \<and>
    cur_code r' = code_end_of_message \<and> rq_inv r' \<and> rq_sane r' \<and> ibuffer r' = ibuffer r"
proof -
  from yieldsD [OF rq_reads_request [OF assms(1)] assms(4,5)] obtain r' where
    r': "gives (rq_next ieq) r (request_tokens m) r'" "rq_at_start r'" "ahead r' behind" by blast
  have "(cur_code r', token_prefix r') = last (body_tokens (rm_body m))"
    using gives_last [OF r'(1)] by (simp add: request_tokens_def)
  then have "cur_code r' = code_end_of_message"
    using last_body_tokens [of "rm_body m"] by (metis fst_conv)
  with r' gives_inv [OF r'(1) assms(2,3)] show ?thesis by blast
qed

section \<open>The end of a message in a buffer cut there\<close>

lemma rq_next_last_token:
  assumes "rq_inv r" and "rq_sane r" and "cur_code r = code_end_of_message"
  defines "r1 \<equiv> r\<lparr>ibuffer := token_prefix r, idx := 0\<rparr>"
  shows "rq_next ieq r1 = Inr (consume r1)" and "rq_inv r1"
    and "idx (consume r1) = token_size r" and "token_size (consume r1) = 0"
    and "cur_code (consume r1) = code_error_insufficient_data"
proof -
  have len: "length (token_prefix r) = token_size r"
    using assms(1) by (auto simp: rq_inv_def in_range_def token_prefix_def)
  then have "keeps_token (token_prefix r) r" by (simp add: keeps_token_def)
  then show "rq_inv r1" unfolding r1_def using assms(1) by (intro rq_rebuffer_inv)
  show "rq_next ieq r1 = Inr (consume r1)"
    using assms(2,3) len by (subst rq_next.simps) (simp add: r1_def rq_sane_def consume_def)
  show "idx (consume r1) = token_size r" "token_size (consume r1) = 0"
    "cur_code (consume r1) = code_error_insufficient_data"
    using assms(3) by (simp_all add: r1_def consume_def)
qed

section \<open>The same octets in another buffer\<close>

lemma rq_gives_sim:
  assumes "gives (rq_next ieq) r ts r'" and "rq_inv r" and "rq_inv s" and "rq_sim r s"
    and "\<forall>t \<in> set ts. symbol_convert (fst t) \<noteq> symbol_error"
  shows "\<exists>s'. gives (rq_next ieq) s ts s' \<and> rq_sim r' s'"
  using assms
proof (induction ts arbitrary: r s)
  case (Cons t ts)
  then obtain r1 where r1: "rq_next ieq r = Inr r1" "(cur_code r1, token_prefix r1) = t"
    "gives (rq_next ieq) r1 ts r'" by auto
  from rq_next_sim [OF Cons.prems(2-4), of ieq] r1(1) obtain s1 where
    s1: "rq_next ieq s = Inr s1" "rq_sim r1 s1" by (cases "rq_next ieq s") auto
  have "symbol_convert (cur_code r1) \<noteq> symbol_error" using Cons.prems(5) r1(2) by auto
  with s1(2) r1(2) have "(cur_code s1, token_prefix s1) = t"
    by (auto simp: rq_sim_def token_prefix_def)
  moreover have "rq_inv r1" "rq_inv s1"
    using rq_next_inv [OF Cons.prems(2) r1(1)] rq_next_inv [OF Cons.prems(3) s1(1)] by simp_all
  with Cons.IH [OF r1(3) _ _ s1(2)] Cons.prems(5) obtain s' where
    "gives (rq_next ieq) s1 ts s'" "rq_sim r' s'" by auto
  ultimately show ?case using s1(1) by auto
qed auto

text \<open>The octets a client counts over the tokens it is given.\<close>

lemma rq_gives_count:
  assumes "gives (rq_next ieq) r ts r'" and "rq_inv r"
    and "\<forall>t \<in> set (butlast ((cur_code r, token_prefix r) # ts)). symbol_convert (fst t) \<noteq> symbol_error"
  shows "idx r' = idx r + sum_list (map (length \<circ> snd) (butlast ((cur_code r, token_prefix r) # ts)))"
  using assms
proof (induction ts arbitrary: r)
  case (Cons t ts)
  then obtain r1 where r1: "rq_next ieq r = Inr r1" "(cur_code r1, token_prefix r1) = t"
    "gives (rq_next ieq) r1 ts r'" by auto
  have ok: "symbol_convert (cur_code r) \<noteq> symbol_error" using Cons.prems(3) by simp
  then have "state r \<noteq> RQ_ERRORED" "cur_code r \<noteq> code_error_insufficient_data"
    using Cons.prems(2) by (auto simp: rq_inv_def final_error_def)
  then have "idx r1 = idx r + token_size r"
    using rq_next_frame [OF Cons.prems(2) r1(1)] by (simp add: consume_def)
  moreover have "length (token_prefix r) = token_size r"
    using Cons.prems(2) by (auto simp: rq_inv_def in_range_def token_prefix_def)
  moreover have "\<forall>t \<in> set (butlast ((cur_code r1, token_prefix r1) # ts)). symbol_convert (fst t) \<noteq> symbol_error"
    using Cons.prems(3) r1(2) by auto
  ultimately show ?case
    using Cons.IH [OF r1(3) rq_next_inv [OF Cons.prems(2) r1(1)]] r1(2) by simp
qed simp

end
