(* ===== verification/Tufao_Server.thy ===== *)
theory Tufao_Server
  imports Request_Client Stream_Props
begin

text \<open>
  \<open>HttpServerRequest::onReadyRead()\<close> of \<open>doc/tufao.cpp\<close>: the slot a server runs when a
  socket has data. It appends the data to its buffer, hands the buffer to a request reader, and
  pulls tokens until the reader wants more data; at the end of a message it stops there and keeps
  the octets behind it for later. Every call of the environment, a closed socket, a timer, a
  severed connection or an emitted signal, is an entry of a log.

  Three things are not part of the repository and are arguments: \<open>ieq\<close>, the comparison of
  \<open>iequals\<close>; \<open>clear\<close>, what \<open>clearRequest()\<close> does to the data of the request;
  and \<open>found\<close>, where \<open>found key hs\<close> are the values an iterator visits from
  \<open>headers.find(key)\<close> to the end.
\<close>

section \<open>State\<close>

datatype http_version = Version_HTTP_1_0 | Version_HTTP_1_1

datatype response_option = Option_HTTP_1_0 | Option_HTTP_1_1 | Option_KEEP_ALIVE

datatype emit_flag = Flag_READY | Flag_DATA | Flag_END

datatype environment_call =
    Start_timer nat
  | Close_socket
  | Disconnect_readyRead
  | Disconnect_disconnected
  | Disconnect_timeout
  | Disconnect_data
  | Disconnect_end
  | Emit_upgrade
  | Emit_ready
  | Emit_data
  | Emit_end

text \<open>The members that describe the request, in the order of insertion for the two maps.\<close>

record request_data =
  d_method :: octets
  d_url :: octets
  d_version :: http_version
  d_headers :: header_map
  d_trailers :: header_map
  d_body :: octets
  d_last_header :: octets

record server_request =
  sv_timeout :: nat
  sv_buffer :: octets
  sv_parser :: request
  sv_data :: request_data
  sv_options :: "response_option set"
  sv_log :: "environment_call list"

text \<open>The local variables of the slot.\<close>

record slot_state =
  sl_priv :: server_request
  sl_emit :: "emit_flag set"
  sl_upgrade :: bool

section \<open>Operations\<close>

definition note_call :: "environment_call \<Rightarrow> server_request \<Rightarrow> server_request" where
  "note_call c p = p\<lparr>sv_log := sv_log p @ [c]\<rparr>"

text \<open>The predicate given to \<open>header_value_any_of\<close>; its captured variables are the state.\<close>

record connection_scan =
  cf_close :: bool
  cf_keep_alive :: bool
  cf_upgrade :: bool

definition connection_p :: "iequals \<Rightarrow> octets \<Rightarrow> connection_scan \<Rightarrow> bool \<times> connection_scan" where
  "connection_p ieq v c =
     (let c = (if ieq v ''close'' then c\<lparr>cf_close := True\<rparr> else c);
          c = (if ieq v ''keep-alive'' then c\<lparr>cf_keep_alive := True\<rparr> else c);
          c = (if ieq v ''upgrade'' then c\<lparr>cf_upgrade := True\<rparr> else c)
      in (False, c))"

fun connection_loop :: "iequals \<Rightarrow> octets list \<Rightarrow> connection_scan \<Rightarrow> connection_scan" where
  "connection_loop ieq [] c = c"
| "connection_loop ieq (v # vs) c =
     (let c = snd (header_value_any_of v (connection_p ieq) c)
      in if cf_close c then c else connection_loop ieq vs c)"

text \<open>The case \<open>symbol::end_of_headers\<close>.\<close>

definition server_end_of_headers ::
  "iequals \<Rightarrow> (octets \<Rightarrow> header_map \<Rightarrow> octets list) \<Rightarrow> slot_state \<Rightarrow> slot_state" where
  "server_end_of_headers ieq found s =
     (let p = sl_priv s;
          c = connection_loop ieq (found ''connection'' (d_headers (sv_data p)))
                \<lparr>cf_close = False, cf_keep_alive = False, cf_upgrade = sl_upgrade s\<rparr>;
          p = (if \<not> cf_close c \<and> (d_version (sv_data p) = Version_HTTP_1_1 \<or> cf_keep_alive c)
               then p\<lparr>sv_options := insert Option_KEEP_ALIVE (sv_options p)\<rparr> else p)
      in s\<lparr>sl_priv := p, sl_emit := {Flag_READY}, sl_upgrade := cf_upgrade c\<rparr>)"

text \<open>The case \<open>symbol::end_of_message\<close>: the reader is left with a buffer that ends with the
  message.\<close>

definition server_end_of_message :: "iequals \<Rightarrow> slot_state \<Rightarrow> fault + slot_state" where
  "server_end_of_message ieq s =
     (let p = sl_priv s;
          p = p\<lparr>sv_buffer := drop (rq_parsed_count (sv_parser p)) (sv_buffer p)\<rparr>
      in if length (sv_buffer p) < token_size (sv_parser p) then Inl Out_of_bounds
         else map_sum id (\<lambda>r.
           s\<lparr>sl_priv := note_call Disconnect_readyRead (p\<lparr>sv_parser := r\<rparr>),
             sl_emit := insert Flag_END (sl_emit s)\<rparr>)
           (rq_set_buffer ieq (take (token_size (sv_parser p)) (sv_buffer p)) (sv_parser p)))"

abbreviation update_data :: "(request_data \<Rightarrow> request_data) \<Rightarrow> slot_state \<Rightarrow> slot_state" where
  "update_data f s \<equiv> s\<lparr>sl_priv := (sl_priv s)\<lparr>sv_data := f (sv_data (sl_priv s))\<rparr>\<rparr>"

definition server_switch ::
  "iequals \<Rightarrow> (octets \<Rightarrow> header_map \<Rightarrow> octets list) \<Rightarrow> (request_data \<Rightarrow> request_data) \<Rightarrow> slot_state \<Rightarrow>
   slot_state client_exit + slot_state" where
  "server_switch ieq found clear s =
     (let p = sl_priv s; r = sv_parser p in
      case rq_symbol r of
        symbol_error \<Rightarrow> Inl (Returned (s\<lparr>sl_priv := note_call Close_socket p\<rparr>))
      | symbol_skip \<Rightarrow> Inr s
      | symbol_method \<Rightarrow>
          map_sum (Failed \<circ> Faulted) (\<lambda>v. s\<lparr>sl_priv := p\<lparr>sv_data := (clear (sv_data p))\<lparr>d_method := v\<rparr>,
                                               sv_options := {}\<rparr>\<rparr>) (rq_value_method r)
      | symbol_request_target \<Rightarrow>
          map_sum (Failed \<circ> Faulted) (\<lambda>v. update_data (\<lambda>d. d\<lparr>d_url := v\<rparr>) s) (rq_value_request_target r)
      | symbol_version \<Rightarrow>
          map_sum (Failed \<circ> Faulted) (\<lambda>v.
            if v = 0
            then s\<lparr>sl_priv := p\<lparr>sv_data := (sv_data p)\<lparr>d_version := Version_HTTP_1_0\<rparr>,
                                 sv_options := insert Option_HTTP_1_0 (sv_options p)\<rparr>\<rparr>
            else s\<lparr>sl_priv := p\<lparr>sv_data := (sv_data p)\<lparr>d_version := Version_HTTP_1_1\<rparr>,
                                 sv_options := insert Option_HTTP_1_1 (sv_options p)\<rparr>\<rparr>)
            (rq_value_version r)
      | symbol_status_code \<Rightarrow> Inl (Failed Fatal)
      | symbol_reason_phrase \<Rightarrow> Inl (Failed Fatal)
      | symbol_field_name \<Rightarrow>
          map_sum (Failed \<circ> Faulted) (\<lambda>v. update_data (\<lambda>d. d\<lparr>d_last_header := v\<rparr>) s) (rq_value_field_name r)
      | symbol_trailer_name \<Rightarrow>
          map_sum (Failed \<circ> Faulted) (\<lambda>v. update_data (\<lambda>d. d\<lparr>d_last_header := v\<rparr>) s) (rq_value_field_name r)
      | symbol_field_value \<Rightarrow>
          map_sum (Failed \<circ> Faulted) (\<lambda>v. update_data (\<lambda>d. d\<lparr>d_headers := d_headers d @ [(d_last_header d, v)],
            d_last_header := []\<rparr>) s) (rq_value_field_value r)
      | symbol_trailer_value \<Rightarrow>
          map_sum (Failed \<circ> Faulted) (\<lambda>v. update_data (\<lambda>d. d\<lparr>d_trailers := d_trailers d @ [(d_last_header d, v)],
            d_last_header := []\<rparr>) s) (rq_value_trailer_value r)
      | symbol_end_of_headers \<Rightarrow> Inr (server_end_of_headers ieq found s)
      | symbol_body_chunk \<Rightarrow>
          map_sum (Failed \<circ> Faulted) (\<lambda>v. (update_data (\<lambda>d. d\<lparr>d_body := d_body d @ v\<rparr>) s)
            \<lparr>sl_emit := insert Flag_DATA (sl_emit s)\<rparr>) (rq_value_body_chunk r)
      | symbol_end_of_body \<Rightarrow> Inr s
      | symbol_end_of_message \<Rightarrow> map_sum (Failed \<circ> Faulted) id (server_end_of_message ieq s)
      | symbol_chunk_ext \<Rightarrow> Inr s)"

text \<open>One round of the loop: the \<open>switch\<close>, then \<open>parser.next()\<close>.\<close>

definition server_round ::
  "iequals \<Rightarrow> (octets \<Rightarrow> header_map \<Rightarrow> octets list) \<Rightarrow> (request_data \<Rightarrow> request_data) \<Rightarrow> slot_state \<Rightarrow>
   slot_state client_exit + slot_state" where
  "server_round ieq found clear s =
     (case server_switch ieq found clear s of
        Inl e \<Rightarrow> Inl e
      | Inr s \<Rightarrow> map_sum (Failed \<circ> Faulted) (\<lambda>r. s\<lparr>sl_priv := (sl_priv s)\<lparr>sv_parser := r\<rparr>\<rparr>)
                  (rq_next ieq (sv_parser (sl_priv s))))"

definition server_stop :: "slot_state \<Rightarrow> bool" where
  "server_stop s \<longleftrightarrow> cur_code (sv_parser (sl_priv s)) = code_error_insufficient_data"

text \<open>What follows the loop.\<close>

definition server_signals :: "slot_state \<Rightarrow> server_request" where
  "server_signals s =
     (let p = sl_priv s;
          p = p\<lparr>sv_buffer := drop (rq_parsed_count (sv_parser p)) (sv_buffer p)\<rparr>
      in if sl_upgrade s then
           let p = note_call Disconnect_timeout (note_call Disconnect_disconnected
                     (note_call Disconnect_readyRead p));
               p = p\<lparr>sv_data := (sv_data p)\<lparr>d_body := sv_buffer p\<rparr>, sv_buffer := d_body (sv_data p)\<rparr>
           in note_call Emit_upgrade p
         else
           let p = (if Flag_READY \<in> sl_emit s
                    then note_call Emit_ready (note_call Disconnect_end (note_call Disconnect_data p))
                    else p);
               p = (if Flag_DATA \<in> sl_emit s then note_call Emit_data p else p)
           in if Flag_END \<in> sl_emit s then note_call Emit_end p else p)"

fun server_finish :: "slot_state client_exit + slot_state \<Rightarrow> client_failure + server_request" where
  "server_finish (Inl (Failed f)) = Inl f"
| "server_finish (Inl (Returned s)) = Inr (sl_priv s)"
| "server_finish (Inr s) = Inr (server_signals s)"

definition onReadyRead ::
  "iequals \<Rightarrow> (octets \<Rightarrow> header_map \<Rightarrow> octets list) \<Rightarrow> (request_data \<Rightarrow> request_data) \<Rightarrow> octets \<Rightarrow>
   server_request \<Rightarrow> (client_failure + server_request) option" where
  "onReadyRead ieq found clear data p =
     (let p = (if sv_timeout p \<noteq> 0 then note_call (Start_timer (sv_timeout p)) p else p);
          p = p\<lparr>sv_buffer := sv_buffer p @ data\<rparr>
      in case rq_set_buffer ieq (sv_buffer p) (sv_parser p) of
           Inl f \<Rightarrow> Some (Inl (Faulted f))
         | Inr r \<Rightarrow>
             map_option server_finish
               (client_loop server_stop (server_round ieq found clear)
                 \<lparr>sl_priv = p\<lparr>sv_parser := r\<rparr>, sl_emit = {}, sl_upgrade = False\<rparr>))"

section \<open>The invariant of the slot\<close>

definition rq_dead :: "request \<Rightarrow> bool" where
  "rq_dead r \<longleftrightarrow> state r = RQ_ERRORED \<and> final_error (cur_code r)"

text \<open>Between two runs: the reader has failed for good, or it waits for data and the buffer still
  starts with the token it waits for.\<close>

definition server_inv :: "server_request \<Rightarrow> bool" where
  "server_inv p \<longleftrightarrow> rq_dead (sv_parser p) \<or>
     rq_inv (sv_parser p) \<and> rq_sane (sv_parser p) \<and>
     cur_code (sv_parser p) = code_error_insufficient_data \<and> keeps_token (sv_buffer p) (sv_parser p)"

text \<open>Inside the loop: the reader works on the buffer of the slot, or a message has just ended.\<close>

definition slot_inv :: "slot_state \<Rightarrow> bool" where
  "slot_inv s \<longleftrightarrow> rq_dead (sv_parser (sl_priv s)) \<or>
     rq_inv (sv_parser (sl_priv s)) \<and> rq_sane (sv_parser (sl_priv s)) \<and>
     (ibuffer (sv_parser (sl_priv s)) = sv_buffer (sl_priv s) \<or>
      cur_code (sv_parser (sl_priv s)) = code_error_insufficient_data \<and>
      token_size (sv_parser (sl_priv s)) = 0)"

text \<open>A state of the loop in which the value of a header or trailer field is empty: the reader is about to
  read it, or has reported it and the slot asks for it.\<close>

definition slot_empty_value :: "slot_state \<Rightarrow> bool" where
  "slot_empty_value s \<longleftrightarrow> rq_empty_value (sv_parser (sl_priv s)) \<or>
     cur_code (sv_parser (sl_priv s)) \<in> {code_field_value, code_trailer_value} \<and>
     token_size (sv_parser (sl_priv s)) = 0"

definition server_leaves :: "slot_state \<Rightarrow> slot_state client_exit \<Rightarrow> bool" where
  "server_leaves s e =
     (case e of Returned s' \<Rightarrow> server_inv (sl_priv s') \<and> \<not> slot_empty_value s
      | Failed f \<Rightarrow> f = Faulted Out_of_bounds \<and> slot_empty_value s)"

definition server_work :: "slot_state \<Rightarrow> nat" where
  "server_work s =
     (if symbol_convert (cur_code (sv_parser (sl_priv s))) = symbol_error then 0
      else Suc (rq_pending (sv_parser (sl_priv s))))"

lemma note_call_fields [simp]:
  "sv_parser (note_call c p) = sv_parser p" "sv_buffer (note_call c p) = sv_buffer p"
  "sv_data (note_call c p) = sv_data p" "sv_timeout (note_call c p) = sv_timeout p"
  "sv_options (note_call c p) = sv_options p"
  by (simp_all add: note_call_def)

text \<open>The end of a message: the reader is given the rest of its last token and nothing more.\<close>

lemma server_end_of_message_ok:
  assumes "rq_inv (sv_parser (sl_priv s))" and "ibuffer (sv_parser (sl_priv s)) = sv_buffer (sl_priv s)"
    and "cur_code (sv_parser (sl_priv s)) = code_end_of_message"
  defines "r \<equiv> sv_parser (sl_priv s)"
  shows "server_end_of_message ieq s = Inr (s\<lparr>sl_priv := note_call Disconnect_readyRead
      ((sl_priv s)\<lparr>sv_buffer := rest r,
        sv_parser := r\<lparr>ibuffer := token_prefix r, idx := 0\<rparr>\<rparr>), sl_emit := insert Flag_END (sl_emit s)\<rparr>)"
proof -
  have "token_size r \<le> length (rest r)" using assms by (auto simp: rq_inv_def in_range_def)
  then show ?thesis
    using assms(2,3)
    by (simp add: server_end_of_message_def rq_set_buffer_def rq_parsed_count_def Let_def rest_def
        token_prefix_def r_def)
qed

text \<open>Every other token leaves the reader and the buffer as they are.\<close>

lemma server_switch_frame:
  assumes "server_switch ieq found clear s = Inr s'" and "cur_code (sv_parser (sl_priv s)) \<noteq> code_end_of_message"
  shows "sv_parser (sl_priv s') = sv_parser (sl_priv s) \<and> sv_buffer (sl_priv s') = sv_buffer (sl_priv s)"
  using assms
  by (cases "cur_code (sv_parser (sl_priv s))")
     (auto simp: server_switch_def rq_symbol_def server_end_of_headers_def Let_def map_sum_def
       split: sum.splits if_splits)

lemma server_switch_leaves:
  assumes "slot_inv s" and "\<not> server_stop s" and "server_switch ieq found clear s = Inl e"
  shows "server_leaves s e"
proof (cases "rq_dead (sv_parser (sl_priv s))")
  case True
  then have "rq_symbol (sv_parser (sl_priv s)) = symbol_error" "\<not> slot_empty_value s"
    by (auto simp: rq_symbol_def rq_dead_def final_error_def slot_empty_value_def rq_empty_value_def)
  with assms(3) True show ?thesis
    by (auto simp: server_switch_def server_leaves_def server_inv_def Let_def)
next
  case False
  let ?r = "sv_parser (sl_priv s)"
  have r: "rq_inv ?r" "rq_sane ?r" "ibuffer ?r = sv_buffer (sl_priv s)"
    using assms(1,2) False by (auto simp: slot_inv_def server_stop_def)
  then have view: "token_view ?r = Inr (token_prefix ?r)" "token_prefix ?r = [] \<longleftrightarrow> token_size ?r = 0"
    by (auto simp: rq_inv_def in_range_def token_prefix_def rest_def)
  have err: "symbol_convert (cur_code ?r) \<noteq> symbol_error"
    using False r(1) assms(2) by (auto simp: rq_dead_def rq_inv_def final_error_def server_stop_def)
  show ?thesis
  proof (cases "cur_code ?r")
    case code_end_of_message
    with assms(3) server_end_of_message_ok [OF r(1,3), of ieq] show ?thesis
      by (simp add: server_switch_def rq_symbol_def Let_def)
  next
    case code_version
    with r(1,2) have "idx ?r < length (ibuffer ?r)"
      by (auto simp: rq_sane_def rq_inv_def in_range_def)
    with code_version assms(3) show ?thesis
      by (simp add: server_switch_def rq_symbol_def rq_value_version_def Let_def)
  qed (use assms(3) r err view in \<open>auto simp: server_switch_def rq_symbol_def rq_sane_def response_codes_def
      server_leaves_def slot_empty_value_def rq_value_method_def rq_value_request_target_def rq_value_field_name_def
      rq_value_field_value_def rq_value_trailer_value_def rq_value_body_chunk_def map_sum_def Let_def
      dest: decode_field_value_fault split: sum.splits\<close>)
qed

lemma server_round_step:
  assumes "slot_inv s" and "\<not> server_stop s" and "server_round ieq found clear s = Inr s'"
  shows "slot_inv s' \<and> server_work s' < server_work s"
proof -
  let ?r = "sv_parser (sl_priv s)"
  obtain s1 r' where sw: "server_switch ieq found clear s = Inr s1"
    and next_r: "rq_next ieq (sv_parser (sl_priv s1)) = Inr r'"
    and s': "s' = s1\<lparr>sl_priv := (sl_priv s1)\<lparr>sv_parser := r'\<rparr>\<rparr>"
    using assms(3) by (auto simp: server_round_def map_sum_def split: sum.splits)
  have "\<not> rq_dead ?r"
    using sw by (auto simp: server_switch_def rq_symbol_def rq_dead_def final_error_def Let_def)
  then have r: "rq_inv ?r" "rq_sane ?r" "ibuffer ?r = sv_buffer (sl_priv s)"
    and err: "symbol_convert (cur_code ?r) \<noteq> symbol_error"
    using assms(1,2) by (auto simp: slot_inv_def server_stop_def rq_dead_def rq_inv_def final_error_def)
  show ?thesis
  proof (cases "cur_code ?r = code_end_of_message")
    case True
    let ?r1 = "?r\<lparr>ibuffer := token_prefix ?r, idx := 0\<rparr>"
    note last = rq_next_last_token [OF r(1,2) True]
    have "sv_parser (sl_priv s1) = ?r1"
      using sw True server_end_of_message_ok [OF r(1,3) True, of ieq]
      by (auto simp: server_switch_def rq_symbol_def Let_def)
    with next_r last(1) [of ieq] have r': "r' = consume ?r1" by simp
    have "rq_inv r'" using next_r last(1,2) r' rq_next_inv [of ?r1 ieq] by simp
    moreover have "rq_sane r'" using last(5) r' by (simp add: rq_sane_def response_codes_def)
    ultimately show ?thesis
      using last(4,5) r' s' err by (simp add: slot_inv_def server_work_def)
  next
    case False
    from server_switch_frame [OF sw False] next_r s' have run: "rq_next ieq ?r = Inr r'"
      "sv_parser (sl_priv s') = r'" "sv_buffer (sl_priv s') = sv_buffer (sl_priv s)" by simp_all
    have "rq_inv r'" "rq_sane r'"
      using rq_next_inv [OF r(1) run(1)] rq_next_sane [OF r(1,2) run(1)] by simp_all
    moreover have "ibuffer r' = ibuffer ?r" using rq_next_frame [OF r(1) run(1)] by simp
    moreover have "rq_pending r' < rq_pending ?r" if "symbol_convert (cur_code r') \<noteq> symbol_error"
      using rq_next_pending [OF r(1) err run(1) that] .
    ultimately show ?thesis using run r(3) err by (auto simp: slot_inv_def server_work_def)
  qed
qed

lemma server_round_leaves:
  assumes "slot_inv s" and "\<not> server_stop s" and "server_round ieq found clear s = Inl e"
  shows "server_leaves s e"
proof (cases "server_switch ieq found clear s")
  case (Inl e')
  with assms server_switch_leaves [OF assms(1,2)] show ?thesis by (simp add: server_round_def)
next
  case (Inr s1)
  let ?r = "sv_parser (sl_priv s)"
  have "\<not> rq_dead ?r"
    using Inr by (auto simp: server_switch_def rq_symbol_def rq_dead_def final_error_def Let_def)
  then have r: "rq_inv ?r" "rq_sane ?r" "ibuffer ?r = sv_buffer (sl_priv s)"
    using assms(1,2) by (auto simp: slot_inv_def server_stop_def)
  obtain f where f: "rq_next ieq (sv_parser (sl_priv s1)) = Inl f" "e = Failed (Faulted f)"
    using assms(3) Inr by (auto simp: server_round_def map_sum_def split: sum.splits)
  have "cur_code ?r \<noteq> code_end_of_message"
  proof
    assume end_code: "cur_code ?r = code_end_of_message"
    with Inr f(1) server_end_of_message_ok [OF r(1,3) end_code, of ieq] rq_next_last_token(1) [OF r(1,2) end_code, of ieq]
    show False by (auto simp: server_switch_def rq_symbol_def Let_def)
  qed
  with server_switch_frame [OF Inr] f rq_next_fault_iff [OF r(1), of ieq f] show ?thesis
    by (simp add: server_leaves_def slot_empty_value_def)
qed

text \<open>An empty value makes the round fail.\<close>

lemma server_round_empty_value:
  assumes "slot_inv s" and "\<not> server_stop s" and "slot_empty_value s"
  shows "server_round ieq found clear s = Inl (Failed (Faulted Out_of_bounds))"
proof (cases "server_round ieq found clear s")
  case (Inl e)
  with server_round_leaves [OF assms(1,2) Inl] assms(3) show ?thesis
    by (cases e) (simp_all add: server_leaves_def)
next
  case (Inr s')
  then obtain s1 r' where sw: "server_switch ieq found clear s = Inr s1"
    and next_r: "rq_next ieq (sv_parser (sl_priv s1)) = Inr r'"
    by (auto simp: server_round_def map_sum_def split: sum.splits)
  let ?r = "sv_parser (sl_priv s)"
  have r: "rq_inv ?r" "rq_sane ?r"
    using assms sw by (auto simp: slot_inv_def server_stop_def server_switch_def rq_symbol_def rq_dead_def
        final_error_def Let_def)
  show ?thesis
  proof (cases "rq_empty_value ?r")
    case True
    with r(2) have "cur_code ?r \<noteq> code_end_of_message" by (auto simp: rq_empty_value_def rq_sane_def)
    with True server_switch_frame [OF sw] next_r rq_next_fault_iff [OF r(1), of ieq Out_of_bounds]
    show ?thesis by simp
  next
    case False
    with assms(3) have "cur_code ?r \<in> {code_field_value, code_trailer_value}" "token_prefix ?r = []"
      "token_view ?r = Inr []"
      using r(1) by (auto simp: slot_empty_value_def token_prefix_def rq_inv_def in_range_def)
    with sw show ?thesis
      by (auto simp: server_switch_def rq_symbol_def rq_value_field_value_def rq_value_trailer_value_def
          decode_field_value_def Let_def)
  qed
qed

interpretation server: client_loop_total server_stop "server_round ieq found clear" slot_inv server_leaves
  server_work for ieq found clear
  by unfold_locales (rule server_round_step, assumption+, rule server_round_leaves)

section \<open>Runs of the slot\<close>

lemma server_signals_inv:
  assumes "slot_inv s" and "server_stop s" and "\<not> sl_upgrade s"
  shows "server_inv (server_signals s)"
proof -
  let ?r = "sv_parser (sl_priv s)"
  have r: "rq_inv ?r" "rq_sane ?r" "cur_code ?r = code_error_insufficient_data"
    "ibuffer ?r = sv_buffer (sl_priv s) \<or> token_size ?r = 0"
    using assms(1,2) by (auto simp: slot_inv_def server_stop_def rq_dead_def final_error_def)
  have "keeps_token (drop (idx ?r) (sv_buffer (sl_priv s))) ?r"
    using r(4)
  proof
    assume "ibuffer ?r = sv_buffer (sl_priv s)"
    then show ?thesis using r(1) keeps_token_rest [of ?r] by (simp add: rest_def rq_inv_def)
  qed (simp add: keeps_token_def token_prefix_def)
  with r assms(3) show ?thesis
    by (simp add: server_signals_def server_inv_def rq_parsed_count_def Let_def)
qed

lemma server_inv_note [simp]: "server_inv (note_call c p) = server_inv p"
  by (simp add: server_inv_def)

text \<open>The loop and the state it starts in.\<close>

definition with_parser :: "slot_state \<Rightarrow> request \<Rightarrow> slot_state" where
  "with_parser s r = s\<lparr>sl_priv := (sl_priv s)\<lparr>sv_parser := r\<rparr>\<rparr>"

lemma with_parser_fields [simp]:
  "sv_parser (sl_priv (with_parser s r)) = r"
  "sv_buffer (sl_priv (with_parser s r)) = sv_buffer (sl_priv s)"
  "with_parser (with_parser s r) r' = with_parser s r'"
  by (simp_all add: with_parser_def)

definition timer_calls :: "server_request \<Rightarrow> environment_call list" where
  "timer_calls p = (if sv_timeout p \<noteq> 0 then [Start_timer (sv_timeout p)] else [])"

lemma onReadyRead_loop:
  "onReadyRead ieq found clear data p =
     (case rq_set_buffer ieq (sv_buffer p @ data) (sv_parser p) of
        Inl f \<Rightarrow> Some (Inl (Faulted f))
      | Inr r \<Rightarrow> map_option server_finish (client_loop server_stop (server_round ieq found clear)
          (with_parser \<lparr>sl_priv = p\<lparr>sv_buffer := sv_buffer p @ data, sv_log := sv_log p @ timer_calls p\<rparr>,
             sl_emit = {}, sl_upgrade = False\<rparr> r)))"
proof -
  have "(if sv_timeout p \<noteq> 0 then note_call (Start_timer (sv_timeout p)) p else p)
      = p\<lparr>sv_log := sv_log p @ timer_calls p\<rparr>"
    by (simp add: timer_calls_def note_call_def)
  moreover have "p\<lparr>sv_log := l, sv_buffer := b\<rparr> = p\<lparr>sv_buffer := b, sv_log := l\<rparr>" for l b by simp
  ultimately show ?thesis
    by (simp only: onReadyRead_def Let_def) (simp add: with_parser_def split: sum.split)
qed

definition slot_start :: "octets \<Rightarrow> server_request \<Rightarrow> request \<Rightarrow> slot_state" where
  "slot_start data p r =
     with_parser \<lparr>sl_priv = p\<lparr>sv_buffer := sv_buffer p @ data, sv_log := sv_log p @ timer_calls p\<rparr>,
       sl_emit = {}, sl_upgrade = False\<rparr> r"

lemma server_set_buffer:
  assumes "server_inv p"
  shows "case rq_set_buffer ieq (sv_buffer p @ data) (sv_parser p) of
      Inl f \<Rightarrow> f = Out_of_bounds \<and> rq_empty_value ((sv_parser p)\<lparr>ibuffer := sv_buffer p @ data, idx := 0\<rparr>)
    | Inr r \<Rightarrow> slot_inv (slot_start data p r) \<and>
        \<not> rq_empty_value ((sv_parser p)\<lparr>ibuffer := sv_buffer p @ data, idx := 0\<rparr>)"
proof (cases "rq_dead (sv_parser p)")
  case True
  then show ?thesis
    by (auto simp: rq_set_buffer_def rq_dead_def final_error_def slot_inv_def slot_start_def rq_empty_value_def)
next
  case False
  let ?r = "(sv_parser p)\<lparr>ibuffer := sv_buffer p @ data, idx := 0\<rparr>"
  have r: "rq_inv ?r" "rq_sane ?r" and wait: "cur_code (sv_parser p) = code_error_insufficient_data"
    using assms False
      rq_rebuffer_inv [OF _ keeps_token_more, of "sv_parser p" "sv_buffer p" data]
    by (simp_all add: server_inv_def rq_sane_def response_codes_def)
  then have set_buffer: "rq_set_buffer ieq (sv_buffer p @ data) (sv_parser p) = rq_next ieq ?r"
    by (simp add: rq_set_buffer_def)
  show ?thesis
  proof (cases "rq_next ieq ?r")
    case (Inl f)
    with rq_next_fault_iff [OF r(1), of ieq f] set_buffer show ?thesis by simp
  next
    case (Inr r')
    with rq_next_inv [OF r(1)] rq_next_sane [OF r] rq_next_frame [OF r(1)] set_buffer
      rq_next_fault_iff [OF r(1), of ieq Out_of_bounds] show ?thesis
      by (simp add: slot_inv_def slot_start_def)
  qed
qed

lemma server_upgrade_log: "sl_upgrade s \<Longrightarrow> last (sv_log (server_signals s)) = Emit_upgrade"
  by (simp add: server_signals_def note_call_def Let_def)

text \<open>A run meets an empty value: at its first call of the reader, or in a round of its loop.\<close>

definition meets_empty_value ::
  "iequals \<Rightarrow> (octets \<Rightarrow> header_map \<Rightarrow> octets list) \<Rightarrow> (request_data \<Rightarrow> request_data) \<Rightarrow> octets \<Rightarrow>
   server_request \<Rightarrow> bool" where
  "meets_empty_value ieq found clear data p \<longleftrightarrow>
     rq_empty_value ((sv_parser p)\<lparr>ibuffer := sv_buffer p @ data, idx := 0\<rparr>) \<or>
     (\<exists>r s. rq_set_buffer ieq (sv_buffer p @ data) (sv_parser p) = Inr r \<and>
        loop_reaches server_stop (server_round ieq found clear) (slot_start data p r) s \<and>
        \<not> server_stop s \<and> slot_empty_value s)"

lemma client_loop_slot_fails:
  assumes "slot_inv s0" and "loop_reaches server_stop (server_round ieq found clear) s0 s"
    and "\<not> server_stop s" and "slot_empty_value s"
  shows "client_loop server_stop (server_round ieq found clear) s0 = Some (Inl (Failed (Faulted Out_of_bounds)))"
proof -
  have "server_round ieq found clear s = Inl (Failed (Faulted Out_of_bounds))"
    by (rule server_round_empty_value [OF server.reaches_inv [OF assms(2,1)] assms(3,4)])
  with assms(3) show ?thesis unfolding client_loop_reaches [OF assms(2)] by (rule client_loop_leave)
qed

text \<open>C14: a server that keeps handing the data of a socket to the slot. Every run of
  \<open>onReadyRead()\<close> returns, never calls \<open>qFatal\<close> and fails no assertion. It fails exactly when it meets
  the empty value of a header or trailer field, for which \<open>decode_field_value\<close> indexes outside an empty
  view; otherwise the reader and the buffer are again as the slot needs them for its next run, or the
  connection has been handed over by \<open>upgrade()\<close>.\<close>

theorem onReadyRead_returns:
  assumes "server_inv p"
  shows "\<exists>x. onReadyRead ieq found clear data p = Some x \<and>
    (case x of
       Inl f \<Rightarrow> f = Faulted Out_of_bounds \<and> meets_empty_value ieq found clear data p
     | Inr p' \<Rightarrow> \<not> meets_empty_value ieq found clear data p \<and>
         (server_inv p' \<or> last (sv_log p') = Emit_upgrade))"
proof (cases "rq_set_buffer ieq (sv_buffer p @ data) (sv_parser p)")
  case (Inl f)
  with server_set_buffer [OF assms, where ieq = ieq and data = data] show ?thesis
    by (simp add: onReadyRead_loop meets_empty_value_def)
next
  case (Inr r)
  let ?s = "slot_start data p r"
  let ?loop = "client_loop server_stop (server_round ieq found clear)"
  have start: "slot_inv ?s" "\<not> rq_empty_value ((sv_parser p)\<lparr>ibuffer := sv_buffer p @ data, idx := 0\<rparr>)"
    using server_set_buffer [OF assms, where ieq = ieq and data = data] Inr by simp_all
  have run: "onReadyRead ieq found clear data p = map_option server_finish (?loop ?s)"
    using Inr by (simp add: onReadyRead_loop slot_start_def)
  have meets: "meets_empty_value ieq found clear data p \<longleftrightarrow>
      (\<exists>s. loop_reaches server_stop (server_round ieq found clear) ?s s \<and> \<not> server_stop s \<and> slot_empty_value s)"
    using Inr start(2) by (simp add: meets_empty_value_def)
  from server.loop_ends [OF start(1), of ieq found clear] obtain x t where
    x: "?loop ?s = Some x" "loop_reaches server_stop (server_round ieq found clear) ?s t" "slot_inv t"
      "case x of Inl e \<Rightarrow> \<not> server_stop t \<and> server_leaves t e | Inr s' \<Rightarrow> s' = t \<and> server_stop t" by blast
  have fails: "x = Inl (Failed (Faulted Out_of_bounds))" if "meets_empty_value ieq found clear data p"
    using that client_loop_slot_fails [OF start(1)] x(1) unfolding meets by auto
  have "case server_finish x of
       Inl f \<Rightarrow> f = Faulted Out_of_bounds \<and> meets_empty_value ieq found clear data p
     | Inr p' \<Rightarrow> \<not> meets_empty_value ieq found clear data p \<and>
         (server_inv p' \<or> last (sv_log p') = Emit_upgrade)"
    using x(2-4) fails meets server_signals_inv server_upgrade_log
    by (cases x rule: server_finish.cases) (auto simp: server_leaves_def)
  with x(1) run show ?thesis by simp
qed

definition sample_found :: "octets \<Rightarrow> header_map \<Rightarrow> octets list" where
  "sample_found key hs = map snd (dropWhile (\<lambda>h. fst h \<noteq> key) hs)"

definition sample_clear :: "request_data \<Rightarrow> request_data" where
  "sample_clear d = d\<lparr>d_headers := [], d_trailers := [], d_body := []\<rparr>"

definition sample_server :: server_request where
  "sample_server = \<lparr>sv_timeout = 30, sv_buffer = [], sv_parser = rq_new RQ_HTTP_1_0 0,
     sv_data = \<lparr>d_method = [], d_url = [], d_version = Version_HTTP_1_0, d_headers = [], d_trailers = [],
       d_body = [], d_last_header = []\<rparr>, sv_options = {}, sv_log = []\<rparr>"

theorem onReadyRead_returns_witness:
  "server_inv sample_server \<and>
   (\<exists>x. onReadyRead stream_exact sample_found sample_clear ''GET /'' sample_server = Some x \<and>
     (case x of
        Inl f \<Rightarrow> f = Faulted Out_of_bounds \<and>
          meets_empty_value stream_exact sample_found sample_clear ''GET /'' sample_server
      | Inr p' \<Rightarrow> \<not> meets_empty_value stream_exact sample_found sample_clear ''GET /'' sample_server \<and>
          (server_inv p' \<or> last (sv_log p') = Emit_upgrade)))"
proof -
  have "server_inv sample_server"
    using rq_new_inv [of RQ_HTTP_1_0 0]
    by (simp add: server_inv_def sample_server_def rq_sane_def keeps_token_def token_prefix_def rq_new_def
        response_codes_def)
  with onReadyRead_returns [OF this] show ?thesis by blast
qed

section \<open>A whole request\<close>

text \<open>The effect of one token on the members of the slot, from its octets alone.\<close>

definition server_token ::
  "iequals \<Rightarrow> (octets \<Rightarrow> header_map \<Rightarrow> octets list) \<Rightarrow> (request_data \<Rightarrow> request_data) \<Rightarrow> token \<Rightarrow>
   slot_state \<Rightarrow> slot_state" where
  "server_token ieq found clear x s =
     (let p = sl_priv s; t = snd x in
      case fst x of
        code_method \<Rightarrow> s\<lparr>sl_priv := p\<lparr>sv_data := (clear (sv_data p))\<lparr>d_method := t\<rparr>, sv_options := {}\<rparr>\<rparr>
      | code_request_target \<Rightarrow> update_data (\<lambda>d. d\<lparr>d_url := t\<rparr>) s
      | code_version \<Rightarrow>
          if t = ''0''
          then s\<lparr>sl_priv := p\<lparr>sv_data := (sv_data p)\<lparr>d_version := Version_HTTP_1_0\<rparr>,
                               sv_options := insert Option_HTTP_1_0 (sv_options p)\<rparr>\<rparr>
          else s\<lparr>sl_priv := p\<lparr>sv_data := (sv_data p)\<lparr>d_version := Version_HTTP_1_1\<rparr>,
                               sv_options := insert Option_HTTP_1_1 (sv_options p)\<rparr>\<rparr>
      | code_field_name \<Rightarrow> update_data (\<lambda>d. d\<lparr>d_last_header := t\<rparr>) s
      | code_trailer_name \<Rightarrow> update_data (\<lambda>d. d\<lparr>d_last_header := t\<rparr>) s
      | code_field_value \<Rightarrow> update_data (\<lambda>d. d\<lparr>d_headers := d_headers d @ [(d_last_header d, trimmed t)],
          d_last_header := []\<rparr>) s
      | code_trailer_value \<Rightarrow> update_data (\<lambda>d. d\<lparr>d_trailers := d_trailers d @ [(d_last_header d, trimmed t)],
          d_last_header := []\<rparr>) s
      | code_end_of_headers \<Rightarrow> server_end_of_headers ieq found s
      | code_body_chunk \<Rightarrow> (update_data (\<lambda>d. d\<lparr>d_body := d_body d @ t\<rparr>) s)
          \<lparr>sl_emit := insert Flag_DATA (sl_emit s)\<rparr>
      | _ \<Rightarrow> s)"

lemma server_token_parser:
  "server_token ieq found clear x (with_parser s r) = with_parser (server_token ieq found clear x s) r"
  by (cases "fst x")
     (simp_all add: server_token_def with_parser_def server_end_of_headers_def Let_def)

lemma server_switch_token:
  assumes "in_range r" and "plain_token (cur_code r, token_prefix r)"
  shows "server_switch ieq found clear (with_parser s r) =
    Inr (with_parser (server_token ieq found clear (cur_code r, token_prefix r) s) r)"
proof -
  have view: "token_view r = Inr (token_prefix r)"
    using assms(1) by (simp add: in_range_def token_prefix_def rest_def)
  show ?thesis
  proof (cases "cur_code r")
    case code_version
    then obtain d where d: "token_prefix r = [d]" using assms(2) by (auto simp: plain_token_def length_Suc_conv)
    then have "byte_at (ibuffer r) (idx r) = Inr d" by (rule byte_at_token)
    moreover have "int (byte d) - 48 = 0 \<longleftrightarrow> d = CHR ''0''" by (simp add: char_eq_byte)
    ultimately show ?thesis
      using code_version d
      by (simp add: server_switch_def rq_symbol_def rq_value_version_def server_token_def with_parser_def
          Let_def)
  qed (use assms(2) view in \<open>simp_all add: plain_token_def server_switch_def rq_symbol_def server_token_def
      response_codes_def server_end_of_headers_def rq_value_method_def rq_value_request_target_def
      rq_value_field_name_def rq_value_field_value_def rq_value_trailer_value_def rq_value_body_chunk_def
      with_parser_def decode_field_value_trimmed Let_def token_prefix_def\<close>)
qed

interpretation server: token_client "rq_next ieq" server_stop "server_round ieq found clear" with_parser
  "server_token ieq found clear" plain_token rq_inv for ieq found clear
proof unfold_locales
  fix r r' s
  assume r: "rq_inv r" "plain_token (cur_code r, token_prefix r)" "rq_next ieq r = Inr r'"
  then have "server_round ieq found clear (with_parser s r) =
      Inr (with_parser (server_token ieq found clear (cur_code r, token_prefix r) s) r')"
    using server_switch_token [OF _ r(2), of ieq found clear s]
    by (simp add: server_round_def rq_inv_def) (simp add: with_parser_def)
  moreover have "\<not> server_stop (with_parser s r)"
    using r(2) by (auto simp: server_stop_def plain_token_def)
  ultimately show "\<not> server_stop (with_parser s r) \<and> server_round ieq found clear (with_parser s r) =
      Inr (with_parser (server_token ieq found clear (cur_code r, token_prefix r) s) r')" by simp
qed (rule rq_next_inv)

text \<open>The sections of a message, token by token.\<close>

lemma server_fields:
  assumes "list_all wf_field hs"
  shows "fold (server_token ieq found clear) (fields_tokens code_field_name code_field_value hs) s =
    (if hs = [] then s else update_data (\<lambda>d. d\<lparr>d_headers := d_headers d @ pairs_of hs, d_last_header := []\<rparr>) s)"
  using assms
  by (induction hs arbitrary: s) (auto simp: field_tokens_def server_token_def Let_def trimmed_field)

lemma server_trailers:
  assumes "list_all wf_field hs"
  shows "fold (server_token ieq found clear) (fields_tokens code_trailer_name code_trailer_value hs) s =
    (if hs = [] then s else update_data (\<lambda>d. d\<lparr>d_trailers := d_trailers d @ pairs_of hs, d_last_header := []\<rparr>) s)"
  using assms
  by (induction hs arbitrary: s) (auto simp: field_tokens_def server_token_def Let_def trimmed_field)

lemma server_chunk_line:
  "c \<in> {code_skip, code_end_of_body} \<Longrightarrow>
   fold (server_token ieq found clear) (chunk_line_tokens c l) s = s"
  by (auto simp: chunk_line_tokens_def server_token_def Let_def)

lemma server_chunks:
  "fold (server_token ieq found clear) (concat (map chunk_tokens cs)) s =
    (if cs = [] then s
     else (update_data (\<lambda>d. d\<lparr>d_body := d_body d @ concat (map ck_data cs)\<rparr>) s)
       \<lparr>sl_emit := insert Flag_DATA (sl_emit s)\<rparr>)"
  by (induction cs arbitrary: s)
     (auto simp: chunk_tokens_def server_chunk_line server_token_def Let_def)

definition server_body :: "body \<Rightarrow> slot_state \<Rightarrow> slot_state" where
  "server_body b s =
     (let s1 = (if body_octets b = [] then s
                else (update_data (\<lambda>d. d\<lparr>d_body := d_body d @ body_octets b\<rparr>) s)
                  \<lparr>sl_emit := insert Flag_DATA (sl_emit s)\<rparr>)
      in if body_trailers b = [] then s1
         else update_data (\<lambda>d. d\<lparr>d_trailers := d_trailers d @ pairs_of (body_trailers b),
           d_last_header := []\<rparr>) s1)"

lemma server_body_tokens:
  assumes "wf_body b"
  shows "fold (server_token ieq found clear) (butlast (body_tokens b)) s = server_body b s"
proof (cases b)
  case No_body
  then show ?thesis by (simp add: server_token_def server_body_def)
next
  case (Sized d)
  then show ?thesis by (simp add: server_token_def server_body_def butlast_append Let_def)
next
  case (Chunked cs l ts)
  with assms have wf: "list_all wf_field ts" "concat (map ck_data cs) = [] \<longleftrightarrow> cs = []"
    by (auto simp: list_all_iff)
  show ?thesis
    unfolding Chunked body_tokens.simps append_assoc [symmetric] butlast_snoc
    using wf(2)
    by (simp add: server_chunks server_chunk_line server_trailers [OF wf(1)] server_body_def Let_def)
qed

lemma server_request_line:
  "fold (server_token ieq found clear)
     [(code_method, m), (code_skip, a), (code_request_target, t), (code_skip, b), (code_version, [d]), (code_skip, c)] s =
   s\<lparr>sl_priv := (sl_priv s)\<lparr>
       sv_data := (clear (sv_data (sl_priv s)))\<lparr>d_method := m, d_url := t,
         d_version := if d = CHR ''0'' then Version_HTTP_1_0 else Version_HTTP_1_1\<rparr>,
       sv_options := {if d = CHR ''0'' then Option_HTTP_1_0 else Option_HTTP_1_1}\<rparr>\<rparr>"
  by (simp add: server_token_def Let_def)

lemma server_headers_end:
  "fold (server_token ieq found clear) [(code_end_of_headers, t)] s = server_end_of_headers ieq found s"
  by (simp add: server_token_def)

text \<open>What the slot has gathered when the end of a request comes.\<close>

definition server_gathered ::
  "iequals \<Rightarrow> (octets \<Rightarrow> header_map \<Rightarrow> octets list) \<Rightarrow> (request_data \<Rightarrow> request_data) \<Rightarrow> request_message \<Rightarrow>
   slot_state \<Rightarrow> slot_state" where
  "server_gathered ieq found clear m s =
     fold (server_token ieq found clear) (butlast (request_tokens m)) s"

text \<open>The version of a request and the options of its response.\<close>

definition version_of :: "request_message \<Rightarrow> http_version" where
  "version_of m = (if rm_minor m = CHR ''0'' then Version_HTTP_1_0 else Version_HTTP_1_1)"

definition options_of :: "request_message \<Rightarrow> connection_scan \<Rightarrow> response_option set" where
  "options_of m c =
     (if rm_minor m = CHR ''0'' then {Option_HTTP_1_0} else {Option_HTTP_1_1}) \<union>
     (if \<not> cf_close c \<and> (version_of m = Version_HTTP_1_1 \<or> cf_keep_alive c) then {Option_KEEP_ALIVE} else {})"

lemma server_gathered_facts:
  fixes s :: slot_state and found and clear :: "request_data \<Rightarrow> request_data"
  assumes "wf_request ieq m"
  defines "d \<equiv> clear (sv_data (sl_priv s))" and "s' \<equiv> server_gathered ieq found clear m s"
  defines "hs \<equiv> d_headers d @ pairs_of (rm_fields m)"
  shows "d_method (sv_data (sl_priv s')) = rm_method m" and "d_url (sv_data (sl_priv s')) = rm_target m"
    and "d_headers (sv_data (sl_priv s')) = hs"
    and "d_trailers (sv_data (sl_priv s')) = d_trailers d @ pairs_of (body_trailers (rm_body m))"
    and "d_body (sv_data (sl_priv s')) = d_body d @ body_octets (rm_body m)"
    and "sl_emit s' = {Flag_READY} \<union> (if body_octets (rm_body m) = [] then {} else {Flag_DATA})"
    and "sl_upgrade s' = cf_upgrade (connection_loop ieq (found ''connection'' hs)
      \<lparr>cf_close = False, cf_keep_alive = False, cf_upgrade = sl_upgrade s\<rparr>)"
    and "sv_buffer (sl_priv s') = sv_buffer (sl_priv s)" and "sv_log (sl_priv s') = sv_log (sl_priv s)"
    and "sv_timeout (sl_priv s') = sv_timeout (sl_priv s)"
    and "d_version (sv_data (sl_priv s')) = version_of m"
    and "sv_options (sl_priv s') = options_of m (connection_loop ieq (found ''connection'' hs)
      \<lparr>cf_close = False, cf_keep_alive = False, cf_upgrade = sl_upgrade s\<rparr>)"
proof -
  have wf: "list_all wf_field (rm_fields m)" "wf_body (rm_body m)"
    using assms(1) by (simp_all add: wf_request_def)
  have s': "s' = server_body (rm_body m) (server_end_of_headers ieq found
      (fold (server_token ieq found clear) (fields_tokens code_field_name code_field_value (rm_fields m))
        (s\<lparr>sl_priv := (sl_priv s)\<lparr>
           sv_data := d\<lparr>d_method := rm_method m, d_url := rm_target m,
             d_version := if rm_minor m = CHR ''0'' then Version_HTTP_1_0 else Version_HTTP_1_1\<rparr>,
           sv_options := {if rm_minor m = CHR ''0'' then Option_HTTP_1_0 else Option_HTTP_1_1}\<rparr>\<rparr>)))"
    unfolding s'_def server_gathered_def butlast_request_tokens fold_append comp_apply server_request_line
      server_headers_end server_body_tokens [OF wf(2)] d_def ..
  note facts = s' server_fields [OF wf(1)] server_body_def server_end_of_headers_def Let_def hs_def
  show "d_method (sv_data (sl_priv s')) = rm_method m" "d_url (sv_data (sl_priv s')) = rm_target m"
    "d_headers (sv_data (sl_priv s')) = hs"
    "d_trailers (sv_data (sl_priv s')) = d_trailers d @ pairs_of (body_trailers (rm_body m))"
    "d_body (sv_data (sl_priv s')) = d_body d @ body_octets (rm_body m)"
    "sl_emit s' = {Flag_READY} \<union> (if body_octets (rm_body m) = [] then {} else {Flag_DATA})"
    "sl_upgrade s' = cf_upgrade (connection_loop ieq (found ''connection'' hs)
      \<lparr>cf_close = False, cf_keep_alive = False, cf_upgrade = sl_upgrade s\<rparr>)"
    "sv_buffer (sl_priv s') = sv_buffer (sl_priv s)" "sv_log (sl_priv s') = sv_log (sl_priv s)"
    "sv_timeout (sl_priv s') = sv_timeout (sl_priv s)"
    by (auto simp: facts)
  show "d_version (sv_data (sl_priv s')) = version_of m"
    by (cases "rm_fields m = []") (simp_all add: facts version_of_def)
  let ?c = "connection_loop ieq (found ''connection'' hs)
    \<lparr>cf_close = False, cf_keep_alive = False, cf_upgrade = sl_upgrade s\<rparr>"
  show "sv_options (sl_priv s') = options_of m ?c"
    by (cases "rm_minor m = CHR ''0''"; cases "rm_fields m = []"; cases "cf_close ?c")
       (simp_all add: facts version_of_def options_of_def insert_commute)
qed

text \<open>The last round, at the end of the message.\<close>

lemma server_last_round:
  assumes "rq_inv r" and "rq_sane r" and "cur_code r = code_end_of_message"
    and "ibuffer r = sv_buffer (sl_priv s)" and "drop (token_size r) (rest r) = behind"
  defines "r1 \<equiv> consume (r\<lparr>ibuffer := token_prefix r, idx := 0\<rparr>)"
  shows "client_loop server_stop (server_round ieq found clear) (with_parser s r) =
    Some (Inr (s\<lparr>sl_priv := note_call Disconnect_readyRead ((sl_priv s)\<lparr>sv_buffer := rest r, sv_parser := r1\<rparr>),
      sl_emit := insert Flag_END (sl_emit s)\<rparr>))"
    and "drop (idx r1) (rest r) = behind" and "rq_at_start r1" and "token_size r1 = 0"
proof -
  note last = rq_next_last_token [OF assms(1-3), folded r1_def]
  let ?s1 = "s\<lparr>sl_priv := note_call Disconnect_readyRead ((sl_priv s)\<lparr>sv_buffer := rest r, sv_parser := r1\<rparr>),
    sl_emit := insert Flag_END (sl_emit s)\<rparr>"
  have "server_round ieq found clear (with_parser s r) = Inr ?s1"
    using server_end_of_message_ok [of "with_parser s r" ieq] assms(1,3,4) last(1) [of ieq]
    by (simp add: server_round_def server_switch_def rq_symbol_def Let_def)
       (simp add: with_parser_def note_call_def)
  moreover have "\<not> server_stop (with_parser s r)" "server_stop ?s1"
    using assms(3) last(5) by (simp_all add: server_stop_def)
  ultimately show "client_loop server_stop (server_round ieq found clear) (with_parser s r) = Some (Inr ?s1)"
    by (simp add: client_loop_step client_loop_stop)
  show "drop (idx r1) (rest r) = behind" using last(3) assms(5) by simp
  show "token_size r1 = 0" by (rule last(4))
  have "state r1 = RQ_EXPECT_METHOD" using assms(2,3) by (simp add: r1_def rq_sane_def)
  moreover have "rq_inv r1" using rq_next_inv [OF last(2,1)] .
  ultimately show "rq_at_start r1" by (simp add: rq_at_start_def rq_inv_def rq_framing_def)
qed

text \<open>The slot between two requests.\<close>

definition server_idle :: "server_request \<Rightarrow> bool" where
  "server_idle p \<longleftrightarrow> rq_inv (sv_parser p) \<and> rq_at_start (sv_parser p) \<and>
     cur_code (sv_parser p) = code_error_insufficient_data \<and> token_size (sv_parser p) = 0"

text \<open>C13: a run of the slot that is given a whole request. When the octets left over and the new ones
  are a request written to the grammar and whatever follows it, the run returns with the members filled
  with the method, target, version, header fields, trailers and body of the request and with the options
  of its response, among them whether the connection is kept, emits \<open>ready()\<close>,
  \<open>data()\<close> if there is a body, and \<open>end()\<close>, in this order, keeps exactly the octets behind
  the request, and is ready for the next one. The request does not ask for an upgrade.\<close>

theorem onReadyRead_request:
  fixes p :: server_request and clear :: "request_data \<Rightarrow> request_data" and found
  assumes "server_idle p" and "wf_request ieq m" and "sv_buffer p @ data = render_request m @ behind"
  defines "d \<equiv> clear (sv_data p)"
  defines "hs \<equiv> d_headers d @ pairs_of (rm_fields m)"
  assumes "\<not> cf_upgrade (connection_loop ieq (found ''connection'' hs)
      \<lparr>cf_close = False, cf_keep_alive = False, cf_upgrade = False\<rparr>)"
  shows "\<exists>p'. onReadyRead ieq found clear data p = Some (Inr p') \<and> server_idle p' \<and> sv_buffer p' = behind \<and>
    d_method (sv_data p') = rm_method m \<and> d_url (sv_data p') = rm_target m \<and>
    d_headers (sv_data p') = hs \<and>
    d_trailers (sv_data p') = d_trailers d @ pairs_of (body_trailers (rm_body m)) \<and>
    d_body (sv_data p') = d_body d @ body_octets (rm_body m) \<and>
    d_version (sv_data p') = version_of m \<and>
    sv_options p' = options_of m (connection_loop ieq (found ''connection'' hs)
      \<lparr>cf_close = False, cf_keep_alive = False, cf_upgrade = False\<rparr>) \<and>
    sv_log p' = sv_log p @ timer_calls p @
      [Disconnect_readyRead, Disconnect_data, Disconnect_end, Emit_ready] @
      (if body_octets (rm_body m) = [] then [] else [Emit_data]) @ [Emit_end]"
proof -
  let ?buf = "render_request m @ behind" and ?ts = "request_tokens m"
  let ?r = "(sv_parser p)\<lparr>ibuffer := ?buf, idx := 0\<rparr>"
  let ?s = "\<lparr>sl_priv = p\<lparr>sv_buffer := ?buf, sv_log := sv_log p @ timer_calls p\<rparr>, sl_emit = {},
    sl_upgrade = False\<rparr>"
  let ?g = "server_gathered ieq found clear m ?s"
  have r: "rq_inv ?r" "rq_sane ?r" "rq_at_start ?r" "ahead ?r ?buf"
    using assms(1) rq_rebuffer_inv [of "sv_parser p" ?buf]
    by (simp_all add: server_idle_def rq_sane_def response_codes_def rq_at_start_def ahead_def in_range_def
        rest_def final_error_def keeps_token_def token_prefix_def)
  obtain r' where r': "gives (rq_next ieq) ?r ?ts r'" "ahead r' behind"
    and end_token: "cur_code r' = code_end_of_message"
    and inv: "rq_inv r'" "rq_sane r'" "ibuffer r' = ?buf"
    using rq_reads_whole [OF assms(2) r] by auto
  from server.loop_from_first [OF r'(1) request_tokens_ne r(1) request_tokens_plain [OF assms(2)]]
  obtain r0 where r0: "rq_next ieq ?r = Inr r0"
    and loop: "client_loop server_stop (server_round ieq found clear) (with_parser ?s r0) =
      client_loop server_stop (server_round ieq found clear) (with_parser ?g r')"
    unfolding server_gathered_def by blast
  note facts = server_gathered_facts [OF assms(2), where s = ?s and found = found and clear = clear]
  have frame: "sv_buffer (sl_priv ?g) = ?buf" "sv_log (sl_priv ?g) = sv_log p @ timer_calls p"
    "\<not> sl_upgrade ?g"
    using facts(7-9) assms(6) by (simp_all add: hs_def d_def)
  have ahead: "ibuffer r' = sv_buffer (sl_priv ?g)" "drop (token_size r') (rest r') = behind"
    using inv(3) frame(1) r'(2) by (simp_all add: ahead_def)
  note last = server_last_round [OF inv(1,2) end_token ahead]
  let ?r1 = "consume (r'\<lparr>ibuffer := token_prefix r', idx := 0\<rparr>)"
  have run: "onReadyRead ieq found clear data p = Some (Inr (server_signals
      (?g\<lparr>sl_priv := note_call Disconnect_readyRead ((sl_priv ?g)\<lparr>sv_buffer := rest r', sv_parser := ?r1\<rparr>),
        sl_emit := insert Flag_END (sl_emit ?g)\<rparr>)))"
    using r0 loop last(1) [of ieq found clear] assms(1,3) by (simp add: onReadyRead_loop rq_set_buffer_def server_idle_def)
  have "rq_inv ?r1"
    using rq_next_inv [OF rq_next_last_token(2,1) [OF inv(1,2) end_token]] .
  with last(2-4) have "server_idle (server_signals
      (?g\<lparr>sl_priv := note_call Disconnect_readyRead ((sl_priv ?g)\<lparr>sv_buffer := rest r', sv_parser := ?r1\<rparr>),
        sl_emit := insert Flag_END (sl_emit ?g)\<rparr>))"
    using frame(3) by (simp add: server_idle_def server_signals_def Let_def)
  then show ?thesis unfolding run
    by (intro exI [of _ "server_signals (?g\<lparr>sl_priv := note_call Disconnect_readyRead
            ((sl_priv ?g)\<lparr>sv_buffer := rest r', sv_parser := ?r1\<rparr>), sl_emit := insert Flag_END (sl_emit ?g)\<rparr>)"]
          conjI refl, assumption)
       (use facts frame last(2) in
        \<open>simp_all add: server_signals_def Let_def rq_parsed_count_def note_call_def hs_def d_def\<close>)
qed

theorem onReadyRead_request_witness:
  "\<exists>p'. onReadyRead stream_exact sample_found sample_clear (render_request sample_post @ ''GET'') sample_server =
      Some (Inr p') \<and> sv_buffer p' = ''GET'' \<and> d_method (sv_data p') = ''POST'' \<and> d_body (sv_data p') = ''hi'' \<and>
    d_trailers (sv_data p') = [(''T'', ''v'')] \<and>
    sv_log p' = [Start_timer 30, Disconnect_readyRead, Disconnect_data, Disconnect_end, Emit_ready, Emit_data,
      Emit_end]"
proof -
  have idle: "server_idle sample_server"
    using rq_new_inv [of RQ_HTTP_1_0 0]
    by (simp add: server_idle_def sample_server_def rq_at_start_def rq_new_def)
  have buf: "sv_buffer sample_server @ (render_request sample_post @ ''GET'') = render_request sample_post @ ''GET''"
    by (simp add: sample_server_def)
  have plain: "\<not> cf_upgrade (connection_loop stream_exact (sample_found ''connection''
      (d_headers (sample_clear (sv_data sample_server)) @ pairs_of (rm_fields sample_post)))
      \<lparr>cf_close = False, cf_keep_alive = False, cf_upgrade = False\<rparr>)"
    by (simp add: sample_found_def sample_clear_def sample_server_def sample_post_def)
  from onReadyRead_request [where found = sample_found and clear = sample_clear, OF idle sample_requests_wf(1) buf]
    plain show ?thesis
    by (auto simp: sample_server_def sample_clear_def sample_post_def timer_calls_def)
qed

end
