(* ===== verification/Tufao_Client.thy ===== *)
theory Tufao_Client
  imports Response_Body Stream_Props Client_Loop
begin

text \<open>
  \<open>WebSocketHttpClient::execute()\<close> of \<open>doc/tufao2.cpp\<close>: the handshake of a WebSocket client.
  It reads the response to its \<open>GET\<close> request, gives up on anything but a 101 response of
  HTTP/1.1, and answers whether the connection is upgraded. The chunk is an argument by reference:
  its octets up to the end of the response are removed.

  \<open>headers\<close> is a multi-map of the environment, a list of pairs in the order of insertion here;
  its \<open>contains()\<close> is an argument.
\<close>

section \<open>State\<close>

record websocket_client =
  wc_errored :: bool
  wc_parser :: response
  wc_status_code :: "16 word"
  wc_last_header :: octets
  wc_headers :: header_map
  wc_ready :: bool

record execute_state =
  ex_client :: websocket_client
  ex_chunk :: octets

section \<open>Operations\<close>

abbreviation update_client :: "(websocket_client \<Rightarrow> websocket_client) \<Rightarrow> execute_state \<Rightarrow> execute_state" where
  "update_client f s \<equiv> s\<lparr>ex_client := f (ex_client s)\<rparr>"

text \<open>\<open>errored = true; return false;\<close>\<close>

definition give_up :: "execute_state \<Rightarrow> execute_state client_exit" where
  "give_up s = Returned (update_client (\<lambda>c. c\<lparr>wc_errored := True\<rparr>) s)"

text \<open>The case \<open>symbol::status_code\<close>.\<close>

definition execute_status_code :: "execute_state \<Rightarrow> execute_state client_exit + execute_state" where
  "execute_status_code s =
     (case rs_value_status_code (wc_parser (ex_client s)) of
        Inl f \<Rightarrow> Inl (Failed (Faulted f))
      | Inr v \<Rightarrow>
          let s = update_client (\<lambda>c. c\<lparr>wc_status_code := v\<rparr>) s in
          if v \<noteq> 101 then Inl (give_up s)
          else map_sum (Failed \<circ> Faulted) (\<lambda>r. update_client (\<lambda>c. c\<lparr>wc_parser := r\<rparr>) s)
                 (rs_set_method ''GET'' (wc_parser (ex_client s))))"

text \<open>The case \<open>symbol::end_of_message\<close>.\<close>

definition execute_end_of_message :: "iequals \<Rightarrow> execute_state \<Rightarrow> fault + execute_state" where
  "execute_end_of_message ieq s =
     (let s = update_client (\<lambda>c. c\<lparr>wc_ready := True\<rparr>) s;
          r = wc_parser (ex_client s);
          s = s\<lparr>ex_chunk := drop (rs_parsed_count r) (ex_chunk s)\<rparr>
      in if length (ex_chunk s) < token_size r then Inl Out_of_bounds
         else map_sum id (\<lambda>r'. update_client (\<lambda>c. c\<lparr>wc_parser := r'\<rparr>) s)
                (rs_set_buffer ieq (take (token_size r) (ex_chunk s)) r))"

definition execute_switch :: "iequals \<Rightarrow> execute_state \<Rightarrow> execute_state client_exit + execute_state" where
  "execute_switch ieq s =
     (let r = wc_parser (ex_client s) in
      case rs_symbol r of
        symbol_error \<Rightarrow> Inl (give_up s)
      | symbol_skip \<Rightarrow> Inr s
      | symbol_method \<Rightarrow> Inl (Failed Fatal)
      | symbol_request_target \<Rightarrow> Inl (Failed Fatal)
      | symbol_version \<Rightarrow>
          (case rs_value_version r of
             Inl f \<Rightarrow> Inl (Failed (Faulted f))
           | Inr v \<Rightarrow> if v = 0 then Inl (give_up s) else Inr s)
      | symbol_status_code \<Rightarrow> execute_status_code s
      | symbol_reason_phrase \<Rightarrow> Inr s
      | symbol_field_name \<Rightarrow>
          map_sum (Failed \<circ> Faulted) (\<lambda>v. update_client (\<lambda>c. c\<lparr>wc_last_header := v\<rparr>) s)
            (rs_value_field_name r)
      | symbol_field_value \<Rightarrow>
          map_sum (Failed \<circ> Faulted)
            (\<lambda>v. update_client (\<lambda>c. c\<lparr>wc_headers := wc_headers c @ [(wc_last_header c, v)],
                                      wc_last_header := []\<rparr>) s)
            (rs_value_field_value r)
      | symbol_end_of_headers \<Rightarrow> Inr s
      | symbol_body_chunk \<Rightarrow> Inr s
      | symbol_end_of_body \<Rightarrow> Inr s
      | symbol_trailer_name \<Rightarrow> Inr s
      | symbol_trailer_value \<Rightarrow> Inr s
      | symbol_end_of_message \<Rightarrow> map_sum (Failed \<circ> Faulted) id (execute_end_of_message ieq s)
      | symbol_chunk_ext \<Rightarrow> Inr s)"

text \<open>One round of the loop: the \<open>switch\<close>, then \<open>parser.next()\<close>.\<close>

definition execute_round :: "iequals \<Rightarrow> execute_state \<Rightarrow> execute_state client_exit + execute_state" where
  "execute_round ieq s =
     (case execute_switch ieq s of
        Inl e \<Rightarrow> Inl e
      | Inr s \<Rightarrow> map_sum (Failed \<circ> Faulted) (\<lambda>r. update_client (\<lambda>c. c\<lparr>wc_parser := r\<rparr>) s)
                  (rs_next ieq (wc_parser (ex_client s))))"

definition execute_stop :: "execute_state \<Rightarrow> bool" where
  "execute_stop s \<longleftrightarrow> cur_code (wc_parser (ex_client s)) = code_error_insufficient_data"

text \<open>What follows the loop. The result is the value returned and the new state.\<close>

definition execute_end :: "(octets \<Rightarrow> header_map \<Rightarrow> bool) \<Rightarrow> execute_state \<Rightarrow> bool \<times> execute_state" where
  "execute_end contains s =
     (let c = ex_client s;
          s = s\<lparr>ex_chunk := drop (rs_parsed_count (wc_parser c)) (ex_chunk s)\<rparr>
      in (wc_ready c \<and> contains ''Upgrade'' (wc_headers c), s))"

fun execute_finish ::
  "(octets \<Rightarrow> header_map \<Rightarrow> bool) \<Rightarrow> execute_state client_exit + execute_state \<Rightarrow>
   client_failure + bool \<times> execute_state" where
  "execute_finish contains (Inl (Failed f)) = Inl f"
| "execute_finish contains (Inl (Returned s)) = Inr (False, s)"
| "execute_finish contains (Inr s) = Inr (execute_end contains s)"

definition execute ::
  "iequals \<Rightarrow> (octets \<Rightarrow> header_map \<Rightarrow> bool) \<Rightarrow> execute_state \<Rightarrow>
   (client_failure + bool \<times> execute_state) option" where
  "execute ieq contains s =
     (if wc_errored (ex_client s) then Some (Inr (False, s))
      else case rs_set_buffer ieq (ex_chunk s) (wc_parser (ex_client s)) of
          Inl f \<Rightarrow> Some (Inl (Faulted f))
        | Inr r \<Rightarrow> map_option (execute_finish contains)
                    (client_loop execute_stop (execute_round ieq)
                      (update_client (\<lambda>c. c\<lparr>wc_parser := r\<rparr>) s)))"

section \<open>The current token of a response\<close>

text \<open>The status code of the message at hand is known.\<close>

definition past_status :: "response \<Rightarrow> bool" where
  "past_status r \<longleftrightarrow> resp_state r \<notin> {RS_ERRORED, RS_EXPECT_VERSION_STATIC_STR, RS_EXPECT_VERSION,
     RS_EXPECT_SP_AFTER_VERSION, RS_EXPECT_STATUS_CODE, RS_EXPECT_END_OF_CONNECTION_ERROR}"

definition answered :: "response \<Rightarrow> bool" where
  "answered r \<longleftrightarrow> past_status r \<or> cur_code r = code_end_of_message"

definition rs_sane :: "response \<Rightarrow> bool" where
  "rs_sane r \<longleftrightarrow> cur_code r \<notin> request_only_codes \<and> (cur_code r = code_version \<longrightarrow> token_size r = 1) \<and>
     (cur_code r = code_end_of_message \<longrightarrow>
      resp_state r \<in> {RS_EXPECT_VERSION_STATIC_STR, RS_EXPECT_END_OF_CONNECTION_ERROR})"

lemma rs_switch_sane:
  assumes "cur_code r = code_error_insufficient_data"
  shows "outcome_all (\<lambda>r'. rs_sane r' \<and>
    (answered r' \<longrightarrow> past_status r \<or> cur_code r' = code_status_code)) (rs_switch ieq r)"
  using assms
  by (cases "resp_state r")
     (simp_all add: rs_all_simps rs_sane_def answered_def past_status_def request_only_codes_def
        split: rs_goal_splits)

lemma rs_next_sane:
  assumes "rs_inv r" and "rs_sane r" and "rs_next ieq r = Inr r'"
  shows "rs_sane r' \<and> (answered r' \<longrightarrow> past_status r \<or> cur_code r' = code_status_code)"
  using assms(1)
proof (cases rule: rs_next_cases [where ieq = ieq])
  case ready
  from ready(1) show ?thesis
  proof (cases rule: rs_next_ready_cases [where ieq = ieq])
    case (once r2)
    then show ?thesis using ready assms(3) rs_switch_sane [of "consume r" ieq] by (simp add: past_status_def)
  next
    case (twice r1 r2)
    then have "cur_code r1 = code_error_insufficient_data" by (simp add: rs_ready_def)
    with rs_switch_sane [OF this, of ieq] rs_switch_sane [of "consume r" ieq] twice ready assms(3)
    show ?thesis by (auto simp: answered_def past_status_def)
  next
    case fault
    then show ?thesis using ready assms(3) by simp
  qed
next
  case starved
  then show ?thesis
    using assms(3) by (auto simp: rs_exhausted_def rs_fail_def rs_sane_def answered_def past_status_def
        request_only_codes_def)
qed (use assms in \<open>auto simp: rs_sane_def answered_def past_status_def request_only_codes_def rs_fail_def
      rs_inv_def final_error_def\<close>)

text \<open>The end of a message in a buffer that is cut there: the reader waits, or the connection is not
  to be used any longer.\<close>

lemma rs_next_last_token:
  assumes "rs_inv r" and "rs_sane r" and "cur_code r = code_end_of_message"
  defines "r1 \<equiv> r\<lparr>ibuffer := token_prefix r, idx := 0\<rparr>"
  shows "rs_inv r1"
    and "\<exists>r'. rs_next ieq r1 = Inr r' \<and> symbol_convert (cur_code r') = symbol_error \<and>
      (cur_code r' = code_error_insufficient_data \<longrightarrow> r' = consume r1)"
    and "connection_flags r = 0 \<Longrightarrow> resp_state r = RS_EXPECT_VERSION_STATIC_STR \<Longrightarrow>
      rs_next ieq r1 = Inr (consume r1)"
    and "idx (consume r1) = token_size r" and "token_size (consume r1) = 0"
    and "cur_code (consume r1) = code_error_insufficient_data"
proof -
  have len: "length (token_prefix r) = token_size r"
    using assms(1) by (auto simp: rs_inv_def in_range_def token_prefix_def)
  then have "keeps_token (token_prefix r) r" by (simp add: keeps_token_def)
  then show "rs_inv r1" unfolding r1_def using assms(1) by (intro rs_rebuffer_inv)
  show out: "idx (consume r1) = token_size r" "token_size (consume r1) = 0"
    "cur_code (consume r1) = code_error_insufficient_data"
    using assms(3) by (simp_all add: r1_def consume_def)
  have next_r: "rs_next ieq r1 = (if resp_state r = RS_EXPECT_END_OF_CONNECTION_ERROR
      then Inr (rs_fail code_error_use_another_connection r1) else Inr (rs_exhausted (consume r1)))"
    using assms(2,3) len by (subst rs_next.simps) (auto simp: r1_def rs_sane_def consume_def)
  then show "\<exists>r'. rs_next ieq r1 = Inr r' \<and> symbol_convert (cur_code r') = symbol_error \<and>
      (cur_code r' = code_error_insufficient_data \<longrightarrow> r' = consume r1)"
    using assms(2,3) out(3)
    by (auto simp: rs_fail_def rs_exhausted_def rs_sane_def r1_def)
  show "rs_next ieq r1 = Inr (consume r1)"
    if "connection_flags r = 0" "resp_state r = RS_EXPECT_VERSION_STATIC_STR"
    using next_r that by (simp add: rs_exhausted_def r1_def)
qed

section \<open>The invariant of the client\<close>

text \<open>Between two runs: the client has given up, or the reader waits for data and the chunk still
  starts with the token it waits for. The status code of a message the reader is past is 101.\<close>

definition client_inv :: "execute_state \<Rightarrow> bool" where
  "client_inv s \<longleftrightarrow> wc_errored (ex_client s) \<or>
     rs_inv (wc_parser (ex_client s)) \<and> rs_sane (wc_parser (ex_client s)) \<and>
     cur_code (wc_parser (ex_client s)) = code_error_insufficient_data \<and>
     keeps_token (ex_chunk s) (wc_parser (ex_client s)) \<and>
     (past_status (wc_parser (ex_client s)) \<or> wc_ready (ex_client s) \<longrightarrow>
      wc_status_code (ex_client s) = 101)"

text \<open>Inside the loop.\<close>

definition execute_inv :: "execute_state \<Rightarrow> bool" where
  "execute_inv s \<longleftrightarrow> (let r = wc_parser (ex_client s) in
     \<not> wc_errored (ex_client s) \<and> rs_inv r \<and> rs_sane r \<and>
     (ibuffer r = ex_chunk s \<or> symbol_convert (cur_code r) = symbol_error \<and>
      (cur_code r = code_error_insufficient_data \<longrightarrow> token_size r = 0)) \<and>
     (answered r \<and> cur_code r \<noteq> code_status_code \<or> wc_ready (ex_client s) \<longrightarrow>
      wc_status_code (ex_client s) = 101))"

text \<open>A state of the loop in which the value of a header field is empty.\<close>

definition execute_empty_value :: "execute_state \<Rightarrow> bool" where
  "execute_empty_value s \<longleftrightarrow> rs_empty_value (wc_parser (ex_client s)) \<or>
     cur_code (wc_parser (ex_client s)) = code_field_value \<and> token_size (wc_parser (ex_client s)) = 0"

definition execute_leaves :: "execute_state \<Rightarrow> execute_state client_exit \<Rightarrow> bool" where
  "execute_leaves s e =
     (case e of Returned s' \<Rightarrow> wc_errored (ex_client s')
      | Failed f \<Rightarrow> f = Faulted Out_of_bounds \<and> execute_empty_value s)"

definition execute_work :: "execute_state \<Rightarrow> nat" where
  "execute_work s =
     (if symbol_convert (cur_code (wc_parser (ex_client s))) = symbol_error then 0
      else Suc (rs_pending (wc_parser (ex_client s))))"

lemma rs_set_method_total:
  assumes "rs_inv r" and "cur_code r = code_status_code"
  shows "\<exists>r'. rs_set_method m r = Inr r'"
  using rs_value_status_code_ok [OF assms] assms(2) by (auto simp: rs_set_method_def Let_def)

lemma execute_end_of_message_ok:
  assumes "rs_inv (wc_parser (ex_client s))" and "ibuffer (wc_parser (ex_client s)) = ex_chunk s"
    and "cur_code (wc_parser (ex_client s)) = code_end_of_message"
  defines "r \<equiv> wc_parser (ex_client s)"
  shows "execute_end_of_message ieq s =
    Inr (update_client (\<lambda>c. c\<lparr>wc_ready := True, wc_parser := r\<lparr>ibuffer := token_prefix r, idx := 0\<rparr>\<rparr>)
      (s\<lparr>ex_chunk := rest r\<rparr>))"
proof -
  have "token_size r \<le> length (rest r)" using assms by (auto simp: rs_inv_def in_range_def)
  then show ?thesis
    using assms(2,3)
    by (simp add: execute_end_of_message_def rs_set_buffer_def rs_parsed_count_def Let_def rest_def
        token_prefix_def r_def)
qed

text \<open>What a round of the loop that goes on does to the reader, before \<open>next()\<close>.\<close>

lemma execute_switch_cases:
  assumes "execute_inv s" and "\<not> execute_stop s" and "execute_switch ieq s = Inr s'"
  defines "r \<equiv> wc_parser (ex_client s)" and "r1 \<equiv> wc_parser (ex_client s')"
  obtains (message) "cur_code r = code_end_of_message" "r1 = r\<lparr>ibuffer := token_prefix r, idx := 0\<rparr>"
      "ex_chunk s' = rest r" "wc_status_code (ex_client s') = wc_status_code (ex_client s)"
      "wc_ready (ex_client s')" "wc_errored (ex_client s') = wc_errored (ex_client s)"
  | (status) b n where "cur_code r = code_status_code" "r1 = r\<lparr>resp_body_type := b, body_size := n\<rparr>"
      "ex_chunk s' = ex_chunk s" "wc_status_code (ex_client s') = 101"
      "wc_ready (ex_client s') = wc_ready (ex_client s)" "wc_errored (ex_client s') = wc_errored (ex_client s)"
  | (other) "cur_code r \<notin> {code_end_of_message, code_status_code}" "r1 = r"
      "ex_chunk s' = ex_chunk s" "wc_status_code (ex_client s') = wc_status_code (ex_client s)"
      "wc_ready (ex_client s') = wc_ready (ex_client s)" "wc_errored (ex_client s') = wc_errored (ex_client s)"
proof -
  have r: "rs_inv r" using assms(1) by (simp add: execute_inv_def r_def Let_def)
  consider "cur_code r = code_end_of_message" | "cur_code r = code_status_code"
    | "cur_code r \<notin> {code_end_of_message, code_status_code}" by blast
  then show thesis
  proof cases
    case 1
    then have "ibuffer r = ex_chunk s" using assms(1) by (auto simp: execute_inv_def r_def Let_def)
    with 1 r assms(3) execute_end_of_message_ok [of s ieq] show ?thesis
      by (intro message) (auto simp: execute_switch_def rs_symbol_def r_def r1_def)
  next
    case 2
    with assms(3) obtain v r2 where "v = 101" "rs_set_method ''GET'' r = Inr r2"
      "s' = update_client (\<lambda>c. c\<lparr>wc_status_code := v, wc_parser := r2\<rparr>) s"
      by (auto simp: execute_switch_def rs_symbol_def execute_status_code_def r_def Let_def map_sum_def
          split: sum.splits if_splits)
    with 2 show ?thesis by (elim rs_set_method_cases) (auto intro: status simp: r1_def)
  next
    case 3
    with assms(3) have "r1 = r \<and> ex_chunk s' = ex_chunk s \<and>
        wc_status_code (ex_client s') = wc_status_code (ex_client s) \<and>
        wc_ready (ex_client s') = wc_ready (ex_client s) \<and> wc_errored (ex_client s') = wc_errored (ex_client s)"
      by (cases "cur_code r")
         (auto simp: execute_switch_def rs_symbol_def r_def r1_def Let_def map_sum_def
            split: sum.splits if_splits)
    with 3 show ?thesis by (intro other) simp_all
  qed
qed

lemma execute_switch_inv:
  assumes "execute_inv s" and "\<not> execute_stop s" and "execute_switch ieq s = Inr s'"
  shows "rs_inv (wc_parser (ex_client s'))"
proof -
  let ?r = "wc_parser (ex_client s)"
  have r: "rs_inv ?r" "rs_sane ?r" using assms(1) by (auto simp: execute_inv_def Let_def)
  from assms show ?thesis
  proof (cases rule: execute_switch_cases)
    case message
    with rs_next_last_token(1) [OF r message(1)] show ?thesis by simp
  next
    case (status b n)
    then show ?thesis
      using assms(3) by (auto simp: execute_switch_def rs_symbol_def execute_status_code_def Let_def
          map_sum_def intro: rs_set_method_inv [OF r(1)] split: sum.splits if_splits)
  qed (use r in simp)
qed

lemma execute_round_step:
  assumes "execute_inv s" and "\<not> execute_stop s" and "execute_round ieq s = Inr s'"
  shows "execute_inv s' \<and> execute_work s' < execute_work s"
proof -
  let ?r = "wc_parser (ex_client s)"
  obtain s1 r' where sw: "execute_switch ieq s = Inr s1"
    and next_r: "rs_next ieq (wc_parser (ex_client s1)) = Inr r'"
    and s': "s' = update_client (\<lambda>c. c\<lparr>wc_parser := r'\<rparr>) s1"
    using assms(3) by (auto simp: execute_round_def map_sum_def split: sum.splits)
  have err: "symbol_convert (cur_code ?r) \<noteq> symbol_error"
    using sw by (auto simp: execute_switch_def rs_symbol_def Let_def)
  then have r: "rs_inv ?r" "rs_sane ?r" "ibuffer ?r = ex_chunk s"
    "answered ?r \<and> cur_code ?r \<noteq> code_status_code \<or> wc_ready (ex_client s) \<longrightarrow>
     wc_status_code (ex_client s) = 101" "\<not> wc_errored (ex_client s)"
    using assms(1) by (auto simp: execute_inv_def Let_def)
  have plain: ?thesis
    if r1: "rs_inv r1" "rs_sane r1" "wc_parser (ex_client s1) = r1" "ibuffer r1 = ibuffer ?r"
      "rs_pending r1 = rs_pending ?r" "cur_code r1 = cur_code ?r" "past_status r1 = past_status ?r"
      "ex_chunk s1 = ex_chunk s"
      "\<not> wc_errored (ex_client s1)"
      and known: "past_status ?r \<or> wc_ready (ex_client s1) \<longrightarrow> wc_status_code (ex_client s1) = 101" for r1
  proof -
    have run: "rs_next ieq r1 = Inr r'" using next_r r1(3) by simp
    have "rs_inv r'" "rs_sane r'"
      using rs_next_inv [OF r1(1) run] rs_next_sane [OF r1(1,2) run] by simp_all
    moreover have "answered r' \<and> cur_code r' \<noteq> code_status_code \<longrightarrow> past_status ?r"
      using rs_next_sane [OF r1(1,2) run] r1(7) by auto
    moreover have "ibuffer r' = ex_chunk s1" using rs_next_frame [OF r1(1) run] r1(4,8) r(3) by simp
    moreover have "rs_pending r' < rs_pending ?r" if "symbol_convert (cur_code r') \<noteq> symbol_error"
      using rs_next_pending [OF r1(1) _ run that] err r1(5,6) by simp
    ultimately show ?thesis using s' known err r1(9) by (auto simp: execute_inv_def execute_work_def Let_def)
  qed
  from assms(1,2) sw show ?thesis
  proof (cases rule: execute_switch_cases)
    case message
    note last = rs_next_last_token [OF r(1,2) message(1)]
    from last(2) [of ieq] next_r message(2) have r': "symbol_convert (cur_code r') = symbol_error"
      "cur_code r' = code_error_insufficient_data \<longrightarrow> token_size r' = 0"
      using last(5) by auto
    have sane: "rs_sane (?r\<lparr>ibuffer := token_prefix ?r, idx := 0\<rparr>)" using r(2) by (simp add: rs_sane_def)
    have "rs_inv r'" "rs_sane r'"
      using rs_next_inv [OF last(1)] rs_next_sane [OF last(1) sane] next_r message(2) by simp_all
    moreover have "wc_status_code (ex_client s) = 101" using r(4) message(1) by (simp add: answered_def)
    ultimately show ?thesis
      using r' message(4,6) s' err r(5) by (simp add: execute_inv_def execute_work_def Let_def)
  next
    case (status b n)
    then show ?thesis
      using r(2,5) execute_switch_inv [OF assms(1,2) sw] by (intro plain [OF _ _ refl])
        (simp_all add: rs_sane_def rs_pending_def past_status_def)
  next
    case other
    then show ?thesis using r by (intro plain [OF r(1,2)]) (simp_all add: answered_def)
  qed
qed

lemma execute_switch_leaves:
  assumes "execute_inv s" and "\<not> execute_stop s" and "execute_switch ieq s = Inl e"
  shows "execute_leaves s e"
proof (cases "symbol_convert (cur_code (wc_parser (ex_client s))) = symbol_error")
  case True
  with assms(3) show ?thesis
    by (auto simp: execute_switch_def rs_symbol_def execute_leaves_def give_up_def Let_def)
next
  case False
  let ?r = "wc_parser (ex_client s)"
  have r: "rs_inv ?r" "rs_sane ?r" "ibuffer ?r = ex_chunk s"
    using assms(1) False by (auto simp: execute_inv_def Let_def)
  then have view: "token_view ?r = Inr (token_prefix ?r)" "token_prefix ?r = [] \<longleftrightarrow> token_size ?r = 0"
    by (auto simp: rs_inv_def in_range_def token_prefix_def rest_def)
  show ?thesis
  proof (cases "cur_code ?r")
    case code_end_of_message
    with assms(3) execute_end_of_message_ok [OF r(1,3), of ieq] show ?thesis
      by (simp add: execute_switch_def rs_symbol_def Let_def)
  next
    case code_status_code
    with assms(3) rs_set_method_total [OF r(1), of "''GET''"] rs_value_status_code_ok [OF r(1)] show ?thesis
      by (auto simp: execute_switch_def rs_symbol_def execute_status_code_def execute_leaves_def give_up_def
          Let_def split: if_splits)
  next
    case code_version
    with r(1,2) have "idx ?r < length (ibuffer ?r)" by (auto simp: rs_sane_def rs_inv_def in_range_def)
    with code_version assms(3) show ?thesis
      by (auto simp: execute_switch_def rs_symbol_def rs_value_version_def execute_leaves_def give_up_def
          Let_def split: if_splits)
  qed (use assms(3) r False view in \<open>auto simp: execute_switch_def rs_symbol_def rs_sane_def
      request_only_codes_def execute_leaves_def execute_empty_value_def rs_value_field_name_def
      rs_value_field_value_def map_sum_def
      Let_def dest: decode_field_value_fault split: sum.splits\<close>)
qed

lemma execute_round_leaves:
  assumes "execute_inv s" and "\<not> execute_stop s" and "execute_round ieq s = Inl e"
  shows "execute_leaves s e"
proof (cases "execute_switch ieq s")
  case (Inl e')
  with assms execute_switch_leaves [OF assms(1,2)] show ?thesis by (simp add: execute_round_def)
next
  case (Inr s1)
  obtain f where f: "rs_next ieq (wc_parser (ex_client s1)) = Inl f" "e = Failed (Faulted f)"
    using assms(3) Inr by (auto simp: execute_round_def map_sum_def split: sum.splits)
  then have empty: "f = Out_of_bounds" "rs_empty_value (wc_parser (ex_client s1))"
    using rs_next_fault_iff [OF execute_switch_inv [OF assms(1,2) Inr], of ieq f] by simp_all
  let ?r = "wc_parser (ex_client s)"
  have r: "rs_inv ?r" "rs_sane ?r" using assms(1) by (simp_all add: execute_inv_def Let_def)
  from assms(1,2) Inr have "rs_empty_value ?r"
  proof (cases rule: execute_switch_cases)
    case message
    with empty(2) r(2) show ?thesis by (auto simp: rs_empty_value_def rs_sane_def)
  next
    case (status b n)
    with empty(2) show ?thesis by (simp add: rs_empty_value_def consume_def rest_def)
  qed (use empty(2) in simp)
  with f(2) empty(1) show ?thesis by (simp add: execute_leaves_def execute_empty_value_def)
qed

text \<open>\<open>ready\<close> is set at the end of a message and nowhere else.\<close>

lemma execute_round_ready:
  assumes "execute_inv s" and "\<not> execute_stop s" and "execute_round ieq s = Inr s'"
  shows "wc_ready (ex_client s') \<longleftrightarrow>
    wc_ready (ex_client s) \<or> cur_code (wc_parser (ex_client s)) = code_end_of_message"
proof -
  obtain s1 r' where sw: "execute_switch ieq s = Inr s1"
    and s': "s' = update_client (\<lambda>c. c\<lparr>wc_parser := r'\<rparr>) s1"
    using assms(3) by (auto simp: execute_round_def map_sum_def split: sum.splits)
  from assms(1,2) sw show ?thesis by (cases rule: execute_switch_cases) (auto simp: s')
qed

interpretation execute: client_loop_total execute_stop "execute_round ieq" execute_inv execute_leaves
  execute_work for ieq
  by unfold_locales (rule execute_round_step, assumption+, rule execute_round_leaves)

section \<open>Runs of the client\<close>

text \<open>The loop starts in its invariant.\<close>

lemma execute_set_buffer:
  assumes "client_inv s" and "\<not> wc_errored (ex_client s)"
  shows "case rs_set_buffer ieq (ex_chunk s) (wc_parser (ex_client s)) of
      Inl f \<Rightarrow> f = Out_of_bounds \<and> rs_empty_value ((wc_parser (ex_client s))\<lparr>ibuffer := ex_chunk s, idx := 0\<rparr>)
    | Inr r \<Rightarrow> execute_inv (update_client (\<lambda>c. c\<lparr>wc_parser := r\<rparr>) s)"
proof -
  let ?p = "wc_parser (ex_client s)"
  let ?r = "?p\<lparr>ibuffer := ex_chunk s, idx := 0\<rparr>"
  have inv: "rs_inv ?p" "rs_sane ?p" "cur_code ?p = code_error_insufficient_data" "keeps_token (ex_chunk s) ?p"
    "past_status ?p \<or> wc_ready (ex_client s) \<longrightarrow> wc_status_code (ex_client s) = 101"
    using assms by (auto simp: client_inv_def)
  then have r: "rs_inv ?r" "rs_sane ?r" "past_status ?r = past_status ?p"
    using rs_rebuffer_inv by (simp_all add: rs_sane_def past_status_def)
  have set_buffer: "rs_set_buffer ieq (ex_chunk s) ?p = rs_next ieq ?r"
    using inv(3) by (simp add: rs_set_buffer_def)
  show ?thesis
  proof (cases "rs_next ieq ?r")
    case (Inl f)
    with rs_next_fault_iff [OF r(1), of ieq f] set_buffer show ?thesis by simp
  next
    case (Inr r')
    with rs_next_inv [OF r(1) Inr] rs_next_sane [OF r(1,2) Inr] rs_next_frame [OF r(1) Inr] set_buffer inv(5) r(3)
      assms(2)
    show ?thesis by (auto simp: execute_inv_def Let_def)
  qed
qed

lemma execute_end_inv:
  assumes "execute_inv s" and "execute_stop s"
  shows "client_inv (snd (execute_end contains s))"
    and "fst (execute_end contains s) \<longleftrightarrow> wc_ready (ex_client s) \<and> contains ''Upgrade'' (wc_headers (ex_client s))"
    and "wc_ready (ex_client s) \<Longrightarrow> wc_status_code (ex_client s) = 101"
    and "ex_client (snd (execute_end contains s)) = ex_client s" and "\<not> wc_errored (ex_client s)"
proof -
  let ?r = "wc_parser (ex_client s)"
  have r: "rs_inv ?r" "rs_sane ?r" "cur_code ?r = code_error_insufficient_data"
    "ibuffer ?r = ex_chunk s \<or> token_size ?r = 0"
    "past_status ?r \<or> wc_ready (ex_client s) \<longrightarrow> wc_status_code (ex_client s) = 101"
    using assms by (auto simp: execute_inv_def execute_stop_def answered_def Let_def)
  have "keeps_token (drop (idx ?r) (ex_chunk s)) ?r"
    using r(4)
  proof
    assume "ibuffer ?r = ex_chunk s"
    then show ?thesis using r(1) keeps_token_rest [of ?r] by (simp add: rest_def rs_inv_def)
  qed (simp add: keeps_token_def token_prefix_def)
  with r show "client_inv (snd (execute_end contains s))"
    by (simp add: execute_end_def client_inv_def rs_parsed_count_def Let_def)
  show "ex_client (snd (execute_end contains s)) = ex_client s"
    "fst (execute_end contains s) \<longleftrightarrow> wc_ready (ex_client s) \<and> contains ''Upgrade'' (wc_headers (ex_client s))"
    by (simp_all add: execute_end_def Let_def)
  show "wc_status_code (ex_client s) = 101" if "wc_ready (ex_client s)" using that r(5) by simp
  show "\<not> wc_errored (ex_client s)" using assms(1) by (simp add: execute_inv_def Let_def)
qed

text \<open>What the reader is at in some round of a run: the empty value of a header field, or the end of a
  message.\<close>

definition execute_reaches :: "iequals \<Rightarrow> execute_state \<Rightarrow> (execute_state \<Rightarrow> bool) \<Rightarrow> bool" where
  "execute_reaches ieq s P \<longleftrightarrow>
     (\<exists>r u. rs_set_buffer ieq (ex_chunk s) (wc_parser (ex_client s)) = Inr r \<and>
        loop_reaches execute_stop (execute_round ieq) (update_client (\<lambda>c. c\<lparr>wc_parser := r\<rparr>) s) u \<and> P u)"

definition execute_meets_empty_value :: "iequals \<Rightarrow> execute_state \<Rightarrow> bool" where
  "execute_meets_empty_value ieq s \<longleftrightarrow>
     rs_empty_value ((wc_parser (ex_client s))\<lparr>ibuffer := ex_chunk s, idx := 0\<rparr>) \<or>
     execute_reaches ieq s (\<lambda>u. \<not> execute_stop u \<and> execute_empty_value u)"

definition execute_reads_end :: "iequals \<Rightarrow> execute_state \<Rightarrow> bool" where
  "execute_reads_end ieq s \<longleftrightarrow>
     execute_reaches ieq s (\<lambda>u. cur_code (wc_parser (ex_client u)) = code_end_of_message)"

text \<open>C16: every run of the handshake returns, never calls \<open>qFatal\<close>, and fails only when it meets
  the empty value of a header field, for which \<open>decode_field_value\<close> indexes outside an empty view.
  Otherwise it leaves the client ready for the next chunk, or given up for good. It answers that the
  connection is upgraded exactly when the client has not given up, is \<open>ready\<close> and has a header field
  \<open>Upgrade\<close>; and the client becomes \<open>ready\<close> in a run exactly when the reader reports the end of a
  message in it, which by then is one of status code 101. So the answer comes only after a whole
  response with status code 101, however it was cut into chunks.\<close>

theorem execute_returns:
  assumes "client_inv s"
  shows "\<exists>x. execute ieq contains s = Some x \<and>
    (case x of
       Inl f \<Rightarrow> f = Faulted Out_of_bounds \<and> execute_meets_empty_value ieq s
     | Inr (upgraded, s') \<Rightarrow> client_inv s' \<and>
         (upgraded \<longleftrightarrow> \<not> wc_errored (ex_client s') \<and> wc_ready (ex_client s') \<and>
            contains ''Upgrade'' (wc_headers (ex_client s'))) \<and>
         (\<not> wc_errored (ex_client s') \<longrightarrow>
            (wc_ready (ex_client s') \<longleftrightarrow> wc_ready (ex_client s) \<or> execute_reads_end ieq s) \<and>
            (wc_ready (ex_client s') \<longrightarrow> wc_status_code (ex_client s') = 101)))"
proof (cases "wc_errored (ex_client s)")
  case True
  with assms show ?thesis by (simp add: execute_def)
next
  case False
  note start = execute_set_buffer [OF assms False, of ieq]
  show ?thesis
  proof (cases "rs_set_buffer ieq (ex_chunk s) (wc_parser (ex_client s))")
    case (Inl f)
    with start False show ?thesis by (simp add: execute_def execute_meets_empty_value_def)
  next
    case (Inr r)
    let ?s = "update_client (\<lambda>c. c\<lparr>wc_parser := r\<rparr>) s"
    let ?reaches = "loop_reaches execute_stop (execute_round ieq) ?s"
    have inv: "execute_inv ?s" using start Inr by simp
    have reaches: "execute_reaches ieq s P \<longleftrightarrow> (\<exists>u. ?reaches u \<and> P u)" for P
      using Inr by (simp add: execute_reaches_def)
    from execute.loop_ends [OF inv, of ieq] obtain x t where
      x: "client_loop execute_stop (execute_round ieq) ?s = Some x" "?reaches t" "execute_inv t"
        "case x of Inl e \<Rightarrow> \<not> execute_stop t \<and> execute_leaves t e | Inr s' \<Rightarrow> s' = t \<and> execute_stop t" by blast
    have run: "execute ieq contains s = Some (execute_finish contains x)"
      using x(1) False Inr by (simp add: execute_def)
    show ?thesis
    proof (cases x)
      case (Inl e)
      then show ?thesis
        using x(2,4) run by (cases e) (auto simp: execute_leaves_def client_inv_def execute_meets_empty_value_def reaches)
    next
      case Inr': (Inr t')
      with x(4) have t: "t' = t" "execute_stop t" by simp_all
      have "wc_ready (ex_client t) \<longleftrightarrow> wc_ready (ex_client ?s) \<or>
          (\<exists>u. ?reaches u \<and> cur_code (wc_parser (ex_client u)) = code_end_of_message)"
        using x(2) t(2) inv by (rule execute.reaches_flag) (auto simp: execute_stop_def dest: execute_round_ready)
      with execute_end_inv [OF x(3) t(2)] run Inr' t(1) show ?thesis
        by (auto simp: execute_reads_end_def reaches case_prod_beta)
    qed
  qed
qed

definition sample_contains :: "octets \<Rightarrow> header_map \<Rightarrow> bool" where
  "sample_contains key hs \<longleftrightarrow> key \<in> fst ` set hs"

definition sample_client :: websocket_client where
  "sample_client = \<lparr>wc_errored = False, wc_parser = rs_new 0, wc_status_code = 0, wc_last_header = [],
     wc_headers = [], wc_ready = False\<rparr>"

theorem execute_returns_witness:
  "client_inv \<lparr>ex_client = sample_client, ex_chunk = ''HTTP/1.1 1''\<rparr> \<and>
   (\<exists>upgraded s'. execute stream_exact sample_contains \<lparr>ex_client = sample_client, ex_chunk = ''HTTP/1.1 1''\<rparr> =
      Some (Inr (upgraded, s')) \<and> client_inv s' \<and>
     (\<not> wc_errored (ex_client s') \<longrightarrow>
       wc_ready (ex_client s') = execute_reads_end stream_exact \<lparr>ex_client = sample_client, ex_chunk = ''HTTP/1.1 1''\<rparr>))"
proof -
  let ?s = "\<lparr>ex_client = sample_client, ex_chunk = ''HTTP/1.1 1''\<rparr>"
  have inv: "client_inv ?s"
    using rs_new_inv [of 0]
    by (simp add: client_inv_def sample_client_def rs_sane_def keeps_token_def token_prefix_def rs_new_def
        request_only_codes_def past_status_def)
  have "map_option (map_sum id fst) (execute stream_exact sample_contains ?s) = Some (Inr False)"
    by code_simp
  then obtain s' where run: "execute stream_exact sample_contains ?s = Some (Inr (False, s'))"
    by (cases "execute stream_exact sample_contains ?s") (auto simp: map_sum_def split: sum.splits)
  with execute_returns [OF inv, of stream_exact sample_contains] inv show ?thesis
    by (auto simp: sample_client_def)
qed

section \<open>A whole response\<close>

text \<open>The tokens that keep the client in its loop, and their effect on its members.\<close>

definition handshake_token :: "token \<Rightarrow> bool" where
  "handshake_token x \<longleftrightarrow> symbol_convert (fst x) \<noteq> symbol_error \<and> fst x \<notin> request_only_codes \<and>
     fst x \<noteq> code_end_of_message \<and> (fst x = code_version \<longrightarrow> length (snd x) = 1 \<and> snd x \<noteq> ''0'') \<and>
     (fst x = code_status_code \<longrightarrow> snd x = ''101'') \<and> (fst x = code_field_value \<longrightarrow> snd x \<noteq> [])"

definition execute_token :: "token \<Rightarrow> execute_state \<Rightarrow> execute_state" where
  "execute_token x s =
     (case fst x of
        code_status_code \<Rightarrow> update_client (\<lambda>c. c\<lparr>wc_status_code := 101\<rparr>) s
      | code_field_name \<Rightarrow> update_client (\<lambda>c. c\<lparr>wc_last_header := snd x\<rparr>) s
      | code_field_value \<Rightarrow> update_client (\<lambda>c. c\<lparr>wc_headers := wc_headers c @ [(wc_last_header c, trimmed (snd x))],
                                                   wc_last_header := []\<rparr>) s
      | _ \<Rightarrow> s)"

definition put_reader :: "execute_state \<Rightarrow> response \<Rightarrow> execute_state" where
  "put_reader s r = update_client (\<lambda>c. c\<lparr>wc_parser := r\<rparr>) s"

lemma put_reader_fields [simp]:
  "wc_parser (ex_client (put_reader s r)) = r" "ex_chunk (put_reader s r) = ex_chunk s"
  "put_reader (put_reader s r) r' = put_reader s r'"
  by (simp_all add: put_reader_def)

text \<open>A version token is its digit.\<close>

lemma rs_value_version_digit:
  assumes "cur_code r = code_version" and "token_prefix r = [d]"
  shows "rs_value_version r = Inr (int (byte d) - 48)"
  using assms by (simp add: rs_value_version_def byte_at_token)

lemma rs_value_status_101:
  assumes "in_range r" and "cur_code r = code_status_code" and "token_prefix r = ''101''"
  shows "rs_value_status_code r = Inr 101"
proof -
  have "token_view r = Inr (token_prefix r)"
    using assms(1) by (simp add: in_range_def token_prefix_def rest_def)
  moreover have "status_code_decode ''101'' = Inr 101" by code_simp
  ultimately show ?thesis using assms(2,3) by (simp add: rs_value_status_code_def)
qed

lemma rs_value_status_other:
  assumes "in_range r" and "cur_code r = code_status_code" and "token_prefix r = c"
    and "length c = 3" and "list_all isdigit c" and "c \<noteq> ''101''"
  shows "\<exists>v. rs_value_status_code r = Inr v \<and> v \<noteq> 101"
proof -
  obtain x y z where c: "c = [x, y, z]"
    using assms(4) by (metis length_0_conv length_Suc_conv numeral_3_eq_3)
  have digits: "48 \<le> byte x" "byte x \<le> 57" "48 \<le> byte y" "byte y \<le> 57" "48 \<le> byte z" "byte z \<le> 57"
    using assms(5) c by (simp_all add: status_digits)
  let ?n = "100 * (byte x - 48) + 10 * (byte y - 48) + (byte z - 48)"
  have "status_code_decode c = Inr (of_nat ?n)"
    using digits c by (simp add: status_code_decode_def algebra_simps of_nat_diff)
  moreover have "?n \<noteq> 101"
  proof
    assume "?n = 101"
    moreover obtain i j k where eqs: "byte x = 48 + i" "byte y = 48 + j" "byte z = 48 + k"
      using digits by (metis le_Suc_ex)
    ultimately have "100 * i + 10 * j + k = 101" by simp
    moreover from this digits eqs have "i = 1" by linarith
    moreover from calculation have "j = 0" by linarith
    ultimately have "byte x = 49" "byte y = 48" "byte z = 49" using eqs by simp_all
    with assms(6) c show False by (simp add: char_eq_byte)
  qed
  moreover have "?n < 1000" using digits by linarith
  moreover have "(of_nat n :: 16 word) \<noteq> 101" if "n \<noteq> 101" "n < 1000" for n
    using that by (simp add: word_unat_eq_iff unat_of_nat)
  ultimately have "\<exists>v. status_code_decode c = Inr v \<and> v \<noteq> 101" by blast
  moreover have "token_view r = Inr c"
    using assms(1,3) by (simp add: in_range_def token_prefix_def rest_def)
  ultimately show ?thesis using assms(2) by (simp add: rs_value_status_code_def)
qed

lemma execute_round_token:
  assumes "rs_inv r" and "handshake_token (cur_code r, token_prefix r)"
    and "rs_client_next ieq ''GET'' r = Inr r'"
  shows "execute_round ieq (put_reader s r) = Inr (put_reader (execute_token (cur_code r, token_prefix r) s) r')"
proof -
  have range: "in_range r" using assms(1) by (simp add: rs_inv_def)
  then have view: "token_view r = Inr (token_prefix r)"
    by (simp add: in_range_def token_prefix_def rest_def)
  show ?thesis
  proof (cases "cur_code r")
    case code_version
    then obtain d where d: "token_prefix r = [d]" "d \<noteq> CHR ''0''"
      using assms(2) by (auto simp: handshake_token_def length_Suc_conv)
    from d(2) have "int (byte d) - 48 \<noteq> 0" by (simp add: char_eq_byte)
    with rs_value_version_digit [OF code_version d(1)] code_version assms(3) show ?thesis
      by (simp add: execute_round_def execute_switch_def rs_symbol_def execute_token_def rs_client_next_def
          put_reader_def Let_def)
  next
    case code_status_code
    with assms(2) have "rs_value_status_code r = Inr 101"
      by (intro rs_value_status_101 [OF range]) (simp_all add: handshake_token_def)
    moreover obtain r1 where "rs_set_method ''GET'' r = Inr r1" "rs_next ieq r1 = Inr r'"
      using assms(3) code_status_code by (auto simp: rs_client_next_def split: sum.splits)
    ultimately show ?thesis
      using code_status_code
      by (simp add: execute_round_def execute_switch_def rs_symbol_def execute_status_code_def
          execute_token_def Let_def) (simp add: put_reader_def)
  qed (use assms(2,3) view in \<open>simp_all add: handshake_token_def execute_round_def execute_switch_def
      rs_symbol_def execute_token_def rs_client_next_def request_only_codes_def rs_value_field_name_def
      rs_value_field_value_def decode_field_value_trimmed put_reader_def Let_def\<close>)
qed

lemma rs_client_next_inv: "rs_inv r \<Longrightarrow> rs_client_next ieq m r = Inr r' \<Longrightarrow> rs_inv r'"
  by (auto simp: rs_client_next_def split: if_splits sum.splits intro: rs_next_inv dest: rs_set_method_inv)

interpretation execute: token_client "rs_client_next ieq ''GET''" execute_stop "execute_round ieq" put_reader
  execute_token handshake_token rs_inv for ieq
proof unfold_locales
  fix r r' s
  assume "rs_inv r" "handshake_token (cur_code r, token_prefix r)" "rs_client_next ieq ''GET'' r = Inr r'"
  then show "\<not> execute_stop (put_reader s r) \<and> execute_round ieq (put_reader s r) =
      Inr (put_reader (execute_token (cur_code r, token_prefix r) s) r')"
    using execute_round_token by (auto simp: execute_stop_def handshake_token_def)
qed (rule rs_client_next_inv)

lemma execute_fields:
  assumes "list_all wf_field hs"
  shows "fold execute_token (fields_tokens code_field_name code_field_value hs) s =
    (if hs = [] then s
     else update_client (\<lambda>c. c\<lparr>wc_headers := wc_headers c @ pairs_of hs, wc_last_header := []\<rparr>) s)"
  using assms
  by (induction hs arbitrary: s) (auto simp: field_tokens_def execute_token_def trimmed_field)

text \<open>The client between two messages.\<close>

definition client_idle :: "websocket_client \<Rightarrow> bool" where
  "client_idle c \<longleftrightarrow> \<not> wc_errored c \<and> rs_inv (wc_parser c) \<and> rs_at_start (wc_parser c) \<and>
     cur_code (wc_parser c) = code_error_insufficient_data \<and> token_size (wc_parser c) = 0"

lemma client_idle_buffer:
  fixes buf :: octets
  assumes "client_idle c"
  defines "r \<equiv> (wc_parser c)\<lparr>ibuffer := buf, idx := 0\<rparr>"
  shows "rs_inv r" and "rs_sane r" and "rs_at_start r" and "ahead r buf"
    and "rs_set_buffer ieq buf (wc_parser c) = rs_client_next ieq m r"
  using assms rs_rebuffer_inv [of "wc_parser c" buf]
  by (simp_all add: client_idle_def rs_sane_def request_only_codes_def rs_at_start_def ahead_def in_range_def
      rest_def final_error_def keeps_token_def token_prefix_def rs_set_buffer_def rs_client_next_def)

lemma rs_client_gives_inv:
  "gives (rs_client_next ieq m) r ts r' \<Longrightarrow> rs_inv r \<Longrightarrow> rs_sane r \<Longrightarrow>
   rs_inv r' \<and> rs_sane r' \<and> ibuffer r' = ibuffer r"
proof (induction ts arbitrary: r)
  case (Cons t ts)
  then obtain r1 where r1: "rs_client_next ieq m r = Inr r1" "gives (rs_client_next ieq m) r1 ts r'" by auto
  then obtain r0 where r0: "rs_next ieq r0 = Inr r1" "rs_inv r0" "rs_sane r0" "ibuffer r0 = ibuffer r"
  proof (cases "cur_code r = code_status_code")
    case True
    with r1(1) obtain r0 where r0: "rs_set_method m r = Inr r0" "rs_next ieq r0 = Inr r1"
      by (auto simp: rs_client_next_def split: sum.splits)
    moreover from r0(1) have "rs_sane r0 \<and> ibuffer r0 = ibuffer r"
      using Cons.prems(3) by (auto simp: rs_sane_def elim: rs_set_method_cases)
    ultimately show ?thesis using that rs_set_method_inv [OF Cons.prems(2) r0(1)] by blast
  qed (use Cons.prems that in \<open>auto simp: rs_client_next_def\<close>)
  with Cons.IH [OF r1(2)] rs_next_inv [OF r0(2,1)] rs_next_sane [OF r0(2,3,1)] rs_next_frame [OF r0(2,1)]
  show ?case by simp
qed simp

text \<open>The last round, at the end of the message.\<close>

lemma execute_last_round:
  fixes s :: execute_state
  assumes "rs_inv r" and "rs_sane r" and "rs_at_start r" and "cur_code r = code_end_of_message"
    and "ibuffer r = ex_chunk s" and "drop (token_size r) (rest r) = behind"
  defines "r1 \<equiv> consume (r\<lparr>ibuffer := token_prefix r, idx := 0\<rparr>)"
  shows "client_loop execute_stop (execute_round ieq) (put_reader s r) =
    Some (Inr (update_client (\<lambda>c. c\<lparr>wc_ready := True, wc_parser := r1\<rparr>) (s\<lparr>ex_chunk := rest r\<rparr>)))"
    and "drop (idx r1) (rest r) = behind" and "rs_at_start r1" and "rs_inv r1"
    and "cur_code r1 = code_error_insufficient_data" and "token_size r1 = 0"
proof -
  note last = rs_next_last_token [OF assms(1,2,4), folded r1_def]
  let ?s1 = "update_client (\<lambda>c. c\<lparr>wc_ready := True, wc_parser := r1\<rparr>) (s\<lparr>ex_chunk := rest r\<rparr>)"
  have run: "rs_next ieq (r\<lparr>ibuffer := token_prefix r, idx := 0\<rparr>) = Inr r1" for ieq
    using last(3) assms(3) by (simp add: rs_at_start_def)
  then have "execute_round ieq (put_reader s r) = Inr ?s1"
    using execute_end_of_message_ok [of "put_reader s r" ieq] assms(1,4,5)
    by (simp add: execute_round_def execute_switch_def rs_symbol_def Let_def) (simp add: put_reader_def)
  moreover have "\<not> execute_stop (put_reader s r)" "execute_stop ?s1"
    using assms(4) last(6) by (simp_all add: execute_stop_def)
  ultimately show "client_loop execute_stop (execute_round ieq) (put_reader s r) = Some (Inr ?s1)"
    by (simp add: client_loop_step client_loop_stop)
  show "drop (idx r1) (rest r) = behind" using last(4) assms(6) by simp
  show "rs_at_start r1" using assms(3) last(6) by (simp add: r1_def rs_at_start_def)
  show "rs_inv r1" using rs_next_inv [OF last(1) run] .
  show "cur_code r1 = code_error_insufficient_data" "token_size r1 = 0" by (rule last(6,5))+
qed

lemma forbids_body_101: "forbids_body m (the (decimal_value ''101''))"
proof -
  have "decimal_value ''101'' = Some 101" by code_simp
  then show ?thesis by (simp add: forbids_body_def)
qed

lemma execute_upgrade:
  assumes "client_idle (ex_client s)" and "wf_response ieq ''GET'' m" and "sm_status m = ''101''"
    and "ex_chunk s = render_response m @ behind"
  defines "hs \<equiv> wc_headers (ex_client s) @ pairs_of (sm_fields m)"
  shows "\<exists>s'. execute ieq contains s = Some (Inr (contains ''Upgrade'' hs, s')) \<and>
    client_idle (ex_client s') \<and> ex_chunk s' = behind \<and> wc_headers (ex_client s') = hs \<and>
    wc_ready (ex_client s') \<and> wc_status_code (ex_client s') = 101"
proof -
  let ?r = "(wc_parser (ex_client s))\<lparr>ibuffer := ex_chunk s, idx := 0\<rparr>"
  note r = client_idle_buffer [OF assms(1), where buf = "ex_chunk s"]
  have wf: "list_all wf_field (sm_fields m)" "isdigit (sm_minor m)" "sm_minor m \<noteq> CHR ''0''"
    and no_body: "sm_body m = No_body"
    using assms(2,3) forbids_body_101 by (simp_all add: wf_response_def)
  have tokens: "butlast (response_tokens m) =
      [(code_skip, rs_static_str), (code_version, [sm_minor m]), (code_skip, '' ''),
       (code_status_code, ''101''), (code_skip, '' ''), (code_reason_phrase, sm_reason m), (code_skip, CRLF)] @
      fields_tokens code_field_name code_field_value (sm_fields m) @
      [(code_end_of_headers, CRLF), (code_end_of_body, [])]"
    and last_token: "last (response_tokens m) = (code_end_of_message, [])" "response_tokens m \<noteq> []"
    using assms(3) by (simp_all add: response_tokens_def no_body butlast_append)
  have "list_all handshake_token (fields_tokens code_field_name code_field_value (sm_fields m))"
    using wf(1) by (auto simp: list_all_iff field_tokens_def wf_field_def handshake_token_def
        request_only_codes_def)
  then have usable: "list_all handshake_token (butlast (response_tokens m))"
    unfolding tokens using wf(3) by (simp add: handshake_token_def request_only_codes_def)
  obtain r' where r': "gives (rs_client_next ieq ''GET'') ?r (response_tokens m) r'" "rs_at_start r'"
    "ahead r' behind"
    using yieldsD [OF rs_reads_response [OF assms(2)] r(3)] r(4) assms(4) by auto
  note inv = rs_client_gives_inv [OF r'(1) r(1,2)]
  have end_token: "cur_code r' = code_end_of_message" using gives_last [OF r'(1)] last_token by simp
  let ?g = "fold execute_token (butlast (response_tokens m)) s"
  from execute.loop_from_first [OF r'(1) last_token(2) r(1) usable] obtain r0 where
    r0: "rs_client_next ieq ''GET'' ?r = Inr r0"
      "client_loop execute_stop (execute_round ieq) (put_reader s r0) =
       client_loop execute_stop (execute_round ieq) (put_reader ?g r')" by blast
  have g: "ex_client ?g = (ex_client s)\<lparr>wc_status_code := 101, wc_headers := hs,
      wc_last_header := if sm_fields m = [] then wc_last_header (ex_client s) else []\<rparr>"
    "ex_chunk ?g = ex_chunk s"
    unfolding tokens by (auto simp: execute_fields [OF wf(1)] execute_token_def hs_def)
  have chunk: "ibuffer r' = ex_chunk ?g" "drop (token_size r') (rest r') = behind"
    using inv g(2) r'(3) by (simp_all add: ahead_def)
  note last = execute_last_round [OF conjunct1 [OF inv] _ r'(2) end_token chunk]
  show ?thesis
    using r0 r(5) [where ieq = ieq and m = "''GET''"] last inv assms(1) g
    by (simp add: execute_def put_reader_def [symmetric] client_idle_def execute_end_def rs_parsed_count_def Let_def)
qed

text \<open>Any other status code makes the client give up, with the chunk as it was.\<close>

lemma execute_refused:
  assumes "client_idle (ex_client s)" and "wf_response ieq meth m" and "sm_status m \<noteq> ''101''"
    and "ex_chunk s = render_response m @ behind"
  shows "\<exists>s'. execute ieq contains s = Some (Inr (False, s')) \<and> wc_errored (ex_client s') \<and>
    ex_chunk s' = ex_chunk s \<and> wc_headers (ex_client s') = wc_headers (ex_client s)"
proof -
  let ?r = "(wc_parser (ex_client s))\<lparr>ibuffer := ex_chunk s, idx := 0\<rparr>"
  let ?ts = "[(code_skip, rs_static_str), (code_version, [sm_minor m]), (code_skip, '' ''),
    (code_status_code, sm_status m)]"
  let ?behind = "'' '' @ sm_reason m @ CRLF @ render_fields (sm_fields m) @ CRLF @ render_body (sm_body m) @ behind"
  note r = client_idle_buffer [OF assms(1), where buf = "ex_chunk s"]
  have wf: "isdigit (sm_minor m)" "sm_minor m \<noteq> CHR ''0''" "length (sm_status m) = 3"
    "list_all isdigit (sm_status m)"
    using assms(2) by (simp_all add: wf_response_def)
  have "rs_in RS_EXPECT_VERSION_STATIC_STR (RS_UNKNOWN_BODY, body_size ?r) ?r"
    using r(3) by (simp add: rs_at_start_def rs_in_def)
  moreover have "ahead ?r (rs_static_str @ [sm_minor m] @ '' '' @ sm_status m @ ?behind)"
    using r(4) assms(4) by (simp add: render_response_def)
  ultimately obtain r' where r': "gives (rs_next ieq) ?r ?ts r'" "ahead r' ?behind"
    using yieldsD [OF rs_reads_up_to_status [OF wf]] by blast
  have "gives (rs_client_next ieq ''GET'') ?r ?ts r'"
    using r'(1) r(3) by (intro rs_client_gives) (auto simp: rs_at_start_def)
  from execute.loop_from_first [OF this _ r(1), where s = s] wf(2) obtain r0 where
    r0: "rs_client_next ieq ''GET'' ?r = Inr r0" "client_loop execute_stop (execute_round ieq) (put_reader s r0) =
      client_loop execute_stop (execute_round ieq) (put_reader s r')"
    by (auto simp: handshake_token_def request_only_codes_def execute_token_def)
  have status: "cur_code r' = code_status_code" "token_prefix r' = sm_status m" "in_range r'"
    using gives_last [OF r'(1)] r'(2) by (simp_all add: ahead_def)
  from rs_value_status_other [OF status(3,1,2) wf(3,4) assms(3)] obtain v where
    v: "rs_value_status_code r' = Inr v" "v \<noteq> 101" by blast
  have "execute_round ieq (put_reader s r') =
      Inl (give_up (update_client (\<lambda>c. c\<lparr>wc_status_code := v\<rparr>) (put_reader s r')))"
    using status(1) v by (simp add: execute_round_def execute_switch_def rs_symbol_def execute_status_code_def Let_def)
  moreover have "\<not> execute_stop (put_reader s r')" using status(1) by (simp add: execute_stop_def)
  ultimately show ?thesis
    using r0 r(5) [where ieq = ieq and m = "''GET''"] assms(1)
    by (simp add: execute_def client_loop_leave put_reader_def [symmetric] client_idle_def give_up_def)
       (simp add: put_reader_def)
qed

text \<open>C15: a whole response to the handshake. When the chunk is a response written to the grammar and
  whatever follows it, the run answers whether the status code is 101 and \<open>Upgrade\<close> is among the
  header fields. On a 101 response the client has collected the header fields, the chunk is left with
  exactly the octets behind the response, the first ones of the new protocol, and the client is ready
  for more; on any other the client has given up and the chunk is as it was.\<close>

theorem execute_handshake:
  assumes "client_idle (ex_client s)" and "wf_response ieq ''GET'' m"
    and "ex_chunk s = render_response m @ behind"
  shows "\<exists>s'. execute ieq contains s = Some (Inr (sm_status m = ''101'' \<and>
      contains ''Upgrade'' (wc_headers (ex_client s) @ pairs_of (sm_fields m)), s')) \<and>
    (if sm_status m = ''101''
     then client_idle (ex_client s') \<and> wc_ready (ex_client s') \<and> ex_chunk s' = behind \<and>
       wc_headers (ex_client s') = wc_headers (ex_client s) @ pairs_of (sm_fields m)
     else wc_errored (ex_client s') \<and> ex_chunk s' = ex_chunk s)"
proof (cases "sm_status m = ''101''")
  case True
  from execute_upgrade [OF assms(1,2) True assms(3), of contains] True show ?thesis by auto
next
  case False
  from execute_refused [OF assms(1,2) False assms(3), of contains] False show ?thesis by auto
qed

definition sample_switching :: response_message where
  "sample_switching = \<lparr>sm_minor = CHR ''1'', sm_status = ''101'', sm_reason = ''Switching Protocols'',
     sm_fields = [\<lparr>hf_name = ''Upgrade'', hf_ows = '' '', hf_value = ''websocket'', hf_trail = ''''\<rparr>],
     sm_body = No_body\<rparr>"

theorem execute_handshake_witness:
  "\<exists>s'. execute stream_exact sample_contains
       \<lparr>ex_client = sample_client, ex_chunk = render_response sample_switching @ ''frames''\<rparr> = Some (Inr (True, s')) \<and>
     ex_chunk s' = ''frames'' \<and> wc_headers (ex_client s') = [(''Upgrade'', ''websocket'')]"
proof -
  let ?s = "\<lparr>ex_client = sample_client, ex_chunk = render_response sample_switching @ ''frames''\<rparr>"
  have idle: "client_idle (ex_client ?s)"
    using rs_new_inv [of 0] by (simp add: client_idle_def sample_client_def rs_at_start_def rs_new_def)
  have wf: "wf_response stream_exact ''GET'' sample_switching"
    using forbids_body_101
    by (simp add: sample_switching_def wf_response_def wf_field_def values_of_def class_defs)
  from execute_handshake [OF idle wf, of "''frames''" sample_contains] show ?thesis
    by (auto simp: sample_switching_def sample_client_def sample_contains_def)
qed

end
