(* ===== verification/Tutorial.thy ===== *)
theory Tutorial
  imports Request_Client Stream_Props
begin

text \<open>
  \<open>my_socket_consumer\<close>, the consumer of requests the tutorial builds in the stages
  \<open>doc/parsing_tutorial1.cpp\<close> to \<open>doc/parsing_tutorial1h.cpp\<close>. A stage differs from the one
  before in a few lines, so the model has one \<open>switch\<close> per stage and shares what the stages share;
  the comment \<open>// ...\<close> of the last three stages stands for the error cases of stage 1e.

  \<open>buffer.push_back(data)\<close> appends the octets of \<open>data\<close>; the call of
  \<open>on_socket_callback()\<close> without an argument appends none. \<open>ready()\<close> is a virtual function of
  the user: the public members it can read are an entry of a log.
\<close>

section \<open>State\<close>

record consumer_data =
  cd_method :: octets
  cd_request_target :: octets
  cd_version :: int
  cd_headers :: header_map
  cd_trailers :: header_map

record consumer =
  cs_reader :: request
  cs_buffer :: octets
  cs_last_header :: octets
  cs_data :: consumer_data
  cs_use_trailers :: bool
  cs_ready :: "consumer_data list"

definition ready :: "consumer \<Rightarrow> consumer" where
  "ready c = c\<lparr>cs_ready := cs_ready c @ [cs_data c]\<rparr>"

section \<open>The switches\<close>

abbreviation with_data :: "(consumer_data \<Rightarrow> consumer_data) \<Rightarrow> consumer \<Rightarrow> consumer" where
  "with_data f c \<equiv> c\<lparr>cs_data := f (cs_data c)\<rparr>"

text \<open>Stages 1 to 1d.\<close>

definition consumer_switch :: "consumer \<Rightarrow> client_failure + consumer" where
  "consumer_switch c =
     (let r = cs_reader c in
      case cur_code r of
        code_skip \<Rightarrow> Inr c
      | code_method \<Rightarrow>
          map_sum Faulted (\<lambda>v. with_data (\<lambda>d. d\<lparr>cd_method := v\<rparr>) c) (rq_value_method r)
      | code_request_target \<Rightarrow>
          map_sum Faulted (\<lambda>v. with_data (\<lambda>d. d\<lparr>cd_request_target := v\<rparr>) c) (rq_value_request_target r)
      | code_version \<Rightarrow>
          map_sum Faulted (\<lambda>v. with_data (\<lambda>d. d\<lparr>cd_version := v\<rparr>) c) (rq_value_version r)
      | code_field_name \<Rightarrow> map_sum Faulted (\<lambda>v. c\<lparr>cs_last_header := v\<rparr>) (rq_value_field_name r)
      | code_trailer_name \<Rightarrow> map_sum Faulted (\<lambda>v. c\<lparr>cs_last_header := v\<rparr>) (rq_value_field_name r)
      | _ \<Rightarrow> Inr c)"

text \<open>Stage 1e: the errors.\<close>

definition consumer_switch_1e :: "consumer \<Rightarrow> client_failure + consumer" where
  "consumer_switch_1e c =
     (case cur_code (cs_reader c) of
        code_error_set_method \<Rightarrow> Inl (Faulted Assertion)
      | code_error_use_another_connection \<Rightarrow> Inl (Faulted Assertion)
      | code_error_invalid_data \<Rightarrow> Inl (Thrown ''invalid HTTP data'')
      | code_error_no_host \<Rightarrow> Inl (Thrown ''invalid HTTP data'')
      | code_error_invalid_content_length \<Rightarrow> Inl (Thrown ''invalid HTTP data'')
      | code_error_content_length_overflow \<Rightarrow> Inl (Thrown ''invalid HTTP data'')
      | code_error_invalid_transfer_encoding \<Rightarrow> Inl (Thrown ''invalid HTTP data'')
      | code_error_chunk_size_overflow \<Rightarrow> Inl (Thrown ''invalid HTTP data'')
      | _ \<Rightarrow> consumer_switch c)"

text \<open>Stage 1f: the values of header fields.\<close>

definition consumer_switch_1f :: "consumer \<Rightarrow> client_failure + consumer" where
  "consumer_switch_1f c =
     (if cur_code (cs_reader c) \<in> {code_field_value, code_trailer_value}
      then map_sum Faulted
             (\<lambda>v. with_data (\<lambda>d. d\<lparr>cd_headers := cd_headers d @ [(cs_last_header c, v)]\<rparr>) c)
             (rq_value_field_value (cs_reader c))
      else consumer_switch_1e c)"

text \<open>Stage 1g: trailers apart from headers.\<close>

definition consumer_switch_1g :: "consumer \<Rightarrow> client_failure + consumer" where
  "consumer_switch_1g c =
     (if cur_code (cs_reader c) \<in> {code_field_value, code_trailer_value}
      then map_sum Faulted
             (\<lambda>v. if cs_use_trailers c
                  then with_data (\<lambda>d. d\<lparr>cd_trailers := cd_trailers d @ [(cs_last_header c, v)]\<rparr>) c
                  else with_data (\<lambda>d. d\<lparr>cd_headers := cd_headers d @ [(cs_last_header c, v)]\<rparr>) c)
             (rq_value_field_value (cs_reader c))
      else if cur_code (cs_reader c) = code_end_of_headers then Inr (c\<lparr>cs_use_trailers := True\<rparr>)
      else consumer_switch_1e c)"

text \<open>Stage 1h: the method starts a new request.\<close>

definition consumer_switch_1h :: "consumer \<Rightarrow> client_failure + consumer" where
  "consumer_switch_1h c =
     (if cur_code (cs_reader c) = code_method
      then let c = (with_data (\<lambda>d. d\<lparr>cd_headers := [], cd_trailers := []\<rparr>) c)\<lparr>cs_use_trailers := False\<rparr>
           in map_sum Faulted (\<lambda>v. with_data (\<lambda>d. d\<lparr>cd_method := v\<rparr>) c) (rq_value_method (cs_reader c))
      else consumer_switch_1g c)"

section \<open>The callbacks\<close>

definition consumer_start :: "iequals \<Rightarrow> octets \<Rightarrow> consumer \<Rightarrow> client_failure + consumer" where
  "consumer_start ieq data c =
     (let c = c\<lparr>cs_buffer := cs_buffer c @ data\<rparr>
      in map_sum Faulted (\<lambda>r. c\<lparr>cs_reader := r\<rparr>) (rq_set_buffer ieq (cs_buffer c) (cs_reader c)))"

definition consumer_next :: "iequals \<Rightarrow> consumer \<Rightarrow> client_failure + consumer" where
  "consumer_next ieq c = map_sum Faulted (\<lambda>r. c\<lparr>cs_reader := r\<rparr>) (rq_next ieq (cs_reader c))"

text \<open>Stages 1 and 1b: the loop runs to the end of a message, whatever the reader reports.\<close>

definition on_socket_callback ::
  "iequals \<Rightarrow> octets \<Rightarrow> consumer \<Rightarrow> (client_failure + consumer) option" where
  "on_socket_callback ieq data c =
     (case consumer_start ieq data c of
        Inl f \<Rightarrow> Some (Inl f)
      | Inr c \<Rightarrow>
          map_option (\<lambda>x. case x of Inl f \<Rightarrow> Inl f | Inr c \<Rightarrow> map_sum id ready (consumer_next ieq c))
            (client_loop (\<lambda>c. cur_code (cs_reader c) = code_end_of_message)
               (\<lambda>c. case consumer_switch c of Inl f \<Rightarrow> Inl f | Inr c \<Rightarrow> consumer_next ieq c) c))"

text \<open>From stage 1c on the loop also counts the octets it has parsed.\<close>

definition counted_round ::
  "(consumer \<Rightarrow> client_failure + consumer) \<Rightarrow> iequals \<Rightarrow> consumer \<times> nat \<Rightarrow>
   client_failure + consumer \<times> nat" where
  "counted_round switch ieq = (\<lambda>(c, nparsed).
     case switch c of
       Inl f \<Rightarrow> Inl f
     | Inr c \<Rightarrow> map_sum id (\<lambda>c'. (c', nparsed + token_size (cs_reader c))) (consumer_next ieq c))"

definition counted_end :: "iequals \<Rightarrow> consumer \<times> nat \<Rightarrow> client_failure + consumer" where
  "counted_end ieq = (\<lambda>(c, nparsed).
     let nparsed = nparsed + token_size (cs_reader c)
     in map_sum id (\<lambda>c. c\<lparr>cs_buffer := drop nparsed (cs_buffer c)\<rparr>) (consumer_next ieq c))"

definition on_socket_callback_1c ::
  "iequals \<Rightarrow> octets \<Rightarrow> consumer \<Rightarrow> (client_failure + consumer) option" where
  "on_socket_callback_1c ieq data c =
     (case consumer_start ieq data c of
        Inl f \<Rightarrow> Some (Inl f)
      | Inr c \<Rightarrow>
          map_option (\<lambda>x. case x of Inl f \<Rightarrow> Inl f | Inr x \<Rightarrow> map_sum id ready (counted_end ieq x))
            (client_loop (\<lambda>(c, _). cur_code (cs_reader c) = code_end_of_message)
               (counted_round consumer_switch ieq) (c, 0)))"

text \<open>From stage 1d on the loop also stops when data are missing. The result tells whether
  \<open>ready()\<close> was called.\<close>

definition resumable_stop :: "consumer \<times> nat \<Rightarrow> bool" where
  "resumable_stop = (\<lambda>(c, _). cur_code (cs_reader c) = code_error_insufficient_data \<or>
     cur_code (cs_reader c) = code_end_of_message)"

definition resumable_end :: "iequals \<Rightarrow> consumer \<times> nat \<Rightarrow> client_failure + bool \<times> consumer" where
  "resumable_end ieq x =
     map_sum id (\<lambda>c. if cur_code (cs_reader c) = code_error_insufficient_data then (False, c)
                     else (True, ready c)) (counted_end ieq x)"

definition resumable_callback ::
  "(consumer \<Rightarrow> client_failure + consumer) \<Rightarrow> iequals \<Rightarrow> octets \<Rightarrow> consumer \<Rightarrow>
   (client_failure + bool \<times> consumer) option" where
  "resumable_callback switch ieq data c =
     (case consumer_start ieq data c of
        Inl f \<Rightarrow> Some (Inl f)
      | Inr c \<Rightarrow> map_option (\<lambda>x. case x of Inl f \<Rightarrow> Inl f | Inr x \<Rightarrow> resumable_end ieq x)
                  (client_loop resumable_stop (counted_round switch ieq) (c, 0)))"



definition on_socket_callback_1f ::
  "iequals \<Rightarrow> octets \<Rightarrow> consumer \<Rightarrow> (client_failure + consumer) option" where
  "on_socket_callback_1f ieq data c =
     map_option (map_sum id snd) (resumable_callback consumer_switch_1f ieq data c)"

definition on_socket_callback_1g ::
  "iequals \<Rightarrow> octets \<Rightarrow> consumer \<Rightarrow> (client_failure + consumer) option" where
  "on_socket_callback_1g ieq data c =
     map_option (map_sum id snd) (resumable_callback consumer_switch_1g ieq data c)"

text \<open>Stage 1h calls itself while the buffer holds more.\<close>

partial_function (option) on_socket_callback_1h ::
  "iequals \<Rightarrow> octets \<Rightarrow> consumer \<Rightarrow> (client_failure + consumer) option" where
  "on_socket_callback_1h ieq data c =
     Option.bind (resumable_callback consumer_switch_1h ieq data c) (\<lambda>x.
       case x of
         Inl f \<Rightarrow> Some (Inl f)
       | Inr (called, c) \<Rightarrow>
           if called \<and> cs_buffer c \<noteq> [] then on_socket_callback_1h ieq [] c else Some (Inr c))"

declare on_socket_callback_1h.simps [code]

section \<open>What the last stage does on a token\<close>

definition consumer_token :: "token \<Rightarrow> consumer \<Rightarrow> consumer" where
  "consumer_token x c =
     (case fst x of
        code_method \<Rightarrow> (with_data (\<lambda>d. d\<lparr>cd_method := snd x, cd_headers := [], cd_trailers := []\<rparr>) c)
          \<lparr>cs_use_trailers := False\<rparr>
      | code_request_target \<Rightarrow> with_data (\<lambda>d. d\<lparr>cd_request_target := snd x\<rparr>) c
      | code_version \<Rightarrow> with_data (\<lambda>d. d\<lparr>cd_version := int (byte (hd (snd x))) - 48\<rparr>) c
      | code_field_name \<Rightarrow> c\<lparr>cs_last_header := snd x\<rparr>
      | code_trailer_name \<Rightarrow> c\<lparr>cs_last_header := snd x\<rparr>
      | code_end_of_headers \<Rightarrow> c\<lparr>cs_use_trailers := True\<rparr>
      | code \<Rightarrow>
          if code \<in> {code_field_value, code_trailer_value}
          then if cs_use_trailers c
               then with_data (\<lambda>d. d\<lparr>cd_trailers := cd_trailers d @ [(cs_last_header c, trimmed (snd x))]\<rparr>) c
               else with_data (\<lambda>d. d\<lparr>cd_headers := cd_headers d @ [(cs_last_header c, trimmed (snd x))]\<rparr>) c
          else c)"

definition counted_token :: "token \<Rightarrow> consumer \<times> nat \<Rightarrow> consumer \<times> nat" where
  "counted_token x = (\<lambda>(c, n). (consumer_token x c, n + length (snd x)))"

definition put_counted :: "consumer \<times> nat \<Rightarrow> request \<Rightarrow> consumer \<times> nat" where
  "put_counted = (\<lambda>(c, n) r. (c\<lparr>cs_reader := r\<rparr>, n))"

lemma consumer_switch_token:
  assumes "in_range r" and "plain_token (cur_code r, token_prefix r)"
  shows "consumer_switch_1h (c\<lparr>cs_reader := r\<rparr>) =
    Inr ((consumer_token (cur_code r, token_prefix r) c)\<lparr>cs_reader := r\<rparr>)"
proof -
  have view: "token_view r = Inr (token_prefix r)"
    using assms(1) by (simp add: in_range_def token_prefix_def rest_def)
  show ?thesis
  proof (cases "cur_code r")
    case code_version
    then obtain d where d: "token_prefix r = [d]" using assms(2) by (auto simp: plain_token_def length_Suc_conv)
    then have "byte_at (ibuffer r) (idx r) = Inr d" by (rule byte_at_token)
    with code_version d show ?thesis
      by (simp add: consumer_switch_1h_def consumer_switch_1g_def consumer_switch_1e_def consumer_switch_def
          rq_value_version_def consumer_token_def Let_def)
  qed (use assms(2) view in \<open>simp_all add: plain_token_def consumer_switch_1h_def consumer_switch_1g_def
      consumer_switch_1e_def consumer_switch_def consumer_token_def response_codes_def rq_value_method_def
      rq_value_request_target_def rq_value_field_name_def rq_value_field_value_def
      decode_field_value_trimmed Let_def\<close>)
qed

interpretation consumer: token_client "rq_next ieq" resumable_stop "counted_round consumer_switch_1h ieq"
  put_counted counted_token plain_token rq_inv for ieq
proof unfold_locales
  fix r r' and s :: "consumer \<times> nat"
  assume r: "rq_inv r" "plain_token (cur_code r, token_prefix r)" "rq_next ieq r = Inr r'"
  then have "in_range r" "length (token_prefix r) = token_size r"
    by (auto simp: rq_inv_def in_range_def token_prefix_def)
  with r show "\<not> resumable_stop (put_counted s r) \<and> counted_round consumer_switch_1h ieq (put_counted s r) =
      Inr (put_counted (counted_token (cur_code r, token_prefix r) s) r')"
    by (auto simp: resumable_stop_def put_counted_def counted_round_def counted_token_def consumer_next_def
        consumer_switch_token plain_token_def split: prod.split)
qed (rule rq_next_inv)

lemma counted_tokens:
  "fold counted_token ts (c, n) = (fold consumer_token ts c, n + sum_list (map (length \<circ> snd) ts))"
  by (induction ts arbitrary: c n) (simp_all add: counted_token_def)

section \<open>A whole request\<close>

text \<open>What \<open>ready()\<close> should see of a request.\<close>

definition summary :: "request_message \<Rightarrow> consumer_data" where
  "summary m = \<lparr>cd_method = rm_method m, cd_request_target = rm_target m,
     cd_version = int (byte (rm_minor m)) - 48, cd_headers = pairs_of (rm_fields m),
     cd_trailers = pairs_of (body_trailers (rm_body m))\<rparr>"

abbreviation last_name :: "header_field list \<Rightarrow> octets \<Rightarrow> octets" where
  "last_name hs l \<equiv> (if hs = [] then l else hf_name (last hs))"

lemma consumer_fields:
  assumes "list_all wf_field hs" and "\<not> cs_use_trailers c"
  shows "fold consumer_token (fields_tokens code_field_name code_field_value hs) c =
    (with_data (\<lambda>d. d\<lparr>cd_headers := cd_headers d @ pairs_of hs\<rparr>) c)\<lparr>cs_last_header := last_name hs (cs_last_header c)\<rparr>"
  using assms
  by (induction hs arbitrary: c) (auto simp: field_tokens_def consumer_token_def trimmed_field)

lemma consumer_trailers:
  assumes "list_all wf_field hs" and "cs_use_trailers c"
  shows "fold consumer_token (fields_tokens code_trailer_name code_trailer_value hs) c =
    (with_data (\<lambda>d. d\<lparr>cd_trailers := cd_trailers d @ pairs_of hs\<rparr>) c)\<lparr>cs_last_header := last_name hs (cs_last_header c)\<rparr>"
  using assms
  by (induction hs arbitrary: c) (auto simp: field_tokens_def consumer_token_def trimmed_field)

lemma consumer_ignores [simp]:
  "consumer_token (code_skip, t) c = c" "consumer_token (code_chunk_ext, t) c = c"
  "consumer_token (code_body_chunk, t) c = c" "consumer_token (code_end_of_body, t) c = c"
  by (simp_all add: consumer_token_def)

lemma consumer_chunk_line:
  "fold consumer_token (chunk_line_tokens code_skip l) c = c"
  "fold consumer_token (chunk_line_tokens code_end_of_body l) c = c"
  by (simp_all add: chunk_line_tokens_def)

lemma consumer_chunks: "fold consumer_token (concat (map chunk_tokens cs)) c = c"
  by (induction cs arbitrary: c) (simp_all add: chunk_tokens_def consumer_chunk_line)

lemma consumer_body:
  assumes "wf_body b" and "cs_use_trailers c"
  shows "\<exists>l. fold consumer_token (butlast (body_tokens b)) c =
    (with_data (\<lambda>d. d\<lparr>cd_trailers := cd_trailers d @ pairs_of (body_trailers b)\<rparr>) c)\<lparr>cs_last_header := l\<rparr>"
proof (cases b)
  case No_body
  then show ?thesis by (intro exI [of _ "cs_last_header c"]) (simp add: consumer_token_def)
next
  case (Sized d)
  then show ?thesis
    by (intro exI [of _ "cs_last_header c"]) (simp add: consumer_token_def butlast_append)
next
  case (Chunked cs l ts)
  with assms(1) have wf: "list_all wf_field ts" by simp
  show ?thesis
    unfolding Chunked body_tokens.simps append_assoc [symmetric] butlast_snoc
    using consumer_trailers [OF wf assms(2)]
    by (intro exI [of _ "last_name ts (cs_last_header c)"]) (simp add: consumer_chunks consumer_chunk_line)
qed

lemma consumer_request:
  fixes c :: consumer
  assumes "wf_request ieq m"
  defines "c' \<equiv> fold consumer_token (butlast (request_tokens m)) c"
  shows "cs_data c' = summary m" and "cs_buffer c' = cs_buffer c" and "cs_ready c' = cs_ready c"
proof -
  have wf: "list_all wf_field (rm_fields m)" "wf_body (rm_body m)"
    using assms(1) by (simp_all add: wf_request_def)
  let ?line = "[(code_method, rm_method m), (code_skip, '' ''), (code_request_target, rm_target m),
    (code_skip, rq_static_str), (code_version, [rm_minor m]), (code_skip, CRLF)]"
  let ?c1 = "fold consumer_token ?line c"
  let ?c2 = "fold consumer_token (fields_tokens code_field_name code_field_value (rm_fields m)) ?c1"
  have line: "\<not> cs_use_trailers ?c1" "cs_data ?c1 = \<lparr>cd_method = rm_method m, cd_request_target = rm_target m,
     cd_version = int (byte (rm_minor m)) - 48, cd_headers = [], cd_trailers = []\<rparr>"
    "cs_buffer ?c1 = cs_buffer c" "cs_ready ?c1 = cs_ready c"
    by (simp_all add: consumer_token_def)
  have c': "c' = fold consumer_token (butlast (body_tokens (rm_body m))) (?c2\<lparr>cs_use_trailers := True\<rparr>)"
    unfolding c'_def butlast_request_tokens fold_append comp_apply by (simp add: consumer_token_def)
  have "cs_use_trailers (?c2\<lparr>cs_use_trailers := True\<rparr>)" by simp
  from consumer_body [OF wf(2) this] consumer_fields [OF wf(1) line(1)] line(2-4)
  show "cs_data c' = summary m" "cs_buffer c' = cs_buffer c" "cs_ready c' = cs_ready c"
    unfolding c' by (auto simp: summary_def)
qed

section \<open>Requests in one buffer\<close>

text \<open>The consumer between two calls, with nothing read of the next request.\<close>

definition consumer_idle :: "consumer \<Rightarrow> bool" where
  "consumer_idle c \<longleftrightarrow> cs_buffer c = [] \<and> rq_inv (cs_reader c) \<and> rq_at_start (cs_reader c) \<and>
     cur_code (cs_reader c) = code_error_insufficient_data \<and> token_size (cs_reader c) = 0"

text \<open>The consumer at the first token of a request, with the rest of the request in its buffer.\<close>

definition reading :: "iequals \<Rightarrow> consumer \<Rightarrow> request_message \<Rightarrow> octets \<Rightarrow> bool" where
  "reading ieq c m behind \<longleftrightarrow>
     (let r = cs_reader c in
      rq_inv r \<and> rq_sane r \<and> idx r = 0 \<and> ibuffer r = cs_buffer c \<and>
      (cur_code r, token_prefix r) = hd (request_tokens m) \<and>
      (\<exists>r'. gives (rq_next ieq) r (tl (request_tokens m)) r' \<and> rq_at_start r' \<and> ahead r' behind))"

lemma reading_loop:
  assumes "wf_request ieq m" and "reading ieq c m behind"
  shows "\<exists>g r'. client_loop resumable_stop (counted_round consumer_switch_1h ieq) (c, 0) =
      Some (Inr (g\<lparr>cs_reader := r'\<rparr>, idx r')) \<and>
    cs_data g = summary m \<and> cs_ready g = cs_ready c \<and> rq_inv r' \<and> rq_sane r' \<and> rq_at_start r' \<and>
    cur_code r' = code_end_of_message \<and> drop (idx r' + token_size r') (cs_buffer g) = behind \<and> ahead r' behind"
proof -
  let ?r = "cs_reader c" and ?ts = "butlast (request_tokens m)"
  obtain r' where r: "rq_inv ?r" "rq_sane ?r" "idx ?r = 0" "ibuffer ?r = cs_buffer c"
    and tok: "(cur_code ?r, token_prefix ?r) = hd (request_tokens m)"
    and r': "gives (rq_next ieq) ?r (tl (request_tokens m)) r'" "rq_at_start r'" "ahead r' behind"
    using assms(2) by (auto simp: reading_def Let_def)
  have ts: "(cur_code ?r, token_prefix ?r) # tl (request_tokens m) = request_tokens m" using tok by simp
  note inv = gives_inv [OF r'(1) r(1,2)]
  have end_token: "cur_code r' = code_end_of_message"
  proof -
    have "tl (request_tokens m) \<noteq> []" by (simp add: request_tokens_def)
    with gives_last [OF r'(1)] have "(cur_code r', token_prefix r') = last (body_tokens (rm_body m))"
      by (simp add: request_tokens_def)
    then show ?thesis using last_body_tokens [of "rm_body m"] by (metis fst_conv)
  qed
  have count: "idx r' = sum_list (map (length \<circ> snd) ?ts)"
    using rq_gives_count [OF r'(1) r(1)] r(3) request_tokens_plain [OF assms(1)]
    unfolding ts by (auto simp: plain_token_def list_all_iff)
  have "client_loop resumable_stop (counted_round consumer_switch_1h ieq) (c, 0) =
      client_loop resumable_stop (counted_round consumer_switch_1h ieq)
        (put_counted (fold counted_token ?ts (c, 0)) r')"
    using consumer.loop_tokens [OF r'(1) r(1), where s = "(c, 0)"] request_tokens_plain [OF assms(1)]
    unfolding ts by (simp add: put_counted_def)
  also have "\<dots> = Some (Inr ((fold consumer_token ?ts c)\<lparr>cs_reader := r'\<rparr>, idx r'))"
    using end_token count
    by (simp add: put_counted_def counted_tokens client_loop_stop resumable_stop_def)
  finally show ?thesis
    using consumer_request [OF assms(1), of c] inv r'(2,3) r(4) end_token
    by (intro exI [of _ "fold consumer_token ?ts c"] exI [of _ r'])
       (simp add: ahead_def rest_def add.commute)
qed

text \<open>Behind a request, the next one is read from a buffer that starts with it.\<close>

lemma reading_next:
  assumes "wf_request ieq m" and "rq_inv r" and "rq_sane r" and "rq_at_start r"
    and "cur_code r = code_end_of_message" and "ahead r buf" and "buf = render_request m @ behind"
  shows "\<exists>r1. rq_next ieq r = Inr r1 \<and> symbol_convert (cur_code r1) \<noteq> symbol_error \<and>
    (\<forall>c. reading ieq (c\<lparr>cs_buffer := buf, cs_reader := r1\<lparr>ibuffer := buf, idx := 0\<rparr>\<rparr>) m behind)"
proof -
  obtain r' where r': "gives (rq_next ieq) r (request_tokens m) r'" "ahead r' behind" "rq_at_start r'"
    "cur_code r' = code_end_of_message" "rq_inv r'"
    using rq_reads_whole [OF assms(1-4)] assms(6,7) by blast
  obtain t ts where ts: "request_tokens m = t # ts" by (cases "request_tokens m") auto
  with r'(1) obtain r1 where r1: "rq_next ieq r = Inr r1" "(cur_code r1, token_prefix r1) = t"
    "gives (rq_next ieq) r1 ts r'" by auto
  let ?s = "r1\<lparr>ibuffer := buf, idx := 0\<rparr>"
  have inv: "rq_inv r1" "rq_sane r1" using rq_next_inv [OF assms(2) r1(1)] rq_next_sane [OF assms(2,3) r1(1)] by simp_all
  have no_error: "\<forall>t \<in> set (request_tokens m). symbol_convert (fst t) \<noteq> symbol_error"
    using request_tokens_no_error by blast
  then have ok: "symbol_convert (cur_code r1) \<noteq> symbol_error" using ts r1(2) by auto
  have rest: "rest r1 = buf"
    using rq_next_rest [OF assms(2) _ r1(1)] assms(5,6)
    by (auto simp: ahead_def token_prefix_def in_range_def) (metis append_eq_conv_conj append_take_drop_id)
  have "keeps_token buf r1" using keeps_token_rest [of r1] inv(1) rest by (simp add: rq_inv_def)
  then have s: "rq_inv ?s" using inv(1) by (rule rq_rebuffer_inv [rotated])
  have sim: "rq_sim r1 ?s" using rest by (simp add: rq_sim_def rest_def)
  obtain s' where s': "gives (rq_next ieq) ?s ts s'" "rq_sim r' s'"
    using rq_gives_sim [OF r1(3) inv(1) s sim] no_error ts by auto
  have "rq_inv s'" using gives_inv [OF s'(1) s] inv(2) by (simp add: rq_sane_def)
  then have "rq_at_start s'" "ahead s' behind"
    using s'(2) r'(2-4) by (auto simp: rq_sim_def rq_at_start_def ahead_def rq_inv_def)
  moreover have "token_prefix ?s = token_prefix r1" using rest by (simp add: token_prefix_def rest_def)
  ultimately have "reading ieq (c\<lparr>cs_buffer := buf, cs_reader := ?s\<rparr>) m behind" for c
    using s s'(1) inv(2) r1(2) ts by (auto simp: reading_def rq_sane_def)
  with r1(1) ok show ?thesis by blast
qed

text \<open>The last stage behind \<open>set_buffer()\<close>.\<close>

definition callback_rest :: "iequals \<Rightarrow> consumer \<Rightarrow> (client_failure + consumer) option" where
  "callback_rest ieq c =
     Option.bind (client_loop resumable_stop (counted_round consumer_switch_1h ieq) (c, 0)) (\<lambda>x.
       case (case x of Inl f \<Rightarrow> Inl f | Inr x \<Rightarrow> resumable_end ieq x) of
         Inl f \<Rightarrow> Some (Inl f)
       | Inr (called, c) \<Rightarrow>
           if called \<and> cs_buffer c \<noteq> [] then on_socket_callback_1h ieq [] c else Some (Inr c))"

lemma bind_of_map: "Option.bind (map_option f x) g = Option.bind x (\<lambda>y. g (f y))"
  by (cases x) simp_all

lemma callback_start:
  "on_socket_callback_1h ieq data c =
     (case consumer_start ieq data c of Inl f \<Rightarrow> Some (Inl f) | Inr c \<Rightarrow> callback_rest ieq c)"
  by (subst on_socket_callback_1h.simps)
     (simp add: resumable_callback_def callback_rest_def bind_of_map split: sum.split)

text \<open>\<open>ready()\<close> is called for every request but the last.\<close>

lemma callback_rest_requests:
  assumes "list_all (wf_request ieq) (m # ms)" and "reading ieq c m (concat (map render_request ms))"
  shows "\<exists>c'. callback_rest ieq c = Some (Inr c') \<and> consumer_idle c' \<and>
    cs_ready c' = cs_ready c @ map summary (butlast (m # ms)) \<and> cs_data c' = summary (last (m # ms))"
  using assms
proof (induction ms arbitrary: m c)
  case Nil
  then obtain g r' where loop: "client_loop resumable_stop (counted_round consumer_switch_1h ieq) (c, 0) =
      Some (Inr (g\<lparr>cs_reader := r'\<rparr>, idx r'))"
    and g: "cs_data g = summary m" "cs_ready g = cs_ready c"
    and r': "rq_inv r'" "rq_at_start r'" "cur_code r' = code_end_of_message" "ahead r' []"
      "drop (idx r' + token_size r') (cs_buffer g) = []"
    using reading_loop [of ieq m c "[]"] by auto
  have next_r: "rq_next ieq r' = Inr (consume r')" using rq_next_end(1) [OF r'(2,4)] .
  have "rq_inv (consume r')" using rq_next_inv [OF r'(1) next_r] .
  moreover have "rq_at_start (consume r')" "token_size (consume r') = 0"
    using r'(2,3) by (simp_all add: rq_at_start_def consume_def)
  ultimately show ?case
    using loop g r'(5) next_r
    by (simp add: callback_rest_def resumable_end_def counted_end_def consumer_next_def consumer_idle_def)
next
  case (Cons m2 ms)
  let ?buf = "concat (map render_request (m2 # ms))"
  obtain g r' where loop: "client_loop resumable_stop (counted_round consumer_switch_1h ieq) (c, 0) =
      Some (Inr (g\<lparr>cs_reader := r'\<rparr>, idx r'))"
    and g: "cs_data g = summary m" "cs_ready g = cs_ready c"
    and r': "rq_inv r'" "rq_sane r'" "rq_at_start r'" "cur_code r' = code_end_of_message" "ahead r' ?buf"
      "drop (idx r' + token_size r') (cs_buffer g) = ?buf"
    using reading_loop [OF _ Cons.prems(2)] Cons.prems(1) by auto
  have wf: "wf_request ieq m2" "list_all (wf_request ieq) (m2 # ms)" using Cons.prems(1) by simp_all
  obtain r1 where r1: "rq_next ieq r' = Inr r1" "symbol_convert (cur_code r1) \<noteq> symbol_error"
    and reads: "\<And>c. reading ieq (c\<lparr>cs_buffer := ?buf, cs_reader := r1\<lparr>ibuffer := ?buf, idx := 0\<rparr>\<rparr>) m2
      (concat (map render_request ms))"
    using reading_next [OF wf(1) r'(1-5)] by fastforce
  let ?c = "ready (g\<lparr>cs_reader := r1, cs_buffer := ?buf\<rparr>)"
  let ?c1 = "?c\<lparr>cs_buffer := ?buf, cs_reader := r1\<lparr>ibuffer := ?buf, idx := 0\<rparr>\<rparr>"
  have code: "cur_code r1 \<noteq> code_error_insufficient_data" using r1(2) by auto
  have "?buf \<noteq> []" by (simp add: render_request_def rq_static_str_def)
  then have "callback_rest ieq c = on_socket_callback_1h ieq [] ?c"
    using loop r'(6) r1(1) code
    by (simp add: callback_rest_def resumable_end_def counted_end_def consumer_next_def ready_def)
  also have "\<dots> = callback_rest ieq ?c1"
    using code by (simp add: callback_start consumer_start_def rq_set_buffer_def ready_def)
  finally have step: "callback_rest ieq c = callback_rest ieq ?c1" .
  from Cons.IH [OF wf(2) reads [of ?c]] g show ?case unfolding step by (auto simp: ready_def)
qed

text \<open>C27: the consumer of the last stage on a batch of requests. When the requests of a list arrive in
  one piece, the callback returns with an empty buffer, has called \<open>ready()\<close> once for each of them
  but the last, in order and with the method, target, version, header fields and trailers of that
  request, and has not called it for the last one, whose members it has collected all the same: it waits
  for a further octet before it reports the end of the message. In particular a request that arrives
  alone is not reported.\<close>

theorem callback_requests:
  assumes "consumer_idle c" and "ms \<noteq> []" and "list_all (wf_request ieq) ms"
  shows "\<exists>c'. on_socket_callback_1h ieq (concat (map render_request ms)) c = Some (Inr c') \<and>
    consumer_idle c' \<and> cs_ready c' = cs_ready c @ map summary (butlast ms) \<and> cs_data c' = summary (last ms)"
proof -
  obtain m ms' where ms: "ms = m # ms'" using assms(2) by (cases ms) auto
  let ?buf = "concat (map render_request ms)"
  let ?r = "(cs_reader c)\<lparr>ibuffer := ?buf, idx := 0\<rparr>"
  have r: "rq_inv ?r" "rq_sane ?r" "rq_at_start ?r" "ahead ?r (render_request m @ concat (map render_request ms'))"
    using assms(1) rq_rebuffer_inv [of "cs_reader c" ?buf] ms
    by (simp_all add: consumer_idle_def rq_sane_def response_codes_def rq_at_start_def ahead_def in_range_def
        rest_def final_error_def keeps_token_def token_prefix_def)
  have wf: "wf_request ieq m" using assms(3) ms by simp
  obtain r' where r': "gives (rq_next ieq) ?r (request_tokens m) r'" "ahead r' (concat (map render_request ms'))"
    "rq_at_start r'"
    using rq_reads_whole [OF wf r] by blast
  obtain t ts where ts: "request_tokens m = t # ts" by (cases "request_tokens m") auto
  with r'(1) obtain r1 where r1: "rq_next ieq ?r = Inr r1" "(cur_code r1, token_prefix r1) = t"
    "gives (rq_next ieq) r1 ts r'" by auto
  have "rq_inv r1" "rq_sane r1" "ibuffer r1 = ?buf" "idx r1 = 0"
    using rq_next_inv [OF r(1) r1(1)] rq_next_sane [OF r(1,2) r1(1)] rq_next_frame [OF r(1) r1(1)] assms(1)
    by (simp_all add: consumer_idle_def)
  then have "reading ieq (c\<lparr>cs_buffer := ?buf, cs_reader := r1\<rparr>) m (concat (map render_request ms'))"
    using r1(2,3) r'(2,3) ts by (auto simp: reading_def)
  from callback_rest_requests [OF assms(3) [unfolded ms] this] r1(1) assms(1) show ?thesis
    by (simp add: callback_start consumer_start_def rq_set_buffer_def consumer_idle_def ms)
qed

definition sample_consumer :: consumer where
  "sample_consumer = \<lparr>cs_reader = rq_new RQ_HTTP_1_0 0, cs_buffer = [], cs_last_header = [],
     cs_data = \<lparr>cd_method = [], cd_request_target = [], cd_version = 0, cd_headers = [], cd_trailers = []\<rparr>,
     cs_use_trailers = False, cs_ready = []\<rparr>"

lemma sample_consumer_idle: "consumer_idle sample_consumer"
  using rq_new_inv [of RQ_HTTP_1_0 0]
  by (simp add: consumer_idle_def sample_consumer_def rq_at_start_def rq_new_def)

theorem callback_requests_witness:
  "\<exists>c'. on_socket_callback_1h stream_exact (render_request sample_post @ render_request sample_get) sample_consumer =
       Some (Inr c') \<and> cs_ready c' = [summary sample_post] \<and> cs_data c' = summary sample_get"
proof -
  have "list_all (wf_request stream_exact) [sample_post, sample_get]" by (simp add: sample_requests_wf)
  from callback_requests [OF sample_consumer_idle _ this] show ?thesis by (auto simp: sample_consumer_def)
qed

section \<open>A token cut in two\<close>





section \<open>Invalid data\<close>






end
