(* ===== verification/Spec2Isabelle.thy ===== *)
theory Spec2Isabelle
  imports Syntax_Props Request_Props Response_Props Stream_Props Tufao_Server Tufao_Client Tutorial
begin

text \<open>
  A verification development of \<^bold>\<open>boost.http\<close>, the incremental HTTP/1.x message
  readers under \<open>src/include/boost/http/\<close>, and of the clients of these readers under
  \<open>src/doc/\<close>.

  \<^bold>\<open>The program.\<close> A client owns a buffer, hands it to a \<open>reader::request\<close> or
  \<open>reader::response\<close> with \<open>set_buffer()\<close>, and pulls tokens with \<open>next()\<close>, looking at
  \<open>code()\<close>, \<open>token_size()\<close> and \<open>value<T>()\<close> in between. A reader is a state machine
  whose \<open>next()\<close> is one \<open>switch\<close> over its state; it calls the matchers and decoders of
  \<open>syntax/\<close>, the character classes of \<open>reader/detail/abnf.hpp\<close>, the decoders of field
  values of \<open>reader/detail/\<close> and the list algorithm of \<open>algorithm/header/\<close>. When the
  buffer ends inside a token the code is \<open>error_insufficient_data\<close>, the client provides a
  longer buffer that starts at the current token, and the reader goes on. A response reader
  is told the method of its request (\<open>set_method()\<close>) and the end of the connection
  (\<open>puteof()\<close>). Three clients come with the library: the slot of a server
  (\<open>doc/tufao.cpp\<close>), the handshake of a WebSocket client (\<open>doc/tufao2.cpp\<close>) and the consumer
  the tutorial builds in eight stages (\<open>doc/parsing_tutorial1.cpp\<close> to
  \<open>doc/parsing_tutorial1h.cpp\<close>).

  \<^bold>\<open>The theories\<close>, in the order of the calls.

  \<^item> \<open>Http_Prelude\<close>: octets, views, faults, the outcome of one pass through a
    \<open>switch\<close>, the scanning loops and their lemmas.
  \<^item> \<open>Token\<close> (\<open>token.hpp\<close>, \<open>token.ipp\<close>): codes, symbols, categories.
  \<^item> \<open>Abnf\<close> (\<open>reader/detail/abnf.hpp\<close>, \<open>reader/detail/common.hpp\<close>,
    \<open>syntax/detail/\<close>): the character classes.
  \<^item> \<open>Syntax_Match\<close> (\<open>syntax/*.ipp\<close>): the matchers; the locale \<open>longest_prefix\<close>
    is the contract of five of them.
  \<^item> \<open>Number_Decode\<close> (\<open>syntax/content_length.ipp\<close>, \<open>syntax/chunk_size.ipp\<close>): the
    numeric decoders over words of any length; the locale \<open>positional\<close> is what their loops
    share.
  \<^item> \<open>Header_Value\<close> (\<open>reader/detail/common.hpp\<close>,
    \<open>reader/detail/transfer_encoding.hpp\<close>, \<open>algorithm/header/header_value_any_of.hpp\<close>):
    field values.
  \<^item> \<open>Reader_Common\<close>: the members both readers have (\<open>idx\<close>, \<open>token_size_\<close>,
    \<open>code_\<close>, \<open>body_size\<close>, \<open>ibuffer\<close>) and the operations on them alone.
  \<^item> \<open>Request\<close> (\<open>reader/request.hpp\<close>, \<open>reader/request.ipp\<close>): the record
    \<open>request\<close>, one definition \<open>rq_\<dots>\<close> per case of the \<open>switch\<close>,
    \<open>rq_next\<close>, \<open>rq_set_buffer\<close>, \<open>rq_reset\<close> and the inspection functions.
    \<open>Request_Inv\<close>: the invariant, one preservation lemma per case, case rules for
    \<open>next()\<close>. \<open>Request_Resume\<close>: the simulation \<open>rq_sim\<close> between readers at the same
    point of the stream. \<open>Request_Order\<close>: phases, progress, expected tokens.
    \<open>Request_Init\<close>: members without a value, codes.
  \<^item> \<open>Response\<close>, \<open>Response_Inv\<close>, \<open>Response_Resume\<close>, \<open>Response_Order\<close>,
    \<open>Response_Body\<close> (\<open>reader/response.hpp\<close>, \<open>reader/response.ipp\<close>): the same for
    responses, with \<open>rs_set_method\<close>, \<open>rs_puteof\<close> and messages without a body.
  \<^item> \<open>Message_Grammar\<close>: the abstract specification, an automaton over symbols and the
    symbol sequences of one message, shown to agree.
  \<^item> \<open>Reader_Interface\<close>: what a client relies on, as locales interpreted for both
    readers. \<open>token_reader\<close>: the invariant and the grammar under single calls give them for
    every sequence of calls. \<open>pulled_reader\<close>: a decreasing measure gives the end of the
    client's loop. \<open>partitioning_reader\<close>: consecutive tokens cover the buffer.
  \<^item> \<open>Message_Stream\<close>: messages as a sender writes them, and triples
    \<open>yields nxt P s ts Q s'\<close>: a reader in a state \<open>P\<close> with the octets \<open>s\<close> ahead gives
    the tokens \<open>ts\<close>, is in a state \<open>Q\<close>, and has \<open>s'\<close> ahead. The locales
    \<open>field_section\<close> and \<open>chunked_body\<close> carry the triples of single tokens to sections of
    header fields or trailers and to bodies in chunks. \<open>Request_Stream\<close> and
    \<open>Response_Stream\<close> prove the triples of the tokens, interpret the locales, and compose
    whole messages.
  \<^item> \<open>Split_Stream\<close>: input in pieces. \<open>feed\<close> is a client that is given pieces,
    \<open>merged\<close> joins tokens that a cut may divide; the locale \<open>incremental_reader\<close> has the laws
    of one call of \<open>next()\<close> with more data behind the buffer and derives that the pieces do not
    matter. \<open>Request_Split\<close> proves the laws of the request reader and interprets it.
  \<^item> \<open>Client_Loop\<close>: the loops of clients as partial functions; the locale
    \<open>client_loop_total\<close> gives their end from a measure and the state a failure happens in, the locale \<open>token_client\<close> reduces a
    loop over the tokens of a reader to a fold. \<open>Request_Client\<close>: what the clients of the
    request reader share.
  \<^item> \<open>Tufao_Server\<close> (\<open>doc/tufao.cpp\<close>): \<open>onReadyRead\<close>, with \<open>server_switch\<close> for
    the \<open>switch\<close>, \<open>server_end_of_headers\<close> and \<open>server_end_of_message\<close> for its longer
    cases and \<open>server_signals\<close> for what follows the loop. \<open>Tufao_Client\<close>
    (\<open>doc/tufao2.cpp\<close>): \<open>execute\<close>, built the same way. \<open>Tutorial\<close>: one \<open>switch\<close>
    and one callback per stage.
  \<^item> \<open>Syntax_Props\<close>, \<open>Request_Props\<close>, \<open>Response_Props\<close>, \<open>Stream_Props\<close> and
    the theories of the clients hold the properties, each preceded by its number and statement,
    with witnesses that evaluate concrete inputs.

  \<^bold>\<open>State and effects.\<close> A call is a function from reader to \<open>fault + reader\<close>.
  \<open>Out_of_bounds\<close> is an access outside the buffer or a view (undefined in C++),
  \<open>Assertion\<close> a failed \<open>assert\<close>, \<open>Unreachable\<close> a
  \<open>BOOST_HTTP_DETAIL_UNREACHABLE\<close>. Errors of the protocol are codes, as in the library.
  The tail calls \<open>return next();\<close> are recursive calls of \<open>rq_next\<close> and \<open>rs_next\<close>,
  which terminate because no case reached by one makes another. \<open>uint_least64_t\<close> is
  \<open>64 word\<close>, \<open>uint8_t\<close> \<open>8 word\<close>, the status code \<open>16 word\<close>;
  \<open>std::size_t\<close> values are bounded by the size of a buffer and are natural numbers.
  Members the constructors leave without a value are arguments of \<open>rq_new\<close> and
  \<open>rs_new\<close>. The comparison \<open>boost::algorithm::iequals\<close> is not part of the repository:
  it is an argument \<open>ieq\<close>, and nothing is assumed of it. The clients add failures of their
  own: \<open>Faulted\<close> passes a fault of the reader on, \<open>Fatal\<close> is \<open>qFatal\<close>,
  \<open>Thrown\<close> an exception. What they ask of Qt, Tufao and the sockets is a log of calls; the
  functions of these libraries whose result matters (\<open>clearRequest()\<close>, the iteration from
  \<open>headers.find()\<close>, \<open>headers.contains()\<close>) are arguments, and nothing is assumed of them;
  \<open>clearRequest()\<close> is taken to act on the members that describe the request. Their multi-maps are
  lists of pairs in the order of insertion, not in the order of the containers. The C library's
  \<open>isalnum\<close> in \<open>syntax/field_name.ipp\<close> is that of the ``C'' locale. A \<open>// \<dots>\<close> in
  the stages 1f to 1h of the tutorial stands for the cases of stage 1e.

  \<^bold>\<open>What is shown.\<close> Both readers keep their invariant under every sequence of calls within
  the contract, never fail an assertion and never reach an unreachable statement; they stay
  inside their buffer and its views on all data but an empty header field value. There
  \<open>decode_field_value\<close> indexes outside an empty view, which C++ leaves undefined and the model has as
  a fault; the tests expect the empty value, and \<open>decode_field_value_flat\<close>, the same loop with
  addresses that wrap around, gives it as long as the colon of the field is in the buffer. Tokens
  come in the order of the grammar, those of an unfinished message too, cover the buffer without gaps, and their number is linear in its size, so that the
  client's loop ends. Splitting the input inside a token changes nothing, and for requests no way of
  cutting the whole input does, but for the division of skipped octets and of the body among tokens;
  parsed octets may be erased. What \<open>expected_token()\<close> announces comes, except in cases that are
  listed exactly. \<open>reset()\<close> gives a reader that behaves like a new one, and no member is read before
  it is written. Responses that cannot have a body get none, and the end of the connection ends
  a body delimited by it. The decoders compute the number that is written, or report that it
  does not fit; the list algorithm visits the elements of the list; the chunked coding is
  recognised exactly where it is the last one. Messages written to the grammar are read back token
  by token, with every kind of framing. The server slot and the WebSocket handshake return on all
  input, never reach \<open>qFatal\<close>, fail on nothing but an empty field value, keep the contract of the
  reader between two runs, and handle a whole message as they should; the handshake answers true only
  after the end of a 101 response with an \<open>Upgrade\<close> field. The tutorial's consumer reports every
  request of a batch but the last one, and loses the octets of a method that is cut in two; both are
  defects, shown for all inputs of that kind.

  \<^bold>\<open>Bounds and fuel.\<close> No definition has fuel. The client's loop \<open>pull\<close> and the loops
  of the clients are partial functions whose value, in states that satisfy the invariant, is shown
  to exist; stage 1d of the tutorial is shown to have none on invalid data. The
  numeric decoders are shown correct for target types of eight bits or more, the smallest
  unsigned type of C++.

  \<^bold>\<open>What is not modelled.\<close> The tests; the preprocessor macro behind unreachable
  statements; Boost, Asio, Qt and Tufao themselves; stage 1b of the tutorial, which repeats the
  function of stage 1.

  \<^bold>\<open>Plan.\<close> Next: invariance of the whole token stream under every split of the input, for
  the response reader and for the server slot; responses whose body is delimited by the end of the
  connection and responses of HTTP/1.0 in the round trip; for the response reader the facts about
  \<open>expected_token()\<close>, \<open>reset()\<close> and members without a value.
\<close>

end
